(* ===== verification/Prelude.thy ===== *)
theory Prelude
  imports Main "HOL-Library.Word" "HOL-Library.Multiset" "HOL-Library.Sublist"
begin

text \<open>
  Shared vocabulary of the development: the machine types of the C code, the result conventions
  of its functions, byte strings as big-endian numbers, arithmetic on \<open>size_t\<close>, and the
  interfaces (\<^theory_text>\<open>locale\<close>s) between a reader of bytes and its clients.

  The client is built for 64-bit Apple platforms (LP64, little-endian): \<open>size_t\<close> and
  \<open>crypto_word_t\<close> have 64 bits, \<open>int\<close> has 32.
\<close>

unbundle bit_operations_syntax

section \<open>Machine types\<close>

type_synonym byte = "8 word"
type_synonym u16 = "16 word"
type_synonym u32 = "32 word"
type_synonym u64 = "64 word"
type_synonym bytes = "byte list"

named_theorems bytestring_defs \<open>definitions of the byte-string readers\<close>
named_theorems builder_defs \<open>definitions of the byte-string builder\<close>
named_theorems size_simps \<open>facts about lengths and size_t arithmetic\<close>

section \<open>Arithmetic on size_t\<close>

text \<open>
  A \<open>size_t\<close> is a natural number below \<open>2 ^ 64\<close>. Sums and products that the code lets
  wrap are written with \<open>size_add\<close> and \<open>size_mul\<close>.
\<close>

definition SIZE_MOD :: nat where
  "SIZE_MOD = 2 ^ 64"

definition size_add :: "nat \<Rightarrow> nat \<Rightarrow> nat" where
  "size_add a b = (a + b) mod SIZE_MOD"

definition size_mul :: "nat \<Rightarrow> nat \<Rightarrow> nat" where
  "size_mul a b = (a * b) mod SIZE_MOD"

definition size_sub :: "nat \<Rightarrow> nat \<Rightarrow> nat" where
  "size_sub a b = (if b \<le> a then a - b else a + SIZE_MOD - b)"

lemma SIZE_MOD_pos [simp]: "0 < SIZE_MOD"
  by (simp add: SIZE_MOD_def)

lemma size_add_exact [size_simps]: "a + b < SIZE_MOD \<Longrightarrow> size_add a b = a + b"
  by (simp add: size_add_def)

lemma size_add_less [simp]: "size_add a b < SIZE_MOD"
  by (simp add: size_add_def)

lemma size_add_exact_3:
  assumes "a + b + c < SIZE_MOD"
  shows "size_add (size_add a b) c = a + b + c" "size_add a (size_add b c) = a + b + c"
  using assms by (simp_all add: size_add_exact)

text \<open>The overflow test of the C code, \<open>a + b < a\<close>, is exact.\<close>

lemma size_add_overflow:
  assumes "a < SIZE_MOD" "b < SIZE_MOD"
  shows "size_add a b < a \<longleftrightarrow> SIZE_MOD \<le> a + b"
proof (cases "a + b < SIZE_MOD")
  case True
  then show ?thesis by (simp add: size_add_exact)
next
  case False
  with assms have "size_add a b = a + b - SIZE_MOD"
    by (simp add: size_add_def mod_if)
  with assms False show ?thesis by simp
qed

lemma size_mul_exact [size_simps]: "a * b < SIZE_MOD \<Longrightarrow> size_mul a b = a * b"
  by (simp add: size_mul_def)

section \<open>Results of C functions\<close>

text \<open>
  A function that returns \<open>int\<close> success and changes the object it is called on becomes a
  function to \<open>'a option \<times> 's\<close>: \<open>None\<close> for the return value 0, the out parameter under
  \<open>Some\<close> otherwise, and in both cases the object as the call leaves it. \<open>chk r f\<close> is the
  statement \<open>if (!r) return 0;\<close> followed by the rest \<open>f\<close>.
\<close>

definition chk :: "'a option \<times> 's \<Rightarrow> ('a \<Rightarrow> 's \<Rightarrow> 'b option \<times> 's) \<Rightarrow> 'b option \<times> 's" where
  "chk r f = (case r of (None, s) \<Rightarrow> (None, s) | (Some x, s) \<Rightarrow> f x s)"

lemma chk_simps [simp]:
  "chk (None, s) f = (None, s)"
  "chk (Some x, s) f = f x s"
  by (simp_all add: chk_def)

lemma chk_Some_iff:
  "chk r f = (Some y, t) \<longleftrightarrow> (\<exists>x s. r = (Some x, s) \<and> f x s = (Some y, t))"
  by (cases r) (auto simp: chk_def split: option.splits)

lemma chk_split:
  "P (chk r f) \<longleftrightarrow> (\<forall>s. r = (None, s) \<longrightarrow> P (None, s)) \<and> (\<forall>x s. r = (Some x, s) \<longrightarrow> P (f x s))"
  by (cases r) (auto simp: chk_def split: option.splits)

lemma chk_cong [fundef_cong]:
  "r = r' \<Longrightarrow> (\<And>x s. r' = (Some x, s) \<Longrightarrow> f x s = g x s) \<Longrightarrow> chk r f = chk r' g"
  by (cases r') (auto simp: chk_def split: option.splits)

lemma chk_snd: "(\<And>x t. snd (f x t) = t) \<Longrightarrow> snd (chk p f) = snd p"
  by (cases p; cases "fst p") auto

lemma fst_Some: "fst p = Some r \<longleftrightarrow> (\<exists>t. p = (Some r, t))"
  by (cases p) simp

lemma if_fail: "(if b then (None, c) else e) = (Some r, t) \<longleftrightarrow> \<not> b \<and> e = (Some r, t)"
  by simp

lemma option_fail:
  "(case x of None \<Rightarrow> (None, c) | Some y \<Rightarrow> f y) = (Some r, t) \<longleftrightarrow> (\<exists>y. x = Some y \<and> f y = (Some r, t))"
  by (cases x) simp_all

section \<open>Words\<close>

lemma xor_eq_0_iff_word: "(a :: 'a :: len word) XOR b = 0 \<longleftrightarrow> a = b"
  by (metis xor.assoc xor.right_neutral xor_self_eq xor.left_neutral)

lemma or_eq_0_iff_word: "(a :: 'a :: len word) OR b = 0 \<longleftrightarrow> a = 0 \<and> b = 0"
  by (auto simp: bit_eq_iff bit_simps)

lemma unat_word_of_nat_small: "n < 2 ^ LENGTH('a) \<Longrightarrow> unat (word_of_nat n :: 'a :: len word) = n"
  by (simp add: unat_of_nat)

lemma word_of_nat_unat [simp]: "word_of_nat (unat w) = (w :: 'a :: len word)"
  by simp

lemma unat_ucast_up:
  "LENGTH('a) \<le> LENGTH('b) \<Longrightarrow> unat (ucast (w :: 'a :: len word) :: 'b :: len word) = unat w"
proof -
  assume "LENGTH('a) \<le> LENGTH('b)"
  then have "(2 :: nat) ^ LENGTH('a) \<le> 2 ^ LENGTH('b)"
    by (rule power_increasing) simp
  then have "unat w < 2 ^ LENGTH('b)"
    by (rule order.strict_trans2 [OF unsigned_less])
  then show ?thesis
    by (simp add: unsigned_ucast_eq unsigned_take_bit_eq take_bit_nat_eq_self)
qed

lemma unat_ucast_down:
  "unat (ucast (w :: 'a :: len word) :: 'b :: len word) = unat w mod 2 ^ LENGTH('b)"
  by (simp add: unsigned_ucast_eq unsigned_take_bit_eq take_bit_eq_mod)

section \<open>Byte strings as numbers\<close>

text \<open>The value of a big-endian byte string, and the \<open>n\<close> low bytes of a number.\<close>

definition be_val :: "bytes \<Rightarrow> nat" where
  "be_val bs = foldl (\<lambda>v b. v * 256 + unat b) 0 bs"

fun be_bytes :: "nat \<Rightarrow> nat \<Rightarrow> bytes" where
  "be_bytes 0 v = []"
| "be_bytes (Suc n) v = be_bytes n (v div 256) @ [word_of_nat v]"

lemma be_val_Nil [simp]: "be_val [] = 0"
  by (simp add: be_val_def)

lemma be_val_snoc [simp]: "be_val (bs @ [b]) = be_val bs * 256 + unat b"
  by (simp add: be_val_def)

lemma be_val_append: "be_val (as @ bs) = be_val as * 256 ^ length bs + be_val bs"
proof (induction bs rule: rev_induct)
  case Nil
  then show ?case by simp
next
  case (snoc b bs)
  have "be_val (as @ bs @ [b]) = be_val (as @ bs) * 256 + unat b"
    using be_val_snoc [of "as @ bs"] by simp
  with snoc show ?case by (simp add: algebra_simps)
qed

lemma be_val_single [simp]: "be_val [b] = unat b"
  using be_val_snoc [of "[]"] by simp

lemma be_val_Cons: "be_val (b # bs) = unat b * 256 ^ length bs + be_val bs"
  using be_val_append [of "[b]" bs] by simp

lemma unat_byte_less [simp]: "unat (b :: byte) < 256"
  using unsigned_less [of b, where ?'a = nat] by simp

lemma be_val_less: "be_val bs < 256 ^ length bs"
proof (induction bs rule: rev_induct)
  case Nil
  then show ?case by simp
next
  case (snoc b bs)
  have "be_val bs * 256 + unat b < be_val bs * 256 + 256"
    by simp
  also have "\<dots> \<le> 256 ^ length bs * 256"
    using snoc by (metis Suc_leI add.commute mult.commute mult_Suc mult_le_mono2)
  finally show ?case by simp
qed

lemma length_be_bytes [simp]: "length (be_bytes n v) = n"
  by (induction n v rule: be_bytes.induct) auto

lemma be_bytes_eq_Nil [simp]: "be_bytes n v = [] \<longleftrightarrow> n = 0"
  by (metis length_be_bytes length_0_conv)

lemma unat_word_of_nat_byte: "unat (word_of_nat v :: byte) = v mod 256"
  by (simp add: unat_of_nat)

lemma be_val_be_bytes_mod: "be_val (be_bytes n v) = v mod 256 ^ n"
proof (induction n arbitrary: v)
  case 0
  then show ?case by simp
next
  case (Suc n)
  have "v div 256 mod 256 ^ n * 256 + v mod 256 = v mod (256 * 256 ^ n)"
    by (simp add: mod_mult2_eq)
  with Suc show ?case by (simp add: unat_word_of_nat_byte mult.commute)
qed

lemma be_val_be_bytes: "v < 256 ^ n \<Longrightarrow> be_val (be_bytes n v) = v"
  by (simp add: be_val_be_bytes_mod)

lemma be_bytes_be_val: "be_bytes (length bs) (be_val bs) = bs"
proof (induction bs rule: rev_induct)
  case Nil
  then show ?case by simp
next
  case (snoc b bs)
  have "(be_val bs * 256 + unat b) div 256 = be_val bs"
    by (simp add: div_mult_self3)
  moreover have "(word_of_nat (be_val bs * 256 + unat b) :: byte) = b"
  proof (rule word_unat_eq_iff [THEN iffD2])
    have "unat (word_of_nat (be_val bs * 256 + unat b) :: byte) = (be_val bs * 256 + unat b) mod 256"
      by (rule unat_word_of_nat_byte)
    then show "unat (word_of_nat (be_val bs * 256 + unat b) :: byte) = unat b"
      by simp
  qed
  ultimately show ?case using snoc by simp
qed

lemma be_bytes_be_val': "length bs = n \<Longrightarrow> be_bytes n (be_val bs) = bs"
  using be_bytes_be_val by blast

lemma be_val_inject: "length as = length bs \<Longrightarrow> be_val as = be_val bs \<Longrightarrow> as = bs"
  by (metis be_bytes_be_val)

section \<open>Interfaces between readers, encoders and their clients\<close>

text \<open>
  A reader takes the bytes left in a span and returns what it read with the bytes left after it.
  The law every reader of the library obeys: it only ever moves forward inside the span, and a
  successful read consumes something. A client that reads items in a loop terminates by it.
\<close>

type_synonym 'a reader = "bytes \<Rightarrow> 'a option \<times> bytes"

text \<open>
  The loop \<open>while (CBS_len(cbs) != 0) { if (!read(cbs, &x)) return 0; ... }\<close> that several
  functions run: the items read, or \<open>None\<close> at the first failure. \<open>fuel\<close> bounds the number of
  iterations; a reader consumes a byte each time, so the length of the span is enough.
\<close>

fun read_all :: "'a reader \<Rightarrow> nat \<Rightarrow> bytes \<Rightarrow> 'a list option" where
  "read_all rd 0 s = (if s = [] then Some [] else None)"
| "read_all rd (Suc fuel) s =
     (if s = [] then Some []
      else case rd s of
        (None, _) \<Rightarrow> None
      | (Some x, s') \<Rightarrow> map_option (Cons x) (read_all rd fuel s'))"

locale byte_reader =
  fixes rd :: "'a reader"
  assumes rd_suffix: "rd s = (r, s') \<Longrightarrow> suffix s' s"
    and rd_progress: "rd s = (Some x, s') \<Longrightarrow> length s' < length s"
begin

lemma rd_length: "rd s = (r, s') \<Longrightarrow> length s' \<le> length s"
  by (rule suffix_length_le, erule rd_suffix)

lemma rd_consumes: "rd s = (Some x, s') \<Longrightarrow> \<exists>p. p \<noteq> [] \<and> s = p @ s'"
  using rd_suffix rd_progress by (fastforce simp: suffix_def)

lemma read_all_fuel:
  "length s \<le> fuel \<Longrightarrow> length s \<le> fuel' \<Longrightarrow> read_all rd fuel s = read_all rd fuel' s"
proof (induction fuel arbitrary: fuel' s)
  case 0
  then show ?case by (cases fuel') auto
next
  case (Suc fuel)
  show ?case
  proof (cases "s = []")
    case True
    then show ?thesis by (cases fuel') auto
  next
    case False
    with Suc.prems obtain f where f: "fuel' = Suc f" by (cases fuel') auto
    have "read_all rd fuel s' = read_all rd f s'" if "rd s = (Some x, s')" for x s'
      using Suc.IH [of s' f] rd_progress [OF that] Suc.prems f by simp
    with False f show ?thesis by (auto split: option.splits prod.splits)
  qed
qed

end

text \<open>
  An encoder and a reader that belong together: what the encoder writes for a valid value, the
  reader reads back, and it leaves the bytes that follow.
\<close>

locale codec = byte_reader rd for rd :: "'a reader" +
  fixes enc :: "'a \<Rightarrow> bytes"
    and valid :: "'a \<Rightarrow> bool"
  assumes rd_enc: "valid x \<Longrightarrow> rd (enc x @ rest) = (Some x, rest)"
begin

lemma enc_nonempty: "valid x \<Longrightarrow> enc x \<noteq> []"
proof
  assume "valid x" "enc x = []"
  then have "rd [] = (Some x, [])"
    using rd_enc [of x "[]"] by simp
  then show False
    using rd_progress by fastforce
qed

lemma enc_prefix_free:
  assumes "valid x" "valid y" "enc x @ r = enc y @ t"
  shows "x = y \<and> r = t"
proof -
  have "(Some x, r) = rd (enc x @ r)"
    by (rule rd_enc [OF assms(1), symmetric])
  also have "\<dots> = rd (enc y @ t)"
    by (simp only: assms(3))
  also have "\<dots> = (Some y, t)"
    by (rule rd_enc [OF assms(2)])
  finally show ?thesis by simp
qed

lemma enc_inject: "valid x \<Longrightarrow> valid y \<Longrightarrow> enc x = enc y \<longleftrightarrow> x = y"
  using enc_prefix_free [of x y "[]" "[]"] by auto

text \<open>No encoding is a proper prefix of another.\<close>

lemma enc_not_prefix: "valid x \<Longrightarrow> valid y \<Longrightarrow> prefix (enc x) (enc y) \<Longrightarrow> x = y"
  using enc_prefix_free [of y x "[]"] by (auto simp: prefix_def)

lemma read_all_enc:
  "\<forall>x\<in>set xs. valid x \<Longrightarrow> length (concat (map enc xs)) \<le> fuel \<Longrightarrow>
   read_all rd fuel (concat (map enc xs)) = Some xs"
proof (induction xs arbitrary: fuel)
  case Nil
  then show ?case by (cases fuel) auto
next
  case (Cons x xs)
  then have x: "enc x \<noteq> []" "rd (enc x @ concat (map enc xs)) = (Some x, concat (map enc xs))"
    using enc_nonempty rd_enc by auto
  with Cons.prems obtain f where f: "fuel = Suc f" "length (concat (map enc xs)) \<le> f"
    by (cases fuel; cases "enc x") auto
  with Cons x show ?case by auto
qed

end

text \<open>
  A codec whose reader accepts nothing but encodings of valid values, so that the encoding of a
  value is unique.
\<close>

locale canonical_codec = codec +
  assumes rd_canonical: "rd s = (Some x, s') \<Longrightarrow> valid x \<and> s = enc x @ s'"
begin

lemma rd_iff: "rd s = (Some x, s') \<longleftrightarrow> valid x \<and> s = enc x @ s'"
  using rd_canonical rd_enc by blast

lemma read_all_canonical:
  "read_all rd fuel s = Some xs \<Longrightarrow> s = concat (map enc xs) \<and> (\<forall>x\<in>set xs. valid x)"
proof (induction fuel arbitrary: s xs)
  case 0
  then show ?case by (auto split: if_splits)
next
  case (Suc fuel)
  then show ?case
    by (fastforce simp: rd_iff split: if_splits option.splits prod.splits)
qed

lemma read_all_iff:
  "read_all rd (length s) s = Some xs \<longleftrightarrow> s = concat (map enc xs) \<and> (\<forall>x\<in>set xs. valid x)"
  using read_all_canonical read_all_enc by blast

end

end
