(* ===== verification/Constant_Time.thy ===== *)
theory Constant_Time
  imports Prelude
begin

text \<open>
  The branch-free comparison and selection primitives of \<open>crypto/internal.h\<close>, on which
  \<open>base64.c\<close> rests. \<open>crypto_word_t\<close> has 64 bits on the client's platforms. The value barrier
  of \<open>constant_time_select_w\<close> is the identity on values (it only hides them from the compiler).
  The lemmas show that each primitive returns the all-ones or all-zeros mask its comment promises.
\<close>

section \<open>Definitions\<close>

type_synonym crypto_word = "64 word"

definition constant_time_msb_w :: "crypto_word \<Rightarrow> crypto_word" where
  "constant_time_msb_w a = 0 - drop_bit 63 a"

definition constant_time_lt_w :: "crypto_word \<Rightarrow> crypto_word \<Rightarrow> crypto_word" where
  "constant_time_lt_w a b = constant_time_msb_w (a XOR ((a XOR b) OR ((a - b) XOR a)))"

definition constant_time_lt_8 :: "crypto_word \<Rightarrow> crypto_word \<Rightarrow> byte" where
  "constant_time_lt_8 a b = ucast (constant_time_lt_w a b)"

definition constant_time_ge_w :: "crypto_word \<Rightarrow> crypto_word \<Rightarrow> crypto_word" where
  "constant_time_ge_w a b = NOT (constant_time_lt_w a b)"

definition constant_time_ge_8 :: "crypto_word \<Rightarrow> crypto_word \<Rightarrow> byte" where
  "constant_time_ge_8 a b = ucast (constant_time_ge_w a b)"

definition constant_time_is_zero_w :: "crypto_word \<Rightarrow> crypto_word" where
  "constant_time_is_zero_w a = constant_time_msb_w (NOT a AND (a - 1))"

definition constant_time_is_zero_8 :: "crypto_word \<Rightarrow> byte" where
  "constant_time_is_zero_8 a = ucast (constant_time_is_zero_w a)"

definition constant_time_eq_w :: "crypto_word \<Rightarrow> crypto_word \<Rightarrow> crypto_word" where
  "constant_time_eq_w a b = constant_time_is_zero_w (a XOR b)"

definition constant_time_eq_8 :: "crypto_word \<Rightarrow> crypto_word \<Rightarrow> byte" where
  "constant_time_eq_8 a b = ucast (constant_time_eq_w a b)"

definition constant_time_eq_int :: "32 word \<Rightarrow> 32 word \<Rightarrow> crypto_word" where
  \<comment> \<open>the conversion of an \<open>int\<close> to \<open>crypto_word_t\<close> sign-extends\<close>
  "constant_time_eq_int a b = constant_time_eq_w (scast a) (scast b)"

definition constant_time_eq_int_8 :: "32 word \<Rightarrow> 32 word \<Rightarrow> byte" where
  "constant_time_eq_int_8 a b = constant_time_eq_8 (scast a) (scast b)"

definition constant_time_select_w :: "crypto_word \<Rightarrow> crypto_word \<Rightarrow> crypto_word \<Rightarrow> crypto_word" where
  "constant_time_select_w msk a b = (msk AND a) OR (NOT msk AND b)"

definition constant_time_select_8 :: "crypto_word \<Rightarrow> byte \<Rightarrow> byte \<Rightarrow> byte" where
  "constant_time_select_8 msk a b =
     (let m = (ucast msk :: byte) in (m AND a) OR (NOT m AND b))"

definition constant_time_select_int :: "crypto_word \<Rightarrow> 32 word \<Rightarrow> 32 word \<Rightarrow> 32 word" where
  "constant_time_select_int msk a b = ucast (constant_time_select_w msk (scast a) (scast b))"

section \<open>The top bit\<close>

lemma bit_63_iff: "bit (w :: 64 word) 63 \<longleftrightarrow> 2 ^ 63 \<le> unat w"
proof -
  have lt: "unat w < 2 ^ 64"
    using unsigned_less [of w, where ?'a = nat] by simp
  have "bit w 63 \<longleftrightarrow> bit (unat w) 63"
    by (simp add: bit_unsigned_iff)
  also have "\<dots> \<longleftrightarrow> odd (unat w div 2 ^ 63)"
    by (simp add: bit_iff_odd)
  also have "\<dots> \<longleftrightarrow> 2 ^ 63 \<le> unat w"
  proof (cases "2 ^ 63 \<le> unat w")
    case True
    with lt have "unat w div 2 ^ 63 = 1" by (intro div_nat_eqI) simp_all
    with True show ?thesis by simp
  qed simp
  finally show ?thesis .
qed

lemma drop_bit_63: "drop_bit 63 (w :: 64 word) = (if bit w 63 then 1 else 0)"
proof (rule bit_eqI)
  fix n
  have "bit w (63 + n) \<Longrightarrow> n = 0"
    using bit_imp_le_length [of w "63 + n"] by simp
  then show "bit (drop_bit 63 w) n \<longleftrightarrow> bit (if bit w 63 then 1 else 0 :: 64 word) n"
    by (auto simp: bit_simps)
qed

lemma constant_time_msb_w_eq: "constant_time_msb_w a = (if bit a 63 then - 1 else 0)"
  by (simp add: constant_time_msb_w_def drop_bit_63)

section \<open>What the primitives return\<close>

lemma unat_sub_64:
  "unat (a - b :: 64 word) = (if unat b \<le> unat a then unat a - unat b else 2 ^ 64 + unat a - unat b)"
proof (cases "unat b \<le> unat a")
  case True
  then show ?thesis by (simp add: unat_sub word_le_nat_alt)
next
  case False
  then have "unat (a - b) = unat a + 2 ^ 64 - unat b"
    using unat_sub_if' [of a b] by (simp add: word_le_nat_alt)
  with False show ?thesis by (simp add: add.commute)
qed

lemma constant_time_lt_w_eq: "constant_time_lt_w a b = (if a < b then - 1 else 0)"
proof -
  have ub: "unat a < 2 ^ 64" "unat b < 2 ^ 64"
    using unsigned_less [of a, where ?'a = nat] unsigned_less [of b, where ?'a = nat] by simp_all
  have "bit (a XOR ((a XOR b) OR ((a - b) XOR a))) 63 \<longleftrightarrow> a < b"
  proof (cases "bit a 63 \<longleftrightarrow> bit b 63")
    case True
    have "bit (a - b) 63 \<longleftrightarrow> a < b"
      using True ub unfolding bit_63_iff unat_sub_64 word_less_nat_alt by auto
    with True show ?thesis by (auto simp: bit_simps)
  next
    case False
    then have "bit (a XOR ((a XOR b) OR ((a - b) XOR a))) 63 \<longleftrightarrow> bit b 63"
      by (simp add: bit_simps)
    also have "\<dots> \<longleftrightarrow> a < b"
      using False ub unfolding bit_63_iff word_less_nat_alt by linarith
    finally show ?thesis .
  qed
  then show ?thesis
    by (simp add: constant_time_lt_w_def constant_time_msb_w_eq)
qed

lemma constant_time_ge_w_eq: "constant_time_ge_w a b = (if b \<le> a then - 1 else 0)"
  by (auto simp: constant_time_ge_w_def constant_time_lt_w_eq)

lemma constant_time_is_zero_w_eq: "constant_time_is_zero_w a = (if a = 0 then - 1 else 0)"
proof (cases "a = 0")
  case True
  then show ?thesis by (simp add: constant_time_is_zero_w_def constant_time_msb_w_eq)
next
  case False
  then have "unat (a - 1) = unat a - 1"
    by (simp add: unat_minus_one)
  then have "bit (a - 1) 63 \<Longrightarrow> bit a 63"
    unfolding bit_63_iff by linarith
  then have "\<not> bit (NOT a AND (a - 1)) 63"
    by (auto simp: bit_simps)
  with False show ?thesis
    by (simp add: constant_time_is_zero_w_def constant_time_msb_w_eq)
qed

lemma constant_time_eq_w_eq: "constant_time_eq_w a b = (if a = b then - 1 else 0)"
  by (simp add: constant_time_eq_w_def constant_time_is_zero_w_eq xor_eq_0_iff_word)

lemma ucast_minus_one_byte [simp]: "(ucast (- 1 :: crypto_word) :: byte) = - 1"
  by (simp add: unsigned_minus_1_eq_mask mask_eq_exp_minus_1)

lemma constant_time_lt_8_eq: "constant_time_lt_8 a b = (if a < b then - 1 else 0)"
  by (simp add: constant_time_lt_8_def constant_time_lt_w_eq)

lemma constant_time_ge_8_eq: "constant_time_ge_8 a b = (if b \<le> a then - 1 else 0)"
  by (simp add: constant_time_ge_8_def constant_time_ge_w_eq)

lemma constant_time_is_zero_8_eq: "constant_time_is_zero_8 a = (if a = 0 then - 1 else 0)"
  by (simp add: constant_time_is_zero_8_def constant_time_is_zero_w_eq)

lemma constant_time_eq_8_eq: "constant_time_eq_8 a b = (if a = b then - 1 else 0)"
  by (simp add: constant_time_eq_8_def constant_time_eq_w_eq)

lemma scast_32_64_inject: "(scast (a :: 32 word) :: 64 word) = scast b \<longleftrightarrow> a = b"
proof
  assume "(scast a :: 64 word) = scast b"
  then have "sint (scast a :: 64 word) = sint (scast b :: 64 word)"
    by simp
  then show "a = b"
    by (simp add: sint_up_scast is_up signed_word_eqI)
qed simp

lemma constant_time_eq_int_eq: "constant_time_eq_int a b = (if a = b then - 1 else 0)"
  by (simp add: constant_time_eq_int_def constant_time_eq_w_eq scast_32_64_inject)

lemma constant_time_select_w_eq [simp]:
  "constant_time_select_w (- 1) a b = a"
  "constant_time_select_w 0 a b = b"
  by (simp_all add: constant_time_select_w_def)

lemma constant_time_select_8_eq [simp]:
  "constant_time_select_8 (- 1) a b = a"
  "constant_time_select_8 0 a b = b"
  by (simp_all add: constant_time_select_8_def)

lemmas constant_time_eqs =
  constant_time_lt_w_eq constant_time_ge_w_eq constant_time_is_zero_w_eq constant_time_eq_w_eq
  constant_time_lt_8_eq constant_time_ge_8_eq constant_time_is_zero_8_eq constant_time_eq_8_eq

end
