(* ===== verification/Mem.thy ===== *)
theory Mem
  imports Prelude
begin

text \<open>
  \<open>crypto/mem.c\<close>: the allocation wrappers and the string and memory helpers that the other
  components call.

  A memory block is the list of its bytes. The C library's \<open>malloc\<close> is a parameter, the record
  \<open>allocator\<close>: whether a request of a given size succeeds, and the bytes the new block holds, on
  which nothing may depend. On Apple platforms the hooks \<open>OPENSSL_memory_alloc\<close>,
  \<open>OPENSSL_memory_free\<close> and \<open>OPENSSL_memory_get_size\<close> are null pointers and
  \<open>should_fail_allocation\<close> is 0, so those branches are dead. \<open>OPENSSL_free\<close> returns nothing and
  has no counterpart.

  A C string is the memory from its pointer on, read up to the first zero byte. Reading past the
  end of the list would be reading outside the object, which is undefined in C; the equations that
  cover it are there for totality only and every lemma assumes a terminated string.
\<close>

section \<open>Allocation\<close>

record allocator =
  malloc_ok :: "nat \<Rightarrow> bool"
  junk :: "nat \<Rightarrow> byte"

definition OPENSSL_MALLOC_PREFIX :: nat where
  "OPENSSL_MALLOC_PREFIX = 8"

definition OPENSSL_malloc :: "allocator \<Rightarrow> nat \<Rightarrow> bytes option" where
  "OPENSSL_malloc al sz =
     (if size_add sz OPENSSL_MALLOC_PREFIX < sz then None
      else if \<not> malloc_ok al (sz + OPENSSL_MALLOC_PREFIX) then None
      else Some (map (junk al) [0..<sz]))"

definition OPENSSL_zalloc :: "allocator \<Rightarrow> nat \<Rightarrow> bytes option" where
  "OPENSSL_zalloc al sz =
     (case OPENSSL_malloc al sz of None \<Rightarrow> None | Some ret \<Rightarrow> Some (replicate sz 0))"

definition OPENSSL_calloc :: "allocator \<Rightarrow> nat \<Rightarrow> nat \<Rightarrow> bytes option" where
  "OPENSSL_calloc al num sz =
     (if sz \<noteq> 0 \<and> num > (SIZE_MOD - 1) div sz then None
      else OPENSSL_zalloc al (num * sz))"

text \<open>\<open>None\<close> as the old block is the null pointer.\<close>

definition OPENSSL_realloc :: "allocator \<Rightarrow> bytes option \<Rightarrow> nat \<Rightarrow> bytes option" where
  "OPENSSL_realloc al orig new_size =
     (case orig of
        None \<Rightarrow> OPENSSL_malloc al new_size
      | Some old \<Rightarrow>
          (case OPENSSL_malloc al new_size of
             None \<Rightarrow> None
           | Some ret \<Rightarrow>
               let to_copy = (if length old < new_size then length old else new_size)
               in Some (take to_copy old @ drop to_copy ret)))"

definition OPENSSL_memdup :: "allocator \<Rightarrow> bytes \<Rightarrow> nat \<Rightarrow> bytes option" where
  "OPENSSL_memdup al data sz =
     (if sz = 0 then None
      else case OPENSSL_malloc al sz of None \<Rightarrow> None | Some ret \<Rightarrow> Some (take sz data))"

section \<open>Comparison and hashing of memory\<close>

text \<open>The loop \<open>x |= a[i] ^ b[i]\<close> over the first \<open>len\<close> bytes.\<close>

definition CRYPTO_memcmp :: "bytes \<Rightarrow> bytes \<Rightarrow> nat \<Rightarrow> byte" where
  "CRYPTO_memcmp a b len = foldl (\<lambda>x i. x OR (a ! i XOR b ! i)) 0 [0..<len]"

definition OPENSSL_hash32 :: "bytes \<Rightarrow> nat \<Rightarrow> u32" where
  "OPENSSL_hash32 ptr len =
     foldl (\<lambda>h i. (h XOR ucast (ptr ! i)) * 16777619) 2166136261 [0..<len]"

definition OPENSSL_memchr :: "bytes \<Rightarrow> byte \<Rightarrow> nat \<Rightarrow> nat option" where
  \<comment> \<open>the index of the first occurrence instead of a pointer to it\<close>
  "OPENSSL_memchr s c n =
     (if n = 0 then None
      else let p = takeWhile (\<lambda>x. x \<noteq> c) (take n s)
           in if length p < length (take n s) then Some (length p) else None)"

section \<open>Character classes\<close>

definition OPENSSL_isalpha :: "int \<Rightarrow> bool" where
  "OPENSSL_isalpha c \<longleftrightarrow> (97 \<le> c \<and> c \<le> 122) \<or> (65 \<le> c \<and> c \<le> 90)"

definition OPENSSL_isdigit :: "int \<Rightarrow> bool" where
  "OPENSSL_isdigit c \<longleftrightarrow> 48 \<le> c \<and> c \<le> 57"

definition OPENSSL_isxdigit :: "int \<Rightarrow> bool" where
  "OPENSSL_isxdigit c \<longleftrightarrow> OPENSSL_isdigit c \<or> (97 \<le> c \<and> c \<le> 102) \<or> (65 \<le> c \<and> c \<le> 70)"

definition OPENSSL_fromxdigit :: "int \<Rightarrow> byte option" where
  "OPENSSL_fromxdigit c =
     (if OPENSSL_isdigit c then Some (word_of_int (c - 48))
      else if 97 \<le> c \<and> c \<le> 102 then Some (word_of_int (c - 97 + 10))
      else if 65 \<le> c \<and> c \<le> 70 then Some (word_of_int (c - 65 + 10))
      else None)"

definition OPENSSL_isalnum :: "int \<Rightarrow> bool" where
  "OPENSSL_isalnum c \<longleftrightarrow> OPENSSL_isalpha c \<or> OPENSSL_isdigit c"

definition OPENSSL_tolower :: "int \<Rightarrow> int" where
  "OPENSSL_tolower c = (if 65 \<le> c \<and> c \<le> 90 then c + (97 - 65) else c)"

definition OPENSSL_isspace :: "int \<Rightarrow> bool" where
  "OPENSSL_isspace c \<longleftrightarrow> c = 9 \<or> c = 10 \<or> c = 11 \<or> c = 12 \<or> c = 13 \<or> c = 32"

section \<open>C strings\<close>

definition c_string :: "bytes \<Rightarrow> bool" where
  "c_string s \<longleftrightarrow> 0 \<in> set s"

definition cstr :: "bytes \<Rightarrow> bytes" where
  "cstr s = takeWhile (\<lambda>c. c \<noteq> 0) s"

definition strlen :: "bytes \<Rightarrow> nat" where
  "strlen s = length (cstr s)"

definition OPENSSL_strhash :: "bytes \<Rightarrow> u32" where
  "OPENSSL_strhash s = OPENSSL_hash32 s (strlen s)"

fun OPENSSL_strnlen :: "bytes \<Rightarrow> nat \<Rightarrow> nat" where
  "OPENSSL_strnlen s 0 = 0"
| "OPENSSL_strnlen [] (Suc len) = 0"
| "OPENSSL_strnlen (c # s) (Suc len) = (if c = 0 then 0 else Suc (OPENSSL_strnlen s len))"

definition OPENSSL_strdup :: "allocator \<Rightarrow> bytes option \<Rightarrow> bytes option" where
  "OPENSSL_strdup al str =
     (case str of
        None \<Rightarrow> None
      | Some s \<Rightarrow>
          let len = strlen s + 1 in
          case OPENSSL_malloc al len of None \<Rightarrow> None | Some ret \<Rightarrow> Some (take len s))"

definition OPENSSL_strndup :: "allocator \<Rightarrow> bytes \<Rightarrow> nat \<Rightarrow> bytes option" where
  "OPENSSL_strndup al str sz =
     (let sz = OPENSSL_strnlen str sz;
          alloc_size = size_add sz 1
      in if alloc_size < sz then None
         else case OPENSSL_malloc al alloc_size of
                None \<Rightarrow> None
              | Some ret \<Rightarrow> Some (take sz str @ [0]))"

text \<open>Plain \<open>char\<close> is signed on the client's platforms: \<open>sint\<close> converts it to \<open>int\<close>.\<close>

fun OPENSSL_strcasecmp :: "bytes \<Rightarrow> bytes \<Rightarrow> int" where
  "OPENSSL_strcasecmp (a # as) (b # bs) =
     (let aa = OPENSSL_tolower (sint a); bb = OPENSSL_tolower (sint b) in
      if aa < bb then - 1
      else if aa > bb then 1
      else if aa = 0 then 0
      else OPENSSL_strcasecmp as bs)"
| "OPENSSL_strcasecmp as bs = 0"

fun OPENSSL_strncasecmp :: "bytes \<Rightarrow> bytes \<Rightarrow> nat \<Rightarrow> int" where
  "OPENSSL_strncasecmp as bs 0 = 0"
| "OPENSSL_strncasecmp (a # as) (b # bs) (Suc n) =
     (let aa = OPENSSL_tolower (sint a); bb = OPENSSL_tolower (sint b) in
      if aa < bb then - 1
      else if aa > bb then 1
      else if aa = 0 then 0
      else OPENSSL_strncasecmp as bs n)"
| "OPENSSL_strncasecmp as bs (Suc n) = 0"

text \<open>
  \<open>OPENSSL_strlcpy\<close>: the copy loop works on what is left of the destination and the source and
  counts the bytes it wrote; the result is the destination block and the return value.
\<close>

fun strlcpy_loop :: "bytes \<Rightarrow> bytes \<Rightarrow> nat \<Rightarrow> nat \<Rightarrow> bytes \<times> nat" where
  "strlcpy_loop dst [] dst_size l = ((if dst_size \<noteq> 0 then dst[0 := 0] else dst), l)"
| "strlcpy_loop dst (c # src) dst_size l =
     (if dst_size > 1 \<and> c \<noteq> 0
      then (let (dst', r) = strlcpy_loop (tl dst) src (dst_size - 1) (l + 1) in (c # dst', r))
      else ((if dst_size \<noteq> 0 then dst[0 := 0] else dst), l + strlen (c # src)))"

definition OPENSSL_strlcpy :: "bytes \<Rightarrow> bytes \<Rightarrow> nat \<Rightarrow> bytes \<times> nat" where
  "OPENSSL_strlcpy dst src dst_size = strlcpy_loop dst src dst_size 0"

fun strlcat_loop :: "bytes \<Rightarrow> bytes \<Rightarrow> nat \<Rightarrow> nat \<Rightarrow> bytes \<times> nat" where
  "strlcat_loop [] src dst_size l = ([], l + snd (OPENSSL_strlcpy [] src dst_size))"
| "strlcat_loop (d # dst) src dst_size l =
     (if dst_size > 0 \<and> d \<noteq> 0
      then (let (dst', r) = strlcat_loop dst src (dst_size - 1) (l + 1) in (d # dst', r))
      else (let (dst', r) = OPENSSL_strlcpy (d # dst) src dst_size in (dst', l + r)))"

definition OPENSSL_strlcat :: "bytes \<Rightarrow> bytes \<Rightarrow> nat \<Rightarrow> bytes \<times> nat" where
  "OPENSSL_strlcat dst src dst_size = strlcat_loop dst src dst_size 0"

section \<open>Facts about allocation\<close>

lemma OPENSSL_malloc_length: "OPENSSL_malloc al sz = Some p \<Longrightarrow> length p = sz"
  by (auto simp: OPENSSL_malloc_def split: if_splits)

lemma OPENSSL_malloc_bound:
  "OPENSSL_malloc al sz = Some p \<Longrightarrow> sz < SIZE_MOD \<Longrightarrow> sz + OPENSSL_MALLOC_PREFIX < SIZE_MOD"
  using size_add_overflow [of sz OPENSSL_MALLOC_PREFIX]
  by (auto simp: OPENSSL_malloc_def OPENSSL_MALLOC_PREFIX_def SIZE_MOD_def split: if_splits)

lemma OPENSSL_zalloc_Some: "OPENSSL_zalloc al sz = Some p \<Longrightarrow> p = replicate sz 0"
  by (auto simp: OPENSSL_zalloc_def split: option.splits)

text \<open>Reallocating keeps the bytes that fit and never fails halfway.\<close>

lemma OPENSSL_realloc_Some:
  assumes "OPENSSL_realloc al (Some old) n = Some p"
  shows "length p = n" and "take (length old) p = take n old"
  using assms OPENSSL_malloc_length [of al n]
  by (auto simp: OPENSSL_realloc_def Let_def min_def split: option.splits if_splits)

lemma OPENSSL_realloc_grow:
  assumes "OPENSSL_realloc al (Some old) n = Some p" "length old \<le> n"
  shows "\<exists>tl. p = old @ tl \<and> length tl = n - length old"
proof -
  have "take (length old) p = old" "length p = n"
    using OPENSSL_realloc_Some [OF assms(1)] assms(2) by simp_all
  then have "p = old @ drop (length old) p"
    by (metis append_take_drop_id)
  with \<open>length p = n\<close> show ?thesis
    by (intro exI [of _ "drop (length old) p"]) simp
qed

section \<open>Facts about comparison\<close>

lemma CRYPTO_memcmp_fold:
  "foldl (\<lambda>x i. x OR (a ! i XOR b ! i)) x is = 0 \<longleftrightarrow> x = (0 :: byte) \<and> (\<forall>i\<in>set is. a ! i = b ! i)"
proof (induction "is" arbitrary: x)
  case (Cons i "is")
  then show ?case by (auto simp: or_eq_0_iff_word xor_eq_0_iff_word)
qed simp

lemma CRYPTO_memcmp_zero_iff:
  assumes "len \<le> length a" "len \<le> length b"
  shows "CRYPTO_memcmp a b len = 0 \<longleftrightarrow> take len a = take len b"
proof -
  have "CRYPTO_memcmp a b len = 0 \<longleftrightarrow> (\<forall>i<len. a ! i = b ! i)"
    by (auto simp: CRYPTO_memcmp_def CRYPTO_memcmp_fold)
  also have "\<dots> \<longleftrightarrow> take len a = take len b"
    using assms by (simp add: list_eq_iff_nth_eq)
  finally show ?thesis .
qed

lemma OPENSSL_memchr_Some:
  assumes "OPENSSL_memchr s c n = Some i"
  shows "i < n \<and> i < length s \<and> s ! i = c \<and> (\<forall>j<i. s ! j \<noteq> c)"
proof -
  let ?p = "takeWhile (\<lambda>x. x \<noteq> c) (take n s)"
  from assms have i: "i = length ?p" "length ?p < length (take n s)"
    by (auto simp: OPENSSL_memchr_def Let_def split: if_splits)
  then have "\<not> (take n s ! i \<noteq> c)"
    using nth_length_takeWhile [of "\<lambda>x. x \<noteq> c" "take n s"] by auto
  moreover have "take n s ! j \<noteq> c" if "j < i" for j
    using that i nth_mem [of j ?p] takeWhile_nth [of j "\<lambda>x. x \<noteq> c" "take n s"]
    by (metis (mono_tags, lifting) set_takeWhileD)
  ultimately show ?thesis using i by (auto simp: nth_take)
qed

lemma OPENSSL_memchr_None: "OPENSSL_memchr s c n = None \<longleftrightarrow> c \<notin> set (take n s)"
proof -
  have "length (takeWhile (\<lambda>x. x \<noteq> c) xs) < length xs \<longleftrightarrow> c \<in> set xs" for xs :: bytes
    by (induction xs) auto
  from this [of "take n s"] show ?thesis
    by (simp add: OPENSSL_memchr_def Let_def split del: if_split) simp
qed

section \<open>Facts about strings\<close>

lemma strlen_Cons [simp]: "strlen (c # s) = (if c = 0 then 0 else Suc (strlen s))"
  by (simp add: strlen_def cstr_def)

lemma strlen_less: "c_string s \<Longrightarrow> strlen s < length s"
  by (induction s) (auto simp: c_string_def)

lemma OPENSSL_strnlen_min: "c_string s \<or> n \<le> length s \<Longrightarrow> OPENSSL_strnlen s n = min n (strlen s)"
  by (induction s n rule: OPENSSL_strnlen.induct) (auto simp: c_string_def strlen_def cstr_def)

lemma strlcpy_loop_result:
  "c_string src \<Longrightarrow> snd (strlcpy_loop dst src dst_size l) = l + strlen src"
  by (induction dst src dst_size l rule: strlcpy_loop.induct)
    (auto simp: c_string_def split: prod.splits)

lemma strlcpy_loop_length:
  "dst_size \<le> length dst \<Longrightarrow> length (fst (strlcpy_loop dst src dst_size l)) = length dst"
  by (induction dst src dst_size l rule: strlcpy_loop.induct) (auto split: prod.splits)

lemma strlcpy_loop_prefix:
  "c_string src \<Longrightarrow> 0 < dst_size \<Longrightarrow> dst_size \<le> length dst \<Longrightarrow>
   prefix (take (dst_size - 1) (cstr src) @ [0]) (fst (strlcpy_loop dst src dst_size l))"
proof (induction dst src dst_size l rule: strlcpy_loop.induct)
  case (1 dst dst_size l)
  then show ?case by (simp add: c_string_def)
next
  case (2 dst c src dst_size l)
  show ?case
  proof (cases "dst_size > 1 \<and> c \<noteq> 0")
    case True
    then obtain k where k: "dst_size = Suc (Suc k)"
      by (auto dest: less_imp_Suc_add)
    have "c_string src" "Suc k \<le> length (tl dst)"
      using "2.prems" True k by (simp_all add: c_string_def)
    then have "prefix (take k (cstr src) @ [0]) (fst (strlcpy_loop (tl dst) src (Suc k) (l + 1)))"
      using "2.IH" [OF True] k by simp
    moreover obtain dst' r where "strlcpy_loop (tl dst) src (Suc k) (l + 1) = (dst', r)"
      by (cases "strlcpy_loop (tl dst) src (Suc k) (l + 1)")
    ultimately show ?thesis using True k by (simp add: cstr_def)
  next
    case False
    with 2 show ?thesis by (cases dst; cases dst_size) (auto simp: cstr_def)
  qed
qed

lemma OPENSSL_fromxdigit_isxdigit: "OPENSSL_fromxdigit c \<noteq> None \<longleftrightarrow> OPENSSL_isxdigit c"
  by (auto simp: OPENSSL_fromxdigit_def OPENSSL_isxdigit_def)

section \<open>Writing to a block\<close>

text \<open>\<open>memcpy(buf + off, data, n)\<close> and \<open>memmove(buf + dst, buf + src, n)\<close> inside one block.\<close>

definition buf_write :: "bytes \<Rightarrow> nat \<Rightarrow> bytes \<Rightarrow> bytes" where
  "buf_write buf off data = take off buf @ data @ drop (off + length data) buf"

definition OPENSSL_memmove :: "bytes \<Rightarrow> nat \<Rightarrow> nat \<Rightarrow> nat \<Rightarrow> bytes" where
  "OPENSSL_memmove buf dst src n = buf_write buf dst (take n (drop src buf))"

lemma buf_write_at: "length p = off \<Longrightarrow> length q = length data \<Longrightarrow> buf_write (p @ q @ r) off data = p @ data @ r"
  by (simp add: buf_write_def)

lemma length_buf_write [simp]:
  "off + length data \<le> length buf \<Longrightarrow> length (buf_write buf off data) = length buf"
  by (simp add: buf_write_def)

lemma take_buf_write:
  "off + length data \<le> length buf \<Longrightarrow> take (off + length data) (buf_write buf off data) = take off buf @ data"
  by (simp add: buf_write_def)

end
