(* ===== verification/Cbs.thy ===== *)
theory Cbs
  imports Mem
begin

text \<open>
  \<open>crypto/bytestring/cbs.c\<close>, first half: the byte-string reader \<open>CBS\<close> and its fixed-width,
  length-prefixed and decimal reads.

  A \<open>CBS\<close> is a pointer and a length into memory the caller owns and the reader never writes, so
  it is the list of the bytes of the span; \<open>CBS_len\<close> is the length of the list. Every operation
  that changes the \<open>CBS\<close> returns it in the state the code leaves it in, on failure too (see
  \<open>chk\<close> in theory \<open>Prelude\<close>). An out parameter of a call that fails is not part of the
  result: no function of these files reads one.
\<close>

section \<open>Byte order\<close>

definition CRYPTO_bswap2 :: "u16 \<Rightarrow> u16" where
  "CRYPTO_bswap2 x = drop_bit 8 x OR push_bit 8 x"

definition CRYPTO_bswap4 :: "u32 \<Rightarrow> u32" where
  "CRYPTO_bswap4 x =
     (let x = drop_bit 16 x OR push_bit 16 x
      in drop_bit 8 (x AND 0xff00ff00) OR push_bit 8 (x AND 0x00ff00ff))"

definition CRYPTO_bswap8 :: "u64 \<Rightarrow> u64" where
  "CRYPTO_bswap8 x =
     ucast (CRYPTO_bswap4 (ucast (drop_bit 32 x))) OR push_bit 32 (ucast (CRYPTO_bswap4 (ucast x)))"

section \<open>Spans\<close>

type_synonym CBS = bytes

definition CBS_init :: "bytes \<Rightarrow> nat \<Rightarrow> CBS" where
  "CBS_init data len = take len data"

definition cbs_get :: "CBS \<Rightarrow> nat \<Rightarrow> bytes option \<times> CBS" where
  "cbs_get cbs n = (if length cbs < n then (None, cbs) else (Some (take n cbs), drop n cbs))"

definition CBS_skip :: "CBS \<Rightarrow> nat \<Rightarrow> unit option \<times> CBS" where
  "CBS_skip cbs len = chk (cbs_get cbs len) (\<lambda>dummy cbs. (Some (), cbs))"

definition CBS_data :: "CBS \<Rightarrow> bytes" where
  "CBS_data cbs = cbs"

definition CBS_len :: "CBS \<Rightarrow> nat" where
  "CBS_len cbs = length cbs"

text \<open>\<open>CBS_stow\<close> returns success, \<open>*out_ptr\<close> (\<open>None\<close> for null) and \<open>*out_len\<close>.\<close>

definition CBS_stow :: "allocator \<Rightarrow> CBS \<Rightarrow> bool \<times> bytes option \<times> nat" where
  "CBS_stow al cbs =
     (if CBS_len cbs = 0 then (True, None, 0)
      else case OPENSSL_memdup al (CBS_data cbs) (CBS_len cbs) of
             None \<Rightarrow> (False, None, 0)
           | Some p \<Rightarrow> (True, Some p, CBS_len cbs))"

definition CBS_strdup :: "allocator \<Rightarrow> CBS \<Rightarrow> bytes option" where
  "CBS_strdup al cbs = OPENSSL_strndup al (CBS_data cbs) (CBS_len cbs)"

definition CBS_contains_zero_byte :: "CBS \<Rightarrow> bool" where
  "CBS_contains_zero_byte cbs \<longleftrightarrow> OPENSSL_memchr (CBS_data cbs) 0 (CBS_len cbs) \<noteq> None"

definition CBS_mem_equal :: "CBS \<Rightarrow> bytes \<Rightarrow> nat \<Rightarrow> bool" where
  "CBS_mem_equal cbs data len \<longleftrightarrow>
     (if len \<noteq> CBS_len cbs then False else CRYPTO_memcmp (CBS_data cbs) data len = 0)"

section \<open>Fixed-width integers\<close>

definition cbs_get_u :: "CBS \<Rightarrow> nat \<Rightarrow> u64 option \<times> CBS" where
  "cbs_get_u cbs len = chk (cbs_get cbs len)
     (\<lambda>data cbs. (Some (foldl (\<lambda>result b. push_bit 8 result OR ucast b) 0 data), cbs))"

definition CBS_get_u8 :: "byte reader" where
  "CBS_get_u8 cbs = chk (cbs_get cbs 1) (\<lambda>v cbs. (Some (v ! 0), cbs))"

definition CBS_get_u16 :: "u16 reader" where
  "CBS_get_u16 cbs = chk (cbs_get_u cbs 2) (\<lambda>v cbs. (Some (ucast v), cbs))"

definition CBS_get_u16le :: "u16 reader" where
  "CBS_get_u16le cbs = chk (CBS_get_u16 cbs) (\<lambda>out cbs. (Some (CRYPTO_bswap2 out), cbs))"

definition CBS_get_u24 :: "u32 reader" where
  "CBS_get_u24 cbs = chk (cbs_get_u cbs 3) (\<lambda>v cbs. (Some (ucast v), cbs))"

definition CBS_get_u32 :: "u32 reader" where
  "CBS_get_u32 cbs = chk (cbs_get_u cbs 4) (\<lambda>v cbs. (Some (ucast v), cbs))"

definition CBS_get_u32le :: "u32 reader" where
  "CBS_get_u32le cbs = chk (CBS_get_u32 cbs) (\<lambda>out cbs. (Some (CRYPTO_bswap4 out), cbs))"

definition CBS_get_u64 :: "u64 reader" where
  "CBS_get_u64 cbs = cbs_get_u cbs 8"

definition CBS_get_u64le :: "u64 reader" where
  "CBS_get_u64le cbs = chk (cbs_get_u cbs 8) (\<lambda>out cbs. (Some (CRYPTO_bswap8 out), cbs))"

definition CBS_get_last_u8 :: "CBS \<Rightarrow> byte option \<times> CBS" where
  "CBS_get_last_u8 cbs =
     (if CBS_len cbs = 0 then (None, cbs)
      else (Some (cbs ! (CBS_len cbs - 1)), take (CBS_len cbs - 1) cbs))"

section \<open>Byte strings\<close>

definition CBS_get_bytes :: "CBS \<Rightarrow> nat \<Rightarrow> CBS option \<times> CBS" where
  "CBS_get_bytes cbs len = chk (cbs_get cbs len) (\<lambda>v cbs. (Some (CBS_init v len), cbs))"

text \<open>\<open>CBS_copy_bytes\<close> returns the bytes it writes to \<open>out\<close>.\<close>

definition CBS_copy_bytes :: "CBS \<Rightarrow> nat \<Rightarrow> bytes option \<times> CBS" where
  "CBS_copy_bytes cbs len = chk (cbs_get cbs len) (\<lambda>v cbs. (Some (take len v), cbs))"

definition cbs_get_length_prefixed :: "CBS \<Rightarrow> nat \<Rightarrow> CBS option \<times> CBS" where
  "cbs_get_length_prefixed cbs len_len =
     chk (cbs_get_u cbs len_len) (\<lambda>len cbs. CBS_get_bytes cbs (unat len))"

definition CBS_get_u8_length_prefixed :: "CBS reader" where
  "CBS_get_u8_length_prefixed cbs = cbs_get_length_prefixed cbs 1"

definition CBS_get_u16_length_prefixed :: "CBS reader" where
  "CBS_get_u16_length_prefixed cbs = cbs_get_length_prefixed cbs 2"

definition CBS_get_u24_length_prefixed :: "CBS reader" where
  "CBS_get_u24_length_prefixed cbs = cbs_get_length_prefixed cbs 3"

definition CBS_get_until_first :: "CBS \<Rightarrow> byte \<Rightarrow> CBS option \<times> CBS" where
  "CBS_get_until_first cbs c =
     (case OPENSSL_memchr (CBS_data cbs) c (CBS_len cbs) of
        None \<Rightarrow> (None, cbs)
      | Some split \<Rightarrow> CBS_get_bytes cbs split)"

section \<open>Decimal and base-128 integers\<close>

text \<open>\<open>2 ^ 64 - 1\<close> is \<open>UINT64_MAX\<close>; the arithmetic is that of \<open>uint64_t\<close>.\<close>

fun u64_decimal_loop :: "u64 \<Rightarrow> bool \<Rightarrow> u64 reader" where
  "u64_decimal_loop v seen_digit [] = (if seen_digit then (Some v, []) else (None, []))"
| "u64_decimal_loop v seen_digit (c # cbs) =
     (if \<not> OPENSSL_isdigit (uint c)
      then (if seen_digit then (Some v, c # cbs) else (None, c # cbs))
      else if (v = 0 \<and> seen_digit) \<or> v > (- 1) div 10 \<or> v * 10 > (- 1) - ucast (c - 48)
      then (None, cbs)
      else u64_decimal_loop (v * 10 + ucast (c - 48)) True cbs)"

definition CBS_get_u64_decimal :: "u64 reader" where
  "CBS_get_u64_decimal cbs = u64_decimal_loop 0 False cbs"

fun parse_base128_loop :: "u64 \<Rightarrow> u64 reader" where
  "parse_base128_loop v [] = (None, [])"
| "parse_base128_loop v (b # cbs) =
     (if drop_bit (64 - 7) v \<noteq> 0 then (None, cbs)
      else if v = 0 \<and> b = 0x80 then (None, cbs)
      else let v = push_bit 7 v OR ucast (b AND 0x7f)
           in if b AND 0x80 \<noteq> 0 then parse_base128_loop v cbs else (Some v, cbs))"

definition parse_base128_integer :: "u64 reader" where
  "parse_base128_integer cbs = parse_base128_loop 0 cbs"

lemmas [bytestring_defs] =
  CBS_init_def CBS_skip_def CBS_data_def CBS_len_def CBS_get_u8_def CBS_get_bytes_def

section \<open>How the readers move\<close>

lemma cbs_get_Some: "cbs_get cbs n = (Some p, rest) \<longleftrightarrow> cbs = p @ rest \<and> length p = n"
  by (auto simp: cbs_get_def)

lemma cbs_get_None: "cbs_get cbs n = (None, rest) \<longleftrightarrow> length cbs < n \<and> rest = cbs"
  by (auto simp: cbs_get_def)

lemma cbs_get_append [simp]: "length p = n \<Longrightarrow> cbs_get (p @ rest) n = (Some p, rest)"
  by (simp add: cbs_get_Some)

lemma CBS_skip_eq: "CBS_skip cbs n = (if length cbs < n then (None, cbs) else (Some (), drop n cbs))"
  by (simp add: CBS_skip_def cbs_get_def)

lemma CBS_skip_Some: "CBS_skip cbs n = (Some u, rest) \<longleftrightarrow> n \<le> length cbs \<and> rest = drop n cbs"
  by (auto simp: CBS_skip_def cbs_get_def)

lemma CBS_get_bytes_eq:
  "CBS_get_bytes cbs n = (if length cbs < n then (None, cbs) else (Some (take n cbs), drop n cbs))"
  by (simp add: CBS_get_bytes_def cbs_get_def CBS_init_def)

lemma CBS_get_u8_simps [simp]:
  "CBS_get_u8 [] = (None, [])"
  "CBS_get_u8 (b # cbs) = (Some b, cbs)"
  by (simp_all add: CBS_get_u8_def cbs_get_def)

lemma CBS_get_u8_Some: "CBS_get_u8 cbs = (Some b, rest) \<longleftrightarrow> cbs = b # rest"
  by (cases cbs) auto

lemma CBS_get_u8_None: "CBS_get_u8 cbs = (None, rest) \<longleftrightarrow> cbs = [] \<and> rest = []"
  by (cases cbs) auto

interpretation u8: byte_reader CBS_get_u8
proof
  show "suffix s' s" if "CBS_get_u8 s = (r, s')" for s s' r
    using that by (cases s) (auto simp: suffix_def)
  show "length s' < length s" if "CBS_get_u8 s = (Some x, s')" for s s' x
    using that by (cases s) auto
qed

section \<open>Big-endian values\<close>

lemma unat_u64_less: "unat (v :: u64) < 2 ^ 64"
  using unsigned_less [of v, where ?'a = nat] by simp

text \<open>Appending a byte below a value that has room for it.\<close>

lemma unat_shift8_or:
  fixes v :: u64
  assumes "unat v < 2 ^ 56"
  shows "unat (push_bit 8 v OR ucast (b :: byte)) = unat v * 256 + unat b"
proof -
  have "push_bit 8 v AND ucast b = 0"
    by (rule bit_eqI) (auto simp: bit_simps dest: bit_imp_le_length)
  then have "push_bit 8 v OR ucast b = push_bit 8 v + ucast b"
    by (rule disjunctive_add_eq_or [symmetric])
  moreover have "unat (push_bit 8 v) = unat v * 256"
    using assms by (simp add: push_bit_eq_mult unat_word_ariths)
  moreover have "unat (ucast b :: u64) = unat b"
    by (simp add: unat_ucast_up)
  moreover have "unat v * 256 + unat b < 2 ^ 64"
    using assms unat_byte_less [of b] by (simp del: unat_byte_less)
  ultimately show ?thesis
    by (simp add: unat_word_ariths)
qed

lemma be_fold_unat:
  "length data \<le> 8 \<Longrightarrow>
   unat (foldl (\<lambda>result b. push_bit 8 result OR ucast b) (0 :: u64) data) = be_val data"
proof (induction data rule: rev_induct)
  case Nil
  then show ?case by simp
next
  case (snoc b data)
  have "be_val data < 256 ^ length data"
    by (rule be_val_less)
  also have "\<dots> \<le> 256 ^ 7"
    using snoc.prems by (intro power_increasing) simp_all
  finally have "be_val data < 2 ^ 56"
    by simp
  with snoc show ?case
    by (simp add: unat_shift8_or)
qed

lemma cbs_get_u_eq:
  assumes "len \<le> 8"
  shows "cbs_get_u cbs len =
    (if length cbs < len then (None, cbs)
     else (Some (word_of_nat (be_val (take len cbs))), drop len cbs))"
proof -
  have "foldl (\<lambda>result b. push_bit 8 result OR ucast b) (0 :: u64) p = word_of_nat (be_val p)"
    if "length p \<le> 8" for p
    using be_fold_unat [OF that] by (metis word_of_nat_unat)
  with assms show ?thesis
    by (simp add: cbs_get_u_def cbs_get_def)
qed

section \<open>Fixed-width reads as codecs\<close>

text \<open>
  A reader of \<open>n\<close> bytes in the order \<open>ord\<close> (\<open>id\<close> for big-endian, \<open>rev\<close> for little-endian) into
  a word that has room for them is a canonical codec.
\<close>

definition word_reader :: "(bytes \<Rightarrow> bytes) \<Rightarrow> nat \<Rightarrow> ('a :: len) word reader \<Rightarrow> bool" where
  "word_reader ord n rd \<longleftrightarrow> (\<forall>s. rd s =
     (if length s < n then (None, s)
      else (Some (word_of_nat (be_val (ord (take n s)))), drop n s)))"

lemma word_reader_codec:
  fixes rd :: "('a :: len) word reader"
  assumes rd: "word_reader ord n rd" and n: "0 < n" "256 ^ n \<le> (2 ^ LENGTH('a) :: nat)"
    and ord: "\<And>p. length (ord p) = length p" "\<And>p. ord (ord p) = p"
  shows "canonical_codec rd (\<lambda>v. ord (be_bytes n (unat v))) (\<lambda>v. unat v < 256 ^ n)"
proof
  have eq: "rd s = (if length s < n then (None, s)
      else (Some (word_of_nat (be_val (ord (take n s)))), drop n s))" for s
    using rd by (simp add: word_reader_def)
  have small: "unat (word_of_nat (be_val p) :: 'a word) = be_val p" if "length p = n" for p
    using be_val_less [of p] that n by (intro unat_word_of_nat_small) simp
  show "suffix s' s" if "rd s = (r, s')" for s s' r
    using that by (auto simp: eq suffix_drop split: if_splits)
  show "length s' < length s" if "rd s = (Some x, s')" for s s' x
    using that n by (auto simp: eq split: if_splits)
  show "rd (ord (be_bytes n (unat x)) @ rest) = (Some x, rest)" if "unat x < 256 ^ n" for x rest
    using that by (simp add: eq be_val_be_bytes ord)
  show "unat x < 256 ^ n \<and> s = ord (be_bytes n (unat x)) @ s'" if "rd s = (Some x, s')" for s s' x
  proof -
    from that have x: "x = word_of_nat (be_val (ord (take n s)))" "s' = drop n s" "n \<le> length s"
      by (auto simp: eq split: if_splits)
    then have "unat x = be_val (ord (take n s))"
      using small [of "ord (take n s)"] by (simp add: ord)
    with x show ?thesis
      using be_val_less [of "ord (take n s)"] be_bytes_be_val' [of "ord (take n s)" n] by (simp add: ord)
  qed
qed

lemma word_reader_cbs_get_u:
  assumes "n \<le> 8" "LENGTH('a) \<le> 64" "256 ^ n \<le> (2 ^ LENGTH('a) :: nat)"
  shows "word_reader id n (\<lambda>cbs. chk (cbs_get_u cbs n) (\<lambda>v cbs. (Some (ucast v :: ('a :: len) word), cbs)))"
proof -
  have "(ucast (word_of_nat (be_val p) :: u64) :: 'a word) = word_of_nat (be_val p)"
    if "length p = n" for p
  proof -
    have "be_val p < 2 ^ LENGTH('a)" "be_val p < 2 ^ 64"
      using be_val_less [of p] that assms(3) power_increasing [OF assms(2), of "2 :: nat"] by simp_all
    then show ?thesis
      by (simp add: word_unat_eq_iff unsigned_ucast_eq unat_word_of_nat_small take_bit_nat_eq_self)
  qed
  with assms(1) show ?thesis
    by (simp add: word_reader_def cbs_get_u_eq)
qed

lemma word_reader_u16: "word_reader id 2 CBS_get_u16"
  using word_reader_cbs_get_u [of 2, where ?'a = 16] by (simp add: CBS_get_u16_def [abs_def])

lemma word_reader_u24: "word_reader id 3 CBS_get_u24"
  using word_reader_cbs_get_u [of 3, where ?'a = 32] by (simp add: CBS_get_u24_def [abs_def])

lemma word_reader_u32: "word_reader id 4 CBS_get_u32"
  using word_reader_cbs_get_u [of 4, where ?'a = 32] by (simp add: CBS_get_u32_def [abs_def])

lemma word_reader_u64: "word_reader id 8 CBS_get_u64"
  by (simp add: CBS_get_u64_def [abs_def] word_reader_def cbs_get_u_eq)

lemmas word_readers = word_reader_u16 word_reader_u24 word_reader_u32 word_reader_u64

interpretation u16: canonical_codec CBS_get_u16 "\<lambda>v. id (be_bytes 2 (unat v))" "\<lambda>v. unat v < 256 ^ 2"
  by (rule word_reader_codec [OF word_reader_u16]) simp_all

interpretation u24: canonical_codec CBS_get_u24 "\<lambda>v. id (be_bytes 3 (unat v))" "\<lambda>v. unat v < 256 ^ 3"
  by (rule word_reader_codec [OF word_reader_u24]) simp_all

interpretation u32: canonical_codec CBS_get_u32 "\<lambda>v. id (be_bytes 4 (unat v))" "\<lambda>v. unat v < 256 ^ 4"
  by (rule word_reader_codec [OF word_reader_u32]) simp_all

interpretation u64: canonical_codec CBS_get_u64 "\<lambda>v. id (be_bytes 8 (unat v))" "\<lambda>v. unat v < 256 ^ 8"
  by (rule word_reader_codec [OF word_reader_u64]) simp_all

subsection \<open>Byte swaps and the little-endian reads\<close>

lemma bit_byte_high: "8 \<le> n \<Longrightarrow> \<not> bit (b :: byte) n"
  using bit_imp_le_length [of b n] by auto

lemma bswap2_lit: fixes a b :: byte
  shows "CRYPTO_bswap2 (push_bit 8 (ucast a) OR ucast b) = push_bit 8 (ucast b) OR ucast (a::byte)"
  unfolding CRYPTO_bswap2_def
  by (rule bit_eqI) (auto simp: bit_simps bit_byte_high)

lemma byte_index: "n < 8 * m \<Longrightarrow> \<exists>q k. n = 8 * q + k \<and> k < 8 \<and> q < (m :: nat)"
  by (intro exI [of _ "n div 8"] exI [of _ "n mod 8"]) auto

lemma bit_mask_ff: "bit (0xff00ff00::u32) n \<longleftrightarrow> (8 \<le> n \<and> n < 16) \<or> (24 \<le> n \<and> n < 32)" 
proof -
  have eq: "(0xff00ff00::u32) = push_bit 8 (mask 8) OR push_bit 24 (mask 8)"
    by (simp add: mask_eq_exp_minus_1)
  show ?thesis unfolding eq by (auto simp: bit_simps)
qed
lemma bit_mask_ff': "bit (0x00ff00ff::u32) n \<longleftrightarrow> (n < 8) \<or> (16 \<le> n \<and> n < 24)" 
proof -
  have eq: "(0x00ff00ff::u32) = (mask 8) OR push_bit 16 (mask 8)"
    by (simp add: mask_eq_exp_minus_1)
  show ?thesis unfolding eq by (auto simp: bit_simps)
qed

lemma bit_mask_int: "bit (0xff00ff00::int) n \<longleftrightarrow> (8 \<le> n \<and> n < 16) \<or> (24 \<le> n \<and> n < 32)"
proof -
  have eq: "(0xff00ff00::int) = push_bit 8 (mask 8) OR push_bit 24 (mask 8)"
    by (simp add: mask_eq_exp_minus_1)
  show ?thesis unfolding eq by (auto simp: bit_simps)
qed
lemma bit_mask_int2:   "bit (0x00ff00ff::int) n \<longleftrightarrow> (n < 8) \<or> (16 \<le> n \<and> n < 24)"
proof -
  have eq': "(0x00ff00ff::int) = (mask 8) OR push_bit 16 (mask 8)"
    by (simp add: mask_eq_exp_minus_1)
  show ?thesis unfolding eq' by (auto simp: bit_simps)
qed

lemma bswap4_lit: fixes a b c d :: byte
  shows
  "CRYPTO_bswap4 (push_bit 24 (ucast a) OR push_bit 16 (ucast b) OR push_bit 8 (ucast c) OR ucast (d::byte))
   = push_bit 24 (ucast d) OR push_bit 16 (ucast c) OR push_bit 8 (ucast b) OR ucast (a::byte)"
proof (rule bit_word_eqI)
  fix n assume "n < LENGTH(32)"
  then obtain q k where n: "n = 8 * q + k" "k < 8" "q < 4"
    using byte_index [of n 4] by auto
  then have "q = 0 \<or> q = 1 \<or> q = 2 \<or> q = 3" by auto
  then show "bit (CRYPTO_bswap4 (push_bit 24 (ucast a) OR push_bit 16 (ucast b) OR push_bit 8 (ucast c) OR ucast d)) n \<longleftrightarrow>
     bit (push_bit 24 (ucast d) OR push_bit 16 (ucast c) OR push_bit 8 (ucast b) OR ucast a :: u32) n"
    using n(2) unfolding n(1) CRYPTO_bswap4_def Let_def
    by (elim disjE) (simp_all add: bit_mask_ff bit_mask_ff' bit_byte_high bit_mask_int bit_mask_int2 bit_or_iff bit_and_iff bit_push_bit_iff bit_drop_bit_eq bit_unsigned_iff)
qed

lemma bswap8_parts:
  "CRYPTO_bswap8 (push_bit 32 (ucast h) OR ucast l) = push_bit 32 (ucast (CRYPTO_bswap4 l)) OR ucast (CRYPTO_bswap4 h)"
proof -
  have "ucast (drop_bit 32 (push_bit 32 (ucast h) OR ucast l :: u64)) = h"
    by (rule bit_eqI) (auto simp: bit_simps dest: bit_imp_le_length)
  moreover have "ucast (push_bit 32 (ucast h) OR ucast l :: u64) = l"
    by (rule bit_eqI) (auto simp: bit_simps dest: bit_imp_le_length)
  ultimately show ?thesis
    by (simp add: CRYPTO_bswap8_def or.commute)
qed

text \<open>The value of the bytes \<open>p\<close>, swapped, is the value of the bytes in reverse.\<close>

lemma word_of_nat_be_val_2:
  "(word_of_nat (be_val [a, b]) :: u16) = push_bit 8 (ucast a) OR ucast b"
proof -
  have "push_bit 8 (ucast a) AND ucast b = (0 :: u16)"
    by (rule bit_eqI) (auto simp: bit_simps bit_byte_high)
  then have "push_bit 8 (ucast a) OR ucast b = push_bit 8 (ucast a) + (ucast b :: u16)"
    by (rule disjunctive_add_eq_or [symmetric])
  also have "\<dots> = word_of_nat (be_val [a, b])"
    by (simp add: be_val_Cons push_bit_eq_mult mult.commute)
  finally show ?thesis ..
qed

lemma word_of_nat_be_val_4:
  "(word_of_nat (be_val [a, b, c, d]) :: u32) =
   push_bit 24 (ucast a) OR push_bit 16 (ucast b) OR push_bit 8 (ucast c) OR ucast d"
proof -
  have "push_bit 8 (ucast c) AND ucast d = (0 :: u32)"
    "push_bit 16 (ucast b) AND (push_bit 8 (ucast c) OR ucast d) = (0 :: u32)"
    "push_bit 24 (ucast a) AND (push_bit 16 (ucast b) OR push_bit 8 (ucast c) OR ucast d) = (0 :: u32)"
    by (rule bit_eqI, auto simp: bit_simps bit_byte_high)+
  then have "push_bit 24 (ucast a) OR push_bit 16 (ucast b) OR push_bit 8 (ucast c) OR ucast d =
      push_bit 24 (ucast a) + (push_bit 16 (ucast b) + (push_bit 8 (ucast c) + (ucast d :: u32)))"
    by (simp add: disjunctive_add_eq_or)
  also have "\<dots> = word_of_nat (be_val [a, b, c, d])"
    by (simp add: be_val_Cons push_bit_eq_mult algebra_simps)
  finally show ?thesis ..
qed

lemma word_of_nat_be_val_8:
  assumes "length p = 4" "length q = 4"
  shows "(word_of_nat (be_val (p @ q)) :: u64) =
    push_bit 32 (ucast (word_of_nat (be_val p) :: u32)) OR ucast (word_of_nat (be_val q) :: u32)"
proof -
  let ?p = "word_of_nat (be_val p) :: u32" and ?q = "word_of_nat (be_val q) :: u32"
  have small: "unat ?p = be_val p" "unat ?q = be_val q"
    using be_val_less [of p] be_val_less [of q] assms by (simp_all add: unat_word_of_nat_small)
  have "push_bit 32 (ucast ?p) AND ucast ?q = (0 :: u64)"
    by (rule bit_eqI) (auto simp: bit_simps)
  then have "push_bit 32 (ucast ?p) OR ucast ?q = push_bit 32 (ucast ?p) + (ucast ?q :: u64)"
    by (rule disjunctive_add_eq_or [symmetric])
  also have "\<dots> = word_of_nat (unat ?p * 256 ^ 4 + unat ?q)"
    by (simp add: push_bit_eq_mult mult.commute)
  finally show ?thesis
    by (simp only: small be_val_append assms)
qed

lemma word_reader_u16le: "word_reader rev 2 CBS_get_u16le"
proof -
  have "CRYPTO_bswap2 (word_of_nat (be_val p)) = word_of_nat (be_val (rev p))" if "length p = 2" for p
    using that by (auto simp: numeral_2_eq_2 length_Suc_conv word_of_nat_be_val_2 bswap2_lit simp del: be_val_snoc)
  then show ?thesis
    using word_reader_u16 by (auto simp: word_reader_def CBS_get_u16le_def)
qed

lemma bswap4_be_val:
  assumes "length p = 4"
  shows "CRYPTO_bswap4 (word_of_nat (be_val p)) = word_of_nat (be_val (rev p))"
proof -
  from assms obtain a b c d where p: "p = [a, b, c, d]"
    by (auto simp: eval_nat_numeral length_Suc_conv)
  show ?thesis
    unfolding p by (simp only: rev.simps append.simps word_of_nat_be_val_4 bswap4_lit)
qed

lemma bswap8_be_val:
  assumes "length p = 8"
  shows "CRYPTO_bswap8 (word_of_nat (be_val p)) = word_of_nat (be_val (rev p))"
proof -
  have p: "p = take 4 p @ drop 4 p" and l: "length (take 4 p) = 4" "length (drop 4 p) = 4"
    using assms by simp_all
  have r: "rev p = rev (drop 4 p) @ rev (take 4 p)"
    by (metis append_take_drop_id rev_append)
  have "CRYPTO_bswap8 (word_of_nat (be_val (take 4 p @ drop 4 p))) =
      word_of_nat (be_val (rev (drop 4 p) @ rev (take 4 p)))"
    by (simp only: word_of_nat_be_val_8 [OF l] bswap8_parts bswap4_be_val [OF l(1)]
        bswap4_be_val [OF l(2)] word_of_nat_be_val_8 length_rev l)
  with p r show ?thesis by simp
qed

lemma word_reader_u32le: "word_reader rev 4 CBS_get_u32le"
  using word_reader_u32 bswap4_be_val by (auto simp: word_reader_def CBS_get_u32le_def)

lemma word_reader_u64le: "word_reader rev 8 CBS_get_u64le"
  using word_reader_u64 bswap8_be_val
  by (auto simp: word_reader_def CBS_get_u64le_def CBS_get_u64_def)

interpretation u16le: canonical_codec CBS_get_u16le "\<lambda>v. rev (be_bytes 2 (unat v))" "\<lambda>v. unat v < 256 ^ 2"
  by (rule word_reader_codec [OF word_reader_u16le]) simp_all

interpretation u32le: canonical_codec CBS_get_u32le "\<lambda>v. rev (be_bytes 4 (unat v))" "\<lambda>v. unat v < 256 ^ 4"
  by (rule word_reader_codec [OF word_reader_u32le]) simp_all

interpretation u64le: canonical_codec CBS_get_u64le "\<lambda>v. rev (be_bytes 8 (unat v))" "\<lambda>v. unat v < 256 ^ 8"
  by (rule word_reader_codec [OF word_reader_u64le]) simp_all

section \<open>Length-prefixed strings\<close>

text \<open>A string of fewer than \<open>256 ^ n\<close> bytes behind its length in \<open>n\<close> big-endian bytes.\<close>

definition prefixed :: "nat \<Rightarrow> bytes \<Rightarrow> bytes" where
  "prefixed n p = be_bytes n (length p) @ p"

lemma cbs_get_length_prefixed_eq:
  assumes "n \<le> 3"
  shows "cbs_get_length_prefixed cbs n =
    (if length cbs < n then (None, cbs)
     else CBS_get_bytes (drop n cbs) (be_val (take n cbs)))"
proof -
  have "unat (word_of_nat (be_val p) :: u64) = be_val p" if "length p \<le> 3" for p
  proof (rule unat_word_of_nat_small)
    have "be_val p < 256 ^ length p" by (rule be_val_less)
    also have "\<dots> \<le> 256 ^ 3" using that by (intro power_increasing) simp_all
    finally show "be_val p < 2 ^ LENGTH(64)" by simp
  qed
  with assms show ?thesis
    by (simp add: cbs_get_length_prefixed_def cbs_get_u_eq)
qed

lemma prefixed_codec:
  assumes "0 < n" "n \<le> 3"
  shows "canonical_codec (\<lambda>cbs. cbs_get_length_prefixed cbs n) (prefixed n) (\<lambda>p. length p < 256 ^ n)"
proof
  note eq = cbs_get_length_prefixed_eq [OF assms(2)] CBS_get_bytes_eq
  show "suffix s' s" if "cbs_get_length_prefixed s n = (r, s')" for s s' r
    using that by (auto simp: eq suffix_drop split: if_splits)
  show "length s' < length s" if "cbs_get_length_prefixed s n = (Some x, s')" for s s' x
    using that assms by (auto simp: eq split: if_splits)
  show "cbs_get_length_prefixed (prefixed n x @ rest) n = (Some x, rest)" if "length x < 256 ^ n" for x rest
    using that by (simp add: eq prefixed_def be_val_be_bytes)
  show "length x < 256 ^ n \<and> s = prefixed n x @ s'" if "cbs_get_length_prefixed s n = (Some x, s')" for s s' x
  proof -
    let ?l = "be_val (take n s)"
    from that have *: "n \<le> length s" "x = take ?l (drop n s)" "s' = drop ?l (drop n s)"
      "?l \<le> length (drop n s)"
      by (auto simp: eq split: if_splits)
    then have "length x = ?l"
      by simp
    moreover from * have "be_bytes n ?l = take n s"
      by (intro be_bytes_be_val') simp
    moreover have "?l < 256 ^ n"
      using be_val_less [of "take n s"] * by simp
    moreover have "s = take n s @ x @ s'"
      unfolding *(2,3) by (simp only: append_take_drop_id)
    ultimately show ?thesis
      by (simp add: prefixed_def)
  qed
qed

interpretation u8_prefixed: canonical_codec CBS_get_u8_length_prefixed "prefixed 1" "\<lambda>p. length p < 256 ^ 1"
  using prefixed_codec [of 1] by (simp add: CBS_get_u8_length_prefixed_def [abs_def])

interpretation u16_prefixed: canonical_codec CBS_get_u16_length_prefixed "prefixed 2" "\<lambda>p. length p < 256 ^ 2"
  using prefixed_codec [of 2] by (simp add: CBS_get_u16_length_prefixed_def [abs_def])

interpretation u24_prefixed: canonical_codec CBS_get_u24_length_prefixed "prefixed 3" "\<lambda>p. length p < 256 ^ 3"
  using prefixed_codec [of 3] by (simp add: CBS_get_u24_length_prefixed_def [abs_def])

section \<open>Base-128 integers\<close>

text \<open>
  The minimal big-endian base-128 encoding, the most significant group first, every byte but the
  last with its top bit set. \<open>base128_groups\<close> is the encoding of the groups above the last.
\<close>

fun base128_groups :: "nat \<Rightarrow> bytes" where
  "base128_groups n = (if n = 0 then [] else base128_groups (n div 128) @ [word_of_nat (128 + n mod 128)])"

declare base128_groups.simps [simp del]

definition base128_enc :: "u64 \<Rightarrow> bytes" where
  "base128_enc v = base128_groups (unat v div 128) @ [word_of_nat (unat v mod 128)]"

lemma unat_shift7_or:
  fixes v :: u64
  assumes "unat v < 2 ^ 57"
  shows "unat (push_bit 7 v OR ucast (b AND 0x7f :: byte)) = unat v * 128 + unat b mod 128"
proof -
  have m: "b AND 0x7f = take_bit 7 b"
    by (simp add: take_bit_eq_mask mask_eq_exp_minus_1)
  have "push_bit 7 v AND ucast (b AND 0x7f) = 0"
    by (rule bit_eqI) (auto simp: m bit_simps)
  then have "push_bit 7 v OR ucast (b AND 0x7f) = push_bit 7 v + ucast (b AND 0x7f)"
    by (rule disjunctive_add_eq_or [symmetric])
  moreover have "unat (push_bit 7 v) = unat v * 128"
    using assms by (simp add: push_bit_eq_mult unat_word_ariths)
  moreover have "unat (ucast (b AND 0x7f) :: u64) = unat b mod 128"
  proof -
    have "unat (take_bit 7 b) = take_bit 7 (unat b)"
      by (rule unsigned_take_bit_eq)
    then show ?thesis
      by (simp only: m unat_ucast_up len_of_numeral_defs) (simp add: take_bit_eq_mod unat_ucast_up)
  qed
  moreover have "unat v * 128 + unat b mod 128 < 2 ^ 64"
  proof -
    have "unat b mod 128 < 128" by simp
    with assms show ?thesis by simp
  qed
  ultimately show ?thesis
    by (simp add: unat_word_ariths)
qed

lemma drop_bit_57_eq_0: "drop_bit (64 - 7) (v :: u64) = 0 \<longleftrightarrow> unat v < 2 ^ 57"
proof -
  have "unat (drop_bit 57 v) = unat v div 2 ^ 57"
    unfolding unat_drop_bit_eq by (simp add: drop_bit_eq_div)
  then have "unat (drop_bit 57 v) = 0 \<longleftrightarrow> unat v < 2 ^ 57"
    by (simp add: div_eq_0_iff)
  then show ?thesis
    by (simp add: unat_eq_zero)
qed

lemma byte_top_bit: "(b :: byte) AND 0x80 \<noteq> 0 \<longleftrightarrow> 128 \<le> unat b"
proof -
  have "b AND 0x80 \<noteq> 0 \<longleftrightarrow> bit b 7"
  proof -
    have eq: "(0x80 :: byte) = 2 ^ 7" by simp
    show ?thesis
      unfolding eq and_exp_eq_0_iff_not_bit by simp
  qed
  also have "\<dots> \<longleftrightarrow> bit (unat b) 7"
    by (simp add: bit_unsigned_iff)
  also have "\<dots> \<longleftrightarrow> odd (unat b div 128)"
    by (simp add: bit_iff_odd)
  also have "\<dots> \<longleftrightarrow> 128 \<le> unat b"
  proof (cases "128 \<le> unat b")
    case True
    then have "unat b div 128 = 1"
      using unat_byte_less [of b] by (intro div_nat_eqI) simp_all
    with True show ?thesis by simp
  qed simp
  finally show ?thesis .
qed

lemma parse_base128_step:
  assumes "unat v < 2 ^ 57" and "\<not> (v = 0 \<and> b = 0x80)"
  shows "parse_base128_loop v (b # cbs) =
    (let v' = word_of_nat (unat v * 128 + unat b mod 128)
     in if 128 \<le> unat b then parse_base128_loop v' cbs else (Some v', cbs))"
proof -
  have "push_bit 7 v OR ucast (b AND 0x7f) = word_of_nat (unat v * 128 + unat b mod 128)"
    by (subst unat_shift7_or [OF assms(1), symmetric]) simp
  then show ?thesis
    using assms drop_bit_57_eq_0 [of v] byte_top_bit [of b] by (auto simp: Let_def)
qed

lemma parse_base128_fail:
  "\<not> unat v < 2 ^ 57 \<or> v = 0 \<and> b = 0x80 \<Longrightarrow> parse_base128_loop v (b # cbs) = (None, cbs)"
  using drop_bit_57_eq_0 [of v] by auto

lemma unat_byte_eq_iff: "b = (word_of_nat n :: byte) \<longleftrightarrow> unat b = n mod 256"
  by (simp add: word_unat_eq_iff unat_word_of_nat_byte)

lemma parse_base128_groups:
  "n < 2 ^ 57 \<Longrightarrow> parse_base128_loop 0 (base128_groups n @ rest) = parse_base128_loop (word_of_nat n) rest"
proof (induction n arbitrary: rest rule: base128_groups.induct)
  case (1 n)
  show ?case
  proof (cases "n = 0")
    case True
    then show ?thesis by (simp add: base128_groups.simps)
  next
    case False
    let ?b = "word_of_nat (128 + n mod 128) :: byte"
    have b: "unat ?b = 128 + n mod 128"
    proof (rule unat_word_of_nat_small)
      have "n mod 128 < 128" by simp
      then show "128 + n mod 128 < 2 ^ LENGTH(8)" by simp
    qed
    have v: "unat (word_of_nat (n div 128) :: u64) = n div 128"
      using "1.prems" by (simp add: unat_word_of_nat_small)
    have "\<not> (word_of_nat (n div 128) = (0 :: u64) \<and> ?b = 0x80)"
    proof
      assume "word_of_nat (n div 128) = (0 :: u64) \<and> ?b = 0x80"
      then have "n div 128 = 0" "n mod 128 = 0"
        using v b by auto
      with False show False by (simp add: mod_div_trivial)
    qed
    then have step: "parse_base128_loop (word_of_nat (n div 128)) (?b # rest) =
      (let v' = word_of_nat (unat (word_of_nat (n div 128) :: u64) * 128 + unat ?b mod 128)
       in if 128 \<le> unat ?b then parse_base128_loop v' rest else (Some v', rest))"
      using "1.prems" v by (intro parse_base128_step) simp_all
    have "n div 128 * 128 + (128 + n mod 128) mod 128 = n"
      by simp
    then have "parse_base128_loop (word_of_nat (n div 128)) (?b # rest) = parse_base128_loop (word_of_nat n) rest"
      unfolding step v b Let_def by simp
    then show ?thesis
      using "1.IH" "1.prems" False by (subst base128_groups.simps) simp
  qed
qed

lemma parse_base128_enc: "parse_base128_integer (base128_enc v @ rest) = (Some v, rest)"
proof -
  let ?b = "word_of_nat (unat v mod 128) :: byte"
  have lt: "unat v div 128 < 2 ^ 57"
    using unat_u64_less [of v] by simp
  have b: "unat ?b = unat v mod 128"
    by (simp add: unat_word_of_nat_small)
  have w: "unat (word_of_nat (unat v div 128) :: u64) = unat v div 128"
    using lt by (simp add: unat_word_of_nat_small)
  have lt2: "\<not> 128 \<le> unat v mod 128"
    by (simp add: not_le)
  have "?b \<noteq> 0x80"
  proof
    assume "?b = 0x80"
    then have "unat v mod 128 = 128" using b by simp
    with lt2 show False by simp
  qed
  with lt2 have "parse_base128_loop (word_of_nat (unat v div 128)) (?b # rest) = (Some v, rest)"
    using lt by (subst parse_base128_step) (simp_all add: w b)
  then show ?thesis
    using parse_base128_groups [OF lt] by (simp add: parse_base128_integer_def base128_enc_def)
qed

lemma parse_base128_loop_canonical:
  "parse_base128_loop v s = (Some x, s') \<Longrightarrow>
   \<exists>p. s = p @ s' \<and> base128_enc x = base128_groups (unat v) @ p"
proof (induction v s rule: parse_base128_loop.induct)
  case (1 v)
  then show ?case by simp
next
  case (2 v b cbs)
  let ?n = "unat v * 128 + unat b mod 128"
  have ok: "unat v < 2 ^ 57" "\<not> (v = 0 \<and> b = 0x80)"
    using "2.prems" parse_base128_fail [of v b cbs] by auto
  have n: "unat (word_of_nat ?n :: u64) = ?n"
  proof (rule unat_word_of_nat_small)
    have "unat b mod 128 < 128" by simp
    with ok(1) show "?n < 2 ^ LENGTH(64)" by simp
  qed
  have dm: "?n div 128 = unat v" "?n mod 128 = unat b mod 128"
    by simp_all
  show ?case
  proof (cases "128 \<le> unat b")
    case True
    have b: "unat b = 128 + unat b mod 128"
      using True unat_byte_less [of b] by (simp add: mod_if [of "unat b" 128] del: unat_byte_less)
    have "?n \<noteq> 0"
    proof
      assume "?n = 0"
      then have "unat v = 0" "unat b = 128" using b by simp_all
      then have "v = 0" "b = 0x80" by (simp_all add: word_unat_eq_iff)
      with ok(2) show False by simp
    qed
    moreover from b have "word_of_nat (128 + unat b mod 128) = b"
      by (metis word_of_nat_unat)
    ultimately have g: "base128_groups ?n = base128_groups (unat v) @ [b]"
      by (subst base128_groups.simps) (simp add: dm)
    have "parse_base128_loop (word_of_nat ?n) cbs = (Some x, s')"
      using "2.prems" ok True by (simp add: parse_base128_step Let_def del: parse_base128_loop.simps)
    moreover have "push_bit 7 v OR ucast (b AND 0x7f) = word_of_nat ?n"
      by (subst unat_shift7_or [OF ok(1), symmetric]) simp
    ultimately obtain p where "cbs = p @ s'" "base128_enc x = base128_groups ?n @ p"
      using "2.IH" [OF _ ok(2) refl] ok(1) True n drop_bit_57_eq_0 [of v] byte_top_bit [of b] by auto
    with g show ?thesis by auto
  next
    case False
    then have x: "x = word_of_nat ?n" "s' = cbs"
      using "2.prems" ok by (auto simp: parse_base128_step Let_def simp del: parse_base128_loop.simps)
    then have "unat x = ?n"
      using n by simp
    with False have "base128_enc x = base128_groups (unat v) @ [b]"
      unfolding base128_enc_def by (simp only: dm) simp
    with x show ?thesis by auto
  qed
qed

lemma parse_base128_canonical:
  "parse_base128_integer s = (Some x, s') \<Longrightarrow> s = base128_enc x @ s'"
  using parse_base128_loop_canonical [of 0 s x s']
  by (auto simp: parse_base128_integer_def base128_groups.simps [of 0])

lemma parse_base128_loop_suffix: "parse_base128_loop v s = (r, s') \<Longrightarrow> suffix s' s"
  by (induction v s rule: parse_base128_loop.induct)
    (auto simp: Let_def suffix_Cons split: if_splits)

interpretation base128: canonical_codec parse_base128_integer base128_enc "\<lambda>_. True"
proof
  show "suffix s' s" if "parse_base128_integer s = (r, s')" for s s' r
    using that parse_base128_loop_suffix by (simp add: parse_base128_integer_def)
  show "length s' < length s" if "parse_base128_integer s = (Some x, s')" for s s' x
    using parse_base128_canonical [OF that] by (simp add: base128_enc_def)
qed (simp_all add: parse_base128_enc parse_base128_canonical)

section \<open>Decimal integers\<close>

text \<open>The decimal digits of a number, without leading zeros: what \<open>snprintf\<close> prints for \<open>PRIu64\<close>.\<close>

fun decimal_enc :: "nat \<Rightarrow> bytes" where
  "decimal_enc n =
     (if n < 10 then [word_of_nat (48 + n)] else decimal_enc (n div 10) @ [word_of_nat (48 + n mod 10)])"

declare decimal_enc.simps [simp del]

definition is_digit :: "byte \<Rightarrow> bool" where
  "is_digit c \<longleftrightarrow> OPENSSL_isdigit (uint c)"

lemma is_digit_unat: "is_digit c \<longleftrightarrow> 48 \<le> unat c \<and> unat c \<le> 57"
proof -
  have "uint c = int (unat c)" by simp
  then show ?thesis
    unfolding is_digit_def OPENSSL_isdigit_def by linarith
qed

lemma unat_digit: "is_digit c \<Longrightarrow> unat (ucast (c - 48) :: u64) = unat c - 48"
proof -
  assume "is_digit c"
  then have "48 \<le> c"
    by (simp add: is_digit_unat word_le_nat_alt)
  then have "unat (c - 48) = unat c - 48"
    by (simp add: unat_sub)
  then show ?thesis by (simp add: unat_ucast_up)
qed

lemma u64_decimal_step:
  assumes c: "is_digit c" and lead: "\<not> (v = 0 \<and> seen)"
  shows "u64_decimal_loop v seen (c # cbs) =
    (let n = unat v * 10 + (unat c - 48)
     in if n < 2 ^ 64 then u64_decimal_loop (word_of_nat n) True cbs else (None, cbs))"
proof -
  define d where "d = unat c - 48"
  have d: "d \<le> 9" "unat (ucast (c - 48) :: u64) = d"
    using c unat_digit [OF c] by (auto simp: d_def is_digit_unat)
  have max: "unat ((- 1 :: u64) div 10) = 1844674407370955161"
    by (simp add: unat_div)
  have isd: "OPENSSL_isdigit (uint c)"
    using c by (simp add: is_digit_def)
  show ?thesis
  proof (cases "unat v \<le> 1844674407370955161")
    case True
    then have v10: "unat (v * 10) = unat v * 10"
      by (simp add: unat_word_ariths)
    have m1: "unat ((- 1 :: u64) - ucast (c - 48)) = 2 ^ 64 - 1 - d"
    proof -
      have "ucast (c - 48) \<le> (- 1 :: u64)" by simp
      then show ?thesis
        using d(2) by (simp add: unat_sub unsigned_minus_1_eq_mask mask_eq_exp_minus_1)
    qed
    have ov: "v * 10 > (- 1) - ucast (c - 48) \<longleftrightarrow> \<not> unat v * 10 + d < 2 ^ 64"
      unfolding word_less_nat_alt v10 m1 using d(1) by auto
    have "v * 10 + ucast (c - 48) = word_of_nat (unat v * 10 + d)"
      by (simp add: d(2) [symmetric])
    moreover have "\<not> v > (- 1) div 10"
      using True by (simp add: word_less_nat_alt max)
    ultimately show ?thesis
      using ov lead isd by (auto simp: Let_def d_def [symmetric])
  next
    case False
    then have "v > (- 1) div 10" by (simp add: word_less_nat_alt max)
    with False isd show ?thesis
      by (auto simp: Let_def)
  qed
qed

lemma u64_decimal_stop:
  "\<not> is_digit c \<Longrightarrow> u64_decimal_loop v seen (c # cbs) = (if seen then Some v else None, c # cbs)"
  by (simp add: is_digit_def)

lemma u64_decimal_lead: "is_digit c \<Longrightarrow> u64_decimal_loop 0 True (c # cbs) = (None, cbs)"
  by (simp add: is_digit_def)

lemma digit_byte: "d < 10 \<Longrightarrow> unat (word_of_nat (48 + d) :: byte) = 48 + d"
  by (rule unat_word_of_nat_small) simp

lemma is_digit_byte: "d < 10 \<Longrightarrow> is_digit (word_of_nat (48 + d))"
  unfolding is_digit_unat by (subst digit_byte, assumption)+ simp

lemma u64_decimal_digits:
  "n < 2 ^ 64 \<Longrightarrow>
   u64_decimal_loop 0 False (decimal_enc n @ rest) = u64_decimal_loop (word_of_nat n) True rest"
proof (induction n arbitrary: rest rule: decimal_enc.induct)
  case (1 n)
  show ?case
  proof (cases "n < 10")
    case True
    have "u64_decimal_loop 0 False (word_of_nat (48 + n) # rest) = u64_decimal_loop (word_of_nat n) True rest"
      using True digit_byte [OF True] by (subst u64_decimal_step [OF is_digit_byte]) simp_all
    with True show ?thesis by (subst decimal_enc.simps) simp
  next
    case False
    let ?c = "word_of_nat (48 + n mod 10) :: byte"
    have c: "is_digit ?c" "unat ?c = 48 + n mod 10"
      using is_digit_byte [of "n mod 10"] digit_byte [of "n mod 10"] by simp_all
    have v: "unat (word_of_nat (n div 10) :: u64) = n div 10"
      using "1.prems" by (intro unat_word_of_nat_small) simp
    then have lead: "\<not> ((word_of_nat (n div 10) :: u64) = 0 \<and> True)"
      using False by (auto simp: div_eq_0_iff)
    have "u64_decimal_loop (word_of_nat (n div 10)) True (?c # rest) = u64_decimal_loop (word_of_nat n) True rest"
      unfolding u64_decimal_step [OF c(1) lead] v c(2) using "1.prems" by (simp add: Let_def)
    then show ?thesis
      using False "1.IH" "1.prems" by (subst decimal_enc.simps) simp
  qed
qed

text \<open>The digits of a 64-bit number that no further digit follows are read back.\<close>

lemma CBS_get_u64_decimal_enc:
  assumes "rest = [] \<or> \<not> is_digit (hd rest)"
  shows "CBS_get_u64_decimal (decimal_enc (unat v) @ rest) = (Some v, rest)"
  using assms u64_decimal_digits [OF unat_u64_less, of v rest]
  by (cases rest) (auto simp: CBS_get_u64_decimal_def u64_decimal_stop simp del: u64_decimal_loop.simps(2))

lemma u64_decimal_canonical:
  "u64_decimal_loop v seen s = (Some x, s') \<Longrightarrow> (\<not> seen \<Longrightarrow> v = 0) \<Longrightarrow>
   \<exists>p. s = p @ s' \<and> decimal_enc (unat x) = (if seen then decimal_enc (unat v) else []) @ p \<and>
     (s' = [] \<or> \<not> is_digit (hd s'))"
proof (induction s arbitrary: v seen)
  case Nil
  then show ?case by (auto split: if_splits)
next
  case (Cons c s)
  show ?case
  proof (cases "is_digit c")
    case False
    with Cons.prems show ?thesis
      by (auto simp: u64_decimal_stop simp del: u64_decimal_loop.simps split: if_splits)
  next
    case True
    let ?n = "unat v * 10 + (unat c - 48)"
    have lead: "\<not> (v = 0 \<and> seen)"
      using Cons.prems u64_decimal_lead [OF True] by (auto simp del: u64_decimal_loop.simps)
    then have n: "?n < 2 ^ 64" and rec: "u64_decimal_loop (word_of_nat ?n) True s = (Some x, s')"
      using Cons.prems(1) unfolding u64_decimal_step [OF True lead] by (auto simp: Let_def split: if_splits)
    have un: "unat (word_of_nat ?n :: u64) = ?n"
      using n by (intro unat_word_of_nat_small) simp
    obtain p where p: "s = p @ s'" "decimal_enc (unat x) = decimal_enc ?n @ p"
      "s' = [] \<or> \<not> is_digit (hd s')"
      using Cons.IH [OF rec] un by auto
    have d: "unat c - 48 < 10" "word_of_nat (48 + (unat c - 48)) = c"
      using True by (auto simp: is_digit_unat)
    have "decimal_enc ?n = (if seen then decimal_enc (unat v) else []) @ [c]"
    proof (cases seen)
      case True
      with lead have "unat v \<noteq> 0" by (simp add: unat_eq_zero)
      then have "\<not> ?n < 10" "?n div 10 = unat v" "?n mod 10 = unat c - 48"
        using d by auto
      with True d(2) show ?thesis by (subst decimal_enc.simps) simp
    next
      case False
      with Cons.prems(2) d show ?thesis by (subst decimal_enc.simps) simp
    qed
    with p show ?thesis by auto
  qed
qed

text \<open>Whatever is read as decimal is the shortest decimal form, read as far as it goes.\<close>

lemma CBS_get_u64_decimal_canonical:
  assumes "CBS_get_u64_decimal s = (Some x, s')"
  shows "s = decimal_enc (unat x) @ s' \<and> (s' = [] \<or> \<not> is_digit (hd s'))"
  using u64_decimal_canonical [of 0 False s x s'] assms by (auto simp: CBS_get_u64_decimal_def)

lemma u64_decimal_loop_suffix: "u64_decimal_loop v seen s = (r, s') \<Longrightarrow> suffix s' s"
  by (induction v seen s rule: u64_decimal_loop.induct)
    (auto simp: suffix_Cons split: if_splits)

lemma decimal_enc_nonempty [simp]: "decimal_enc n \<noteq> []"
  by (subst decimal_enc.simps) simp

interpretation decimal: byte_reader CBS_get_u64_decimal
proof
  show "suffix s' s" if "CBS_get_u64_decimal s = (r, s')" for s s' r
    using that u64_decimal_loop_suffix by (simp add: CBS_get_u64_decimal_def)
  show "length s' < length s" if "CBS_get_u64_decimal s = (Some x, s')" for s s' x
    using CBS_get_u64_decimal_canonical [OF that] by simp
qed

end
