(* ===== verification/Cbs_Asn1.thy ===== *)
theory Cbs_Asn1
  imports Cbs
begin

text \<open>
  \<open>crypto/bytestring/cbs.c\<close>, second half: ASN.1 tags, elements, and the typed reads built on them
  (integers, booleans, bit strings, object identifiers, optional elements).

  \<open>der_element\<close> is the abstract specification, the one DER encoding of a tag and a body. The lemmas
  show that in DER mode the element reader is a canonical codec for it: it accepts exactly the
  encodings \<open>der_element\<close> gives, so no element has two accepted encodings and none is a proper prefix
  of another.
\<close>

section \<open>Tags\<close>

definition CBS_ASN1_TAG_SHIFT :: nat where
  "CBS_ASN1_TAG_SHIFT = 24"

definition CBS_ASN1_CONSTRUCTED :: u32 where
  "CBS_ASN1_CONSTRUCTED = push_bit CBS_ASN1_TAG_SHIFT 0x20"

definition CBS_ASN1_TAG_NUMBER_MASK :: u32 where
  "CBS_ASN1_TAG_NUMBER_MASK = push_bit (5 + CBS_ASN1_TAG_SHIFT) 1 - 1"

definition CBS_ASN1_BOOLEAN :: u32 where "CBS_ASN1_BOOLEAN = 0x1"
definition CBS_ASN1_INTEGER :: u32 where "CBS_ASN1_INTEGER = 0x2"
definition CBS_ASN1_OCTETSTRING :: u32 where "CBS_ASN1_OCTETSTRING = 0x4"

definition parse_asn1_tag :: "u32 reader" where
  "parse_asn1_tag cbs = chk (CBS_get_u8 cbs) (\<lambda>tag_byte cbs.
     let tag = push_bit CBS_ASN1_TAG_SHIFT ((ucast tag_byte :: u32) AND 0xe0);
         tag_number = (ucast (tag_byte AND 0x1f) :: u32);
         finish = (\<lambda>tag_number cbs.
           let tag = tag OR tag_number
           in if tag AND NOT CBS_ASN1_CONSTRUCTED = 0 then (None, cbs) else (Some tag, cbs))
     in if tag_number = 0x1f
        then chk (parse_base128_integer cbs) (\<lambda>v cbs.
               if v > ucast CBS_ASN1_TAG_NUMBER_MASK \<or> v < 0x1f then (None, cbs)
               else finish (ucast v) cbs)
        else finish tag_number cbs)"

section \<open>Elements\<close>

text \<open>The out parameters of a successful \<open>cbs_get_any_asn1_element\<close>.\<close>

record asn1_element =
  elt_out :: CBS
  elt_tag :: u32
  elt_header_len :: nat
  elt_ber_found :: bool
  elt_indefinite :: bool

definition cbs_get_any_asn1_element :: "CBS \<Rightarrow> bool \<Rightarrow> asn1_element option \<times> CBS" where
  "cbs_get_any_asn1_element cbs ber_ok =
     (case parse_asn1_tag cbs of (None, _) \<Rightarrow> (None, cbs) | (Some tag, header) \<Rightarrow>
     (case CBS_get_u8 header of (None, _) \<Rightarrow> (None, cbs) | (Some length_byte, header) \<Rightarrow>
      let header_len = CBS_len cbs - CBS_len header;
          finish = (\<lambda>len header_len ber_found indefinite.
            chk (CBS_get_bytes cbs len) (\<lambda>out cbs.
              (Some \<lparr>elt_out = out, elt_tag = tag, elt_header_len = header_len,
                 elt_ber_found = ber_found, elt_indefinite = indefinite\<rparr>, cbs)))
      in if length_byte AND 0x80 = 0 then finish (unat length_byte + header_len) header_len False False
      else
        let num_bytes = unat (length_byte AND 0x7f)
        in if ber_ok \<and> tag AND CBS_ASN1_CONSTRUCTED \<noteq> 0 \<and> num_bytes = 0
        then finish header_len header_len True True
        else if num_bytes = 0 \<or> num_bytes > 4 then (None, cbs)
        else case cbs_get_u header num_bytes of (None, _) \<Rightarrow> (None, cbs) | (Some len64, header) \<Rightarrow>
          let long_for_short = len64 < 128;
              leading_zero = drop_bit ((num_bytes - 1) * 8) len64 = 0
          in if long_for_short \<and> \<not> ber_ok then (None, cbs)
          else if leading_zero \<and> \<not> ber_ok then (None, cbs)
          else
            let len = unat len64
            in if size_add (size_add len header_len) num_bytes < len then (None, cbs)
            else finish (size_add len (size_add header_len num_bytes)) (header_len + num_bytes)
                   (long_for_short \<or> leading_zero) False))"

definition CBS_get_any_asn1_element :: "CBS \<Rightarrow> asn1_element option \<times> CBS" where
  "CBS_get_any_asn1_element cbs = cbs_get_any_asn1_element cbs False"

definition CBS_get_any_ber_asn1_element :: "CBS \<Rightarrow> asn1_element option \<times> CBS" where
  "CBS_get_any_ber_asn1_element cbs = cbs_get_any_asn1_element cbs True"

definition CBS_get_any_asn1 :: "(CBS \<times> u32) reader" where
  "CBS_get_any_asn1 cbs = chk (CBS_get_any_asn1_element cbs) (\<lambda>e cbs.
     case CBS_skip (elt_out e) (elt_header_len e) of
       (None, _) \<Rightarrow> (None, cbs)
     | (Some _, out) \<Rightarrow> (Some (out, elt_tag e), cbs))"

definition cbs_get_asn1 :: "CBS \<Rightarrow> u32 \<Rightarrow> bool \<Rightarrow> CBS option \<times> CBS" where
  "cbs_get_asn1 cbs tag_value skip_header = chk (CBS_get_any_asn1_element cbs) (\<lambda>e cbs.
     if elt_tag e \<noteq> tag_value then (None, cbs)
     else if skip_header
     then case CBS_skip (elt_out e) (elt_header_len e) of
            (None, _) \<Rightarrow> (None, cbs)
          | (Some _, out) \<Rightarrow> (Some out, cbs)
     else (Some (elt_out e), cbs))"

definition CBS_get_asn1 :: "CBS \<Rightarrow> u32 \<Rightarrow> CBS option \<times> CBS" where
  "CBS_get_asn1 cbs tag_value = cbs_get_asn1 cbs tag_value True"

definition CBS_get_asn1_element :: "CBS \<Rightarrow> u32 \<Rightarrow> CBS option \<times> CBS" where
  "CBS_get_asn1_element cbs tag_value = cbs_get_asn1 cbs tag_value False"

definition CBS_peek_asn1_tag :: "CBS \<Rightarrow> u32 \<Rightarrow> bool" where
  "CBS_peek_asn1_tag cbs tag_value \<longleftrightarrow>
     (case parse_asn1_tag cbs of (None, _) \<Rightarrow> False | (Some actual_tag, _) \<Rightarrow> tag_value = actual_tag)"

section \<open>Integers and booleans\<close>

text \<open>\<open>CBS_is_valid_asn1_integer\<close> returns the sign of a valid integer, \<open>None\<close> otherwise.\<close>

definition CBS_is_valid_asn1_integer :: "CBS \<Rightarrow> bool option" where
  "CBS_is_valid_asn1_integer cbs =
     (case CBS_get_u8 cbs of (None, _) \<Rightarrow> None | (Some first_byte, copy) \<Rightarrow>
      let is_negative = first_byte AND 0x80 \<noteq> 0
      in case CBS_get_u8 copy of (None, _) \<Rightarrow> Some is_negative | (Some second_byte, _) \<Rightarrow>
         if (first_byte = 0x00 \<and> second_byte AND 0x80 = 0) \<or>
            (first_byte = 0xff \<and> second_byte AND 0x80 \<noteq> 0)
         then None else Some is_negative)"

definition CBS_is_unsigned_asn1_integer :: "CBS \<Rightarrow> bool" where
  "CBS_is_unsigned_asn1_integer cbs \<longleftrightarrow>
     (case CBS_is_valid_asn1_integer cbs of None \<Rightarrow> False | Some is_negative \<Rightarrow> \<not> is_negative)"

fun asn1_uint64_loop :: "u64 \<Rightarrow> bytes \<Rightarrow> u64 option" where
  "asn1_uint64_loop out [] = Some out"
| "asn1_uint64_loop out (b # data) =
     (if drop_bit 56 out \<noteq> 0 then None else asn1_uint64_loop (push_bit 8 out OR ucast b) data)"

definition CBS_get_asn1_uint64 :: "u64 reader" where
  "CBS_get_asn1_uint64 cbs = chk (CBS_get_asn1 cbs CBS_ASN1_INTEGER) (\<lambda>bytes cbs.
     if \<not> CBS_is_unsigned_asn1_integer bytes then (None, cbs)
     else (asn1_uint64_loop 0 (CBS_data bytes), cbs))"

text \<open>
  The \<open>int64_t\<close> result is the word whose little-endian memory image is \<open>sign_extend\<close>, to be read
  with \<open>sint\<close>.
\<close>

definition asn1_sign_extend :: "bool \<Rightarrow> bytes \<Rightarrow> bytes" where
  "asn1_sign_extend is_negative data =
     foldl (\<lambda>sign_extend i. sign_extend[i := data ! (length data - i - 1)])
       (replicate 8 (if is_negative then 0xff else 0)) [0..<length data]"

definition CBS_get_asn1_int64 :: "u64 reader" where
  "CBS_get_asn1_int64 cbs = chk (CBS_get_asn1 cbs CBS_ASN1_INTEGER) (\<lambda>bytes cbs.
     case CBS_is_valid_asn1_integer bytes of
       None \<Rightarrow> (None, cbs)
     | Some is_negative \<Rightarrow>
         if CBS_len bytes > 8 then (None, cbs)
         else (Some (word_of_nat (be_val (rev (asn1_sign_extend is_negative (CBS_data bytes))))), cbs))"

definition CBS_get_asn1_bool :: "bool reader" where
  "CBS_get_asn1_bool cbs = chk (CBS_get_asn1 cbs CBS_ASN1_BOOLEAN) (\<lambda>bytes cbs.
     if CBS_len bytes \<noteq> 1 then (None, cbs)
     else let v = CBS_data bytes ! 0
          in if v \<noteq> 0 \<and> v \<noteq> 0xff then (None, cbs) else (Some (v \<noteq> 0), cbs))"

section \<open>Optional elements\<close>

text \<open>\<open>Some None\<close> is success with \<open>*out_present\<close> set to 0.\<close>

definition CBS_get_optional_asn1 :: "CBS \<Rightarrow> u32 \<Rightarrow> CBS option option \<times> CBS" where
  "CBS_get_optional_asn1 cbs tag =
     (if CBS_peek_asn1_tag cbs tag
      then chk (CBS_get_asn1 cbs tag) (\<lambda>out cbs. (Some (Some out), cbs))
      else (Some None, cbs))"

definition CBS_get_optional_asn1_octet_string :: "CBS \<Rightarrow> u32 \<Rightarrow> (CBS \<times> bool) option \<times> CBS" where
  "CBS_get_optional_asn1_octet_string cbs tag = chk (CBS_get_optional_asn1 cbs tag) (\<lambda>child cbs.
     case child of
       None \<Rightarrow> (Some (CBS_init [] 0, False), cbs)
     | Some child \<Rightarrow>
         (case CBS_get_asn1 child CBS_ASN1_OCTETSTRING of
            (None, _) \<Rightarrow> (None, cbs)
          | (Some out, child) \<Rightarrow>
              if CBS_len child \<noteq> 0 then (None, cbs) else (Some (out, True), cbs)))"

definition CBS_get_optional_asn1_uint64 :: "CBS \<Rightarrow> u32 \<Rightarrow> u64 \<Rightarrow> u64 option \<times> CBS" where
  "CBS_get_optional_asn1_uint64 cbs tag default_value = chk (CBS_get_optional_asn1 cbs tag) (\<lambda>child cbs.
     case child of
       None \<Rightarrow> (Some default_value, cbs)
     | Some child \<Rightarrow>
         (case CBS_get_asn1_uint64 child of
            (None, _) \<Rightarrow> (None, cbs)
          | (Some out, child) \<Rightarrow> if CBS_len child \<noteq> 0 then (None, cbs) else (Some out, cbs)))"

text \<open>The \<open>int\<close> out parameter: 0 or 1 from the element, or the caller's default as it is.\<close>

definition CBS_get_optional_asn1_bool :: "CBS \<Rightarrow> u32 \<Rightarrow> int \<Rightarrow> int option \<times> CBS" where
  "CBS_get_optional_asn1_bool cbs tag default_value = chk (CBS_get_optional_asn1 cbs tag) (\<lambda>child cbs.
     case child of
       None \<Rightarrow> (Some default_value, cbs)
     | Some child \<Rightarrow>
         (case CBS_get_asn1 child CBS_ASN1_BOOLEAN of
            (None, _) \<Rightarrow> (None, cbs)
          | (Some child2, child) \<Rightarrow>
              if CBS_len child2 \<noteq> 1 \<or> CBS_len child \<noteq> 0 then (None, cbs)
              else let boolean = CBS_data child2 ! 0
                   in if boolean = 0 then (Some 0, cbs)
                      else if boolean = 0xff then (Some 1, cbs)
                      else (None, cbs)))"

section \<open>Bit strings and object identifiers\<close>

definition CBS_is_valid_asn1_bitstring :: "CBS \<Rightarrow> bool" where
  "CBS_is_valid_asn1_bitstring cbs \<longleftrightarrow>
     (case CBS_get_u8 cbs of (None, _) \<Rightarrow> False | (Some num_unused_bits, in') \<Rightarrow>
      if num_unused_bits > 7 then False
      else if num_unused_bits = 0 then True
      else case CBS_get_last_u8 in' of (None, _) \<Rightarrow> False | (Some last_byte, _) \<Rightarrow>
        last_byte AND (push_bit (unat num_unused_bits) 1 - 1) = 0)"

definition CBS_asn1_bitstring_has_bit :: "CBS \<Rightarrow> u32 \<Rightarrow> bool" where
  "CBS_asn1_bitstring_has_bit cbs bt \<longleftrightarrow>
     (if \<not> CBS_is_valid_asn1_bitstring cbs then False
      else
        let byte_num = drop_bit 3 bt + 1;
            bit_num = 7 - (bt AND 7)
        in unat byte_num < CBS_len cbs \<and>
           CBS_data cbs ! unat byte_num AND push_bit (unat bit_num) 1 \<noteq> 0)"

text \<open>The loop over the bytes of the identifier, from the last byte seen.\<close>

fun valid_oid_loop :: "byte \<Rightarrow> CBS \<Rightarrow> bool" where
  "valid_oid_loop prev [] = (prev AND 0x80 = 0)"
| "valid_oid_loop prev (v # copy) =
     (if prev AND 0x80 = 0 \<and> v = 0x80 then False else valid_oid_loop v copy)"

definition CBS_is_valid_asn1_oid :: "CBS \<Rightarrow> bool" where
  "CBS_is_valid_asn1_oid cbs \<longleftrightarrow> (if CBS_len cbs = 0 then False else valid_oid_loop 0 cbs)"

section \<open>The encoding of a tag\<close>

text \<open>The identifier octets: low-tag-number form below 31, the base-128 form from 31 on.\<close>

definition der_tag :: "u32 \<Rightarrow> bytes" where
  "der_tag tag =
     (let tag_bits = (ucast (drop_bit CBS_ASN1_TAG_SHIFT tag) :: byte) AND 0xe0;
          tag_number = tag AND CBS_ASN1_TAG_NUMBER_MASK
      in if tag_number \<ge> 0x1f then (tag_bits OR 0x1f) # base128_enc (ucast tag_number)
         else [tag_bits OR ucast tag_number])"

text \<open>Every tag but \<open>[UNIVERSAL 0]\<close>, primitive or constructed, can be encoded.\<close>

definition valid_tag :: "u32 \<Rightarrow> bool" where
  "valid_tag tag \<longleftrightarrow> tag AND NOT CBS_ASN1_CONSTRUCTED \<noteq> 0"

lemma tag_number_mask: "CBS_ASN1_TAG_NUMBER_MASK = mask 29"
  by (simp add: CBS_ASN1_TAG_NUMBER_MASK_def CBS_ASN1_TAG_SHIFT_def mask_eq_exp_minus_1)

lemma e0_byte: "(0xe0 :: byte) = push_bit 5 (mask 3)"
  by (simp add: mask_eq_exp_minus_1)

lemma e0_u32: "(0xe0 :: u32) = push_bit 5 (mask 3)"
  by (simp add: mask_eq_exp_minus_1)

lemma x1f_byte: "(0x1f :: byte) = mask 5"
  by (simp add: mask_eq_exp_minus_1)

lemmas tag_masks = e0_byte e0_u32 x1f_byte

text \<open>The leading three bits and the 29 bits of the number make up a tag.\<close>

definition tag_class :: "u32 \<Rightarrow> byte" where
  "tag_class tag = ucast (drop_bit 24 tag) AND 0xe0"

definition tag_number :: "u32 \<Rightarrow> u32" where
  "tag_number tag = tag AND mask 29"

definition make_tag :: "byte \<Rightarrow> u32 \<Rightarrow> u32" where
  "make_tag b n = push_bit 24 (ucast b AND 0xe0) OR n"

lemma make_tag_split: "make_tag (tag_class tag OR (x AND 0x1f)) (tag_number tag) = tag"
  unfolding make_tag_def tag_class_def tag_number_def tag_masks
  by (rule bit_word_eqI) (auto simp: bit_simps bit_byte_high)

lemma take_bit_29_bit: "n AND mask 29 = n \<Longrightarrow> bit (n :: u32) k \<Longrightarrow> k < 29"
  by (metis bit_and_iff bit_mask_iff)

lemma tag_class_make_tag: "n AND mask 29 = n \<Longrightarrow> tag_class (make_tag b n) = b AND 0xe0"
  unfolding make_tag_def tag_class_def tag_masks
  by (rule bit_word_eqI) (auto simp: bit_simps bit_byte_high dest: take_bit_29_bit)

lemma tag_number_make_tag: "n AND mask 29 = n \<Longrightarrow> tag_number (make_tag b n) = n"
  unfolding make_tag_def tag_number_def tag_masks
  by (rule bit_word_eqI) (auto simp: bit_simps bit_byte_high dest: take_bit_29_bit)

lemma byte_split: "(b AND 0xe0) OR (b AND 0x1f) = (b :: byte)"
  unfolding tag_masks by (rule bit_word_eqI) (auto simp: bit_simps)

lemma byte_low: "((c AND 0xe0) OR (d AND 0x1f)) AND 0x1f = d AND (0x1f :: byte)"
  unfolding tag_masks by (rule bit_word_eqI) (auto simp: bit_simps)

lemma der_tag_eq:
  "der_tag tag =
     (if 31 \<le> tag_number tag
      then (tag_class tag OR (0x1f AND 0x1f)) # base128_enc (ucast (tag_number tag))
      else [tag_class tag OR ucast (tag_number tag)])"
  by (simp add: der_tag_def tag_class_def tag_number_def tag_number_mask CBS_ASN1_TAG_SHIFT_def Let_def)

definition finish_tag :: "byte \<Rightarrow> u32 \<Rightarrow> u32 reader" where
  "finish_tag b n cbs =
     (if valid_tag (make_tag b n) then (Some (make_tag b n), cbs) else (None, cbs))"

lemma unat_tag_number_mask: "unat (ucast CBS_ASN1_TAG_NUMBER_MASK :: u64) = 2 ^ 29 - 1"
  by (simp add: CBS_ASN1_TAG_NUMBER_MASK_def CBS_ASN1_TAG_SHIFT_def unat_ucast_up)

lemma parse_asn1_tag_Cons:
  "parse_asn1_tag (b # cbs) =
     (if b AND 0x1f = 0x1f
      then chk (parse_base128_integer cbs) (\<lambda>v cbs.
             if 31 \<le> unat v \<and> unat v < 2 ^ 29 then finish_tag b (ucast v) cbs else (None, cbs))
      else finish_tag b (ucast (b AND 0x1f)) cbs)"
proof -
  have "(ucast (b AND 0x1f) :: u32) = 0x1f \<longleftrightarrow> b AND 0x1f = 0x1f"
    by (simp add: word_unat_eq_iff unat_ucast_up)
  moreover have "(v > ucast CBS_ASN1_TAG_NUMBER_MASK \<or> v < 0x1f) \<longleftrightarrow> \<not> (31 \<le> unat v \<and> unat v < 2 ^ 29)" for v :: u64
    unfolding word_less_nat_alt unat_tag_number_mask by auto
  moreover obtain r t where "parse_base128_integer cbs = (r, t)"
    by (cases "parse_base128_integer cbs")
  ultimately show ?thesis
    by (cases r) (auto simp: parse_asn1_tag_def finish_tag_def make_tag_def valid_tag_def
        CBS_ASN1_TAG_SHIFT_def Let_def)
qed

lemma parse_asn1_tag_Nil: "parse_asn1_tag [] = (None, [])"
  by (simp add: parse_asn1_tag_def)

lemma unat_tag_number: "unat (tag_number tag) < 2 ^ 29"
proof -
  have "unat (tag_number tag) = unat tag mod 2 ^ 29"
    unfolding tag_number_def take_bit_eq_mask [symmetric] unsigned_take_bit_eq by (rule take_bit_eq_mod)
  then show ?thesis by simp
qed

lemma small_and_mask29: "unat (n :: u32) < 2 ^ 29 \<Longrightarrow> n AND mask 29 = n"
  by (simp add: word_unat_eq_iff unsigned_take_bit_eq take_bit_nat_eq_self flip: take_bit_eq_mask)

lemma small_and_1f: "unat (n :: byte) < 32 \<Longrightarrow> n AND 0x1f = n"
  unfolding x1f_byte
  by (simp add: word_unat_eq_iff unsigned_take_bit_eq take_bit_nat_eq_self flip: take_bit_eq_mask)

lemma unat_and_1f: "unat (b AND 0x1f :: byte) = unat b mod 32"
  unfolding x1f_byte take_bit_eq_mask [symmetric] unsigned_take_bit_eq by (simp add: take_bit_eq_mod)

lemma parse_asn1_tag_enc:
  assumes "valid_tag tag"
  shows "parse_asn1_tag (der_tag tag @ rest) = (Some tag, rest)"
proof (cases "31 \<le> tag_number tag")
  case True
  let ?b = "tag_class tag OR (0x1f AND 0x1f)"
  have b: "?b AND 0x1f = 0x1f"
    unfolding tag_class_def byte_low by simp
  have n: "31 \<le> unat (ucast (tag_number tag) :: u64)" "unat (ucast (tag_number tag) :: u64) < 2 ^ 29"
    using True unat_tag_number [of tag] by (simp_all add: unat_ucast_up word_le_nat_alt)
  have "(ucast (ucast (tag_number tag) :: u64) :: u32) = tag_number tag"
    using unat_tag_number [of tag] by (simp add: word_unat_eq_iff unat_ucast_down)
  then have "finish_tag ?b (ucast (ucast (tag_number tag) :: u64)) rest = (Some tag, rest)"
    unfolding finish_tag_def using assms make_tag_split [of tag "0x1f"] by simp
  then show ?thesis
    using True b n by (simp add: der_tag_eq parse_asn1_tag_Cons parse_base128_enc)
next
  case False
  let ?n = "ucast (tag_number tag) :: byte"
  have un: "unat (tag_number tag) < 31"
    using False by (simp add: word_le_nat_alt)
  then have n: "unat ?n = unat (tag_number tag)"
    by (simp add: unat_ucast_down)
  then have n1: "?n AND 0x1f = ?n"
    using un by (intro small_and_1f) simp
  then have b: "(tag_class tag OR ?n) AND 0x1f = ?n"
    unfolding tag_class_def by (metis byte_low)
  moreover have "?n \<noteq> 0x1f"
    using n un by auto
  moreover have "(ucast ?n :: u32) = tag_number tag"
    by (simp add: word_unat_eq_iff unat_ucast_up n del: unat_ucast_down)
  then have "finish_tag (tag_class tag OR ?n) (ucast ?n) rest = (Some tag, rest)"
    unfolding finish_tag_def using assms make_tag_split [of tag ?n] n1 by simp
  ultimately show ?thesis
    using False by (simp add: der_tag_eq parse_asn1_tag_Cons)
qed

lemma parse_asn1_tag_canonical:
  assumes "parse_asn1_tag s = (Some tag, s')"
  shows "valid_tag tag \<and> s = der_tag tag @ s'"
proof (cases s)
  case Nil
  with assms show ?thesis by (simp add: parse_asn1_tag_Nil)
next
  case (Cons b cbs)
  show ?thesis
  proof (cases "b AND 0x1f = 0x1f")
    case True
    with assms Cons obtain v where v: "parse_base128_integer cbs = (Some v, s')"
        "31 \<le> unat v" "unat v < 2 ^ 29"
      and tag: "tag = make_tag b (ucast v)" "valid_tag tag"
      by (auto simp: parse_asn1_tag_Cons chk_Some_iff finish_tag_def split: if_splits)
    have u: "unat (ucast v :: u32) = unat v"
      using v by (simp add: unat_ucast_down)
    then have m: "(ucast v :: u32) AND mask 29 = ucast v"
      using v by (intro small_and_mask29) simp
    have "tag_number tag = ucast v" "tag_class tag = b AND 0xe0"
      unfolding tag(1) by (rule tag_number_make_tag [OF m], rule tag_class_make_tag [OF m])
    moreover have "(ucast (ucast v :: u32) :: u64) = v"
      by (simp add: word_unat_eq_iff unat_ucast_up u del: unat_ucast_down)
    moreover have "31 \<le> (ucast v :: u32)"
      using v u by (simp add: word_le_nat_alt)
    moreover have "b = (b AND 0xe0) OR (0x1f AND 0x1f)"
      using byte_split [of b] True by simp
    ultimately have "der_tag tag = b # base128_enc v"
      by (simp add: der_tag_eq)
    with parse_base128_canonical [OF v(1)] Cons tag(2) show ?thesis by simp
  next
    case False
    let ?n = "b AND 0x1f"
    have un: "unat ?n < 31"
    proof -
      have "unat ?n \<noteq> 31"
        using False by (simp add: word_unat_eq_iff)
      moreover have "unat ?n < 32"
        unfolding unat_and_1f by simp
      ultimately show ?thesis by linarith
    qed
    from False assms Cons have tag: "tag = make_tag b (ucast ?n)" "valid_tag tag" "s' = cbs"
      by (auto simp: parse_asn1_tag_Cons finish_tag_def split: if_splits)
    have m: "(ucast ?n :: u32) AND mask 29 = ucast ?n"
      using un by (intro small_and_mask29) (simp add: unat_ucast_up)
    have "tag_number tag = ucast ?n" "tag_class tag = b AND 0xe0"
      unfolding tag(1) by (rule tag_number_make_tag [OF m], rule tag_class_make_tag [OF m])
    moreover have "\<not> 31 \<le> (ucast ?n :: u32)"
      using un by (simp add: word_le_nat_alt unat_ucast_up)
    moreover have "(ucast (ucast ?n :: u32) :: byte) = ?n"
      using un by (simp add: word_unat_eq_iff unat_ucast_down)
    ultimately have "der_tag tag = [(b AND 0xe0) OR ?n]"
      by (simp add: der_tag_eq)
    with tag Cons show ?thesis by (simp add: byte_split)
  qed
qed

lemma finish_tag_state: "finish_tag b n cbs = (r, s') \<Longrightarrow> s' = cbs"
  by (auto simp: finish_tag_def split: if_splits)

lemma parse_asn1_tag_suffix: "parse_asn1_tag s = (r, s') \<Longrightarrow> suffix s' s"
proof (cases s)
  case (Cons b cbs)
  moreover assume "parse_asn1_tag s = (r, s')"
  moreover obtain v t where v: "parse_base128_integer cbs = (v, t)"
    by (cases "parse_base128_integer cbs")
  moreover have "suffix t cbs"
    using base128.rd_suffix [OF v] .
  ultimately show ?thesis
    by (cases v) (auto simp: parse_asn1_tag_Cons suffix_Cons dest: finish_tag_state split: if_splits)
qed (simp add: parse_asn1_tag_Nil)

lemma der_tag_nonempty [simp]: "der_tag tag \<noteq> []"
  by (simp add: der_tag_eq)

interpretation asn1_tag: canonical_codec parse_asn1_tag der_tag valid_tag
proof
  show "length s' < length s" if "parse_asn1_tag s = (Some x, s')" for s s' x
    using parse_asn1_tag_canonical [OF that] by simp
qed (simp_all add: parse_asn1_tag_suffix parse_asn1_tag_enc parse_asn1_tag_canonical)

section \<open>The encoding of a length\<close>

text \<open>The number of bytes of a length that does not fit the short form.\<close>

definition length_bytes :: "nat \<Rightarrow> nat" where
  "length_bytes n = (if n \<le> 0xff then 1 else if n \<le> 0xffff then 2 else if n \<le> 0xffffff then 3 else 4)"

definition der_length :: "nat \<Rightarrow> bytes" where
  "der_length n =
     (if n \<le> 0x7f then [word_of_nat n]
      else word_of_nat (128 + length_bytes n) # be_bytes (length_bytes n) n)"

text \<open>What the element reader does with the length octets, in numbers.\<close>

definition read_der_length :: "nat reader" where
  "read_der_length s =
     (case s of
        [] \<Rightarrow> (None, s)
      | l # h \<Rightarrow>
          if unat l < 128 then (Some (unat l), h)
          else let k = unat l - 128; n = be_val (take k h)
               in if k = 0 \<or> 4 < k \<or> length h < k \<or> n < 128 \<or> n < 256 ^ (k - 1) then (None, s)
                  else (Some n, drop k h))"

lemma length_bytes_bounds: "1 \<le> length_bytes n" "length_bytes n \<le> 4"
  by (simp_all add: length_bytes_def)

lemma length_bytes_fits: "n < 2 ^ 32 \<Longrightarrow> n < 256 ^ length_bytes n"
  by (simp add: length_bytes_def)

lemma length_bytes_minimal: "128 \<le> n \<Longrightarrow> 256 ^ (length_bytes n - 1) \<le> n"
  by (simp add: length_bytes_def)

lemma length_bytes_unique:
  assumes "128 \<le> n" "256 ^ (k - 1) \<le> n" "n < 256 ^ k" "1 \<le> k" "k \<le> 4"
  shows "length_bytes n = k"
proof -
  from assms(4,5) consider "k = 1" | "k = 2" | "k = 3" | "k = 4" by linarith
  then show ?thesis
    by cases (use assms(1-3) in \<open>simp_all add: length_bytes_def\<close>)
qed

lemma read_der_length_enc:
  assumes "n < 2 ^ 32"
  shows "read_der_length (der_length n @ rest) = (Some n, rest)"
proof (cases "n \<le> 0x7f")
  case True
  then have "unat (word_of_nat n :: byte) = n"
    by (intro unat_word_of_nat_small) simp
  with True show ?thesis by (simp add: read_der_length_def der_length_def)
next
  case False
  let ?k = "length_bytes n"
  have "unat (word_of_nat (128 + ?k) :: byte) = 128 + ?k"
    using length_bytes_bounds [of n] by (intro unat_word_of_nat_small) simp
  moreover have "\<not> n < 256 ^ (?k - 1)"
    using False length_bytes_minimal [of n] by simp
  moreover have "be_val (be_bytes ?k n) = n"
    by (rule be_val_be_bytes) (rule length_bytes_fits [OF assms])
  ultimately show ?thesis
    using False length_bytes_bounds [of n]
    by (simp add: read_der_length_def der_length_def Let_def del: of_nat_add)
qed

lemma read_der_length_canonical:
  assumes "read_der_length s = (Some n, s')"
  shows "n < 2 ^ 32 \<and> s = der_length n @ s'"
proof -
  from assms obtain l h where s: "s = l # h"
    by (cases s) (auto simp: read_der_length_def)
  show ?thesis
  proof (cases "unat l < 128")
    case True
    with assms s have "n = unat l" "s' = h"
      by (auto simp: read_der_length_def)
    with True s show ?thesis by (simp add: der_length_def)
  next
    case False
    let ?k = "unat l - 128"
    from False assms s have k: "1 \<le> ?k" "?k \<le> 4" "?k \<le> length h"
      and n: "n = be_val (take ?k h)" "128 \<le> n" "256 ^ (?k - 1) \<le> n" and s': "s' = drop ?k h"
      by (auto simp: read_der_length_def Let_def split: if_splits)
    have lt: "n < 256 ^ ?k"
      using be_val_less [of "take ?k h"] k n(1) by simp
    then have "length_bytes n = ?k"
      using n k by (intro length_bytes_unique) simp_all
    moreover have "be_bytes ?k n = take ?k h"
      unfolding n(1) using k by (intro be_bytes_be_val') simp
    moreover have "word_of_nat (128 + ?k) = l"
      using False by simp
    moreover have "n < 2 ^ 32"
    proof -
      have "(256 :: nat) ^ ?k \<le> 256 ^ 4"
        using k by (intro power_increasing) simp_all
      with lt show ?thesis by simp
    qed
    ultimately show ?thesis
      using n s s' by (simp add: der_length_def del: of_nat_add)
  qed
qed

interpretation der_len: canonical_codec read_der_length der_length "\<lambda>n. n < 2 ^ 32"
proof
  show "suffix s' s" if "read_der_length s = (r, s')" for s s' r
    using that by (auto simp: read_der_length_def Let_def suffix_drop suffix_ConsI
        split: list.splits if_splits)
  show "length s' < length s" if "read_der_length s = (Some x, s')" for s s' x
    using read_der_length_canonical [OF that] by (simp add: der_length_def)
qed (use read_der_length_enc read_der_length_canonical in auto)

section \<open>DER elements\<close>

definition der_element :: "u32 \<Rightarrow> bytes \<Rightarrow> bytes" where
  "der_element tag body = der_tag tag @ der_length (length body) @ body"

lemma base128_groups_length: "n < 128 ^ k \<Longrightarrow> length (base128_groups n) \<le> k"
proof (induction k arbitrary: n)
  case 0
  then show ?case by (simp add: base128_groups.simps)
next
  case (Suc k)
  then have "n div 128 < 128 ^ k"
    by (simp add: less_mult_imp_div_less mult.commute)
  with Suc.IH show ?case by (subst base128_groups.simps) simp
qed

lemma der_tag_length: "length (der_tag tag) \<le> 11"
proof -
  have "unat (v :: u64) div 128 < 128 ^ 9" for v
    using unat_u64_less [of v] by simp
  then have "length (base128_enc v) \<le> 10" for v
    using base128_groups_length by (simp add: base128_enc_def)
  then show ?thesis by (simp add: der_tag_eq le_SucI)
qed

text \<open>
  In DER mode the reader is: a tag, the length octets, and then as many bytes as header and body
  take. The overflow checks of the code never fire, because the header is short.
\<close>

definition get_element :: "bytes \<Rightarrow> u32 \<Rightarrow> nat \<Rightarrow> nat \<Rightarrow> asn1_element option \<times> bytes" where
  "get_element cbs tag len header_len =
     (if length cbs < len then (None, cbs)
      else (Some \<lparr>elt_out = take len cbs, elt_tag = tag, elt_header_len = header_len,
              elt_ber_found = False, elt_indefinite = False\<rparr>, drop len cbs))"

lemma CBS_get_any_asn1_element_eq:
  "CBS_get_any_asn1_element s =
    (case parse_asn1_tag s of
       (None, _) \<Rightarrow> (None, s)
     | (Some tag, h) \<Rightarrow>
        (case read_der_length h of
           (None, _) \<Rightarrow> (None, s)
         | (Some n, h') \<Rightarrow>
             let header_len = length s - length h' in get_element s tag (n + header_len) header_len))"
proof (cases "fst (parse_asn1_tag s)")
  case None
  then show ?thesis
    by (auto simp: CBS_get_any_asn1_element_def cbs_get_any_asn1_element_def split: prod.splits)
next
  case (Some tag)
  then obtain h where tag: "parse_asn1_tag s = (Some tag, h)"
    by (cases "parse_asn1_tag s") auto
  then have s: "s = der_tag tag @ h"
    using asn1_tag.rd_canonical by blast
  show ?thesis
  proof (cases h)
    case Nil
    with tag show ?thesis
      by (simp add: CBS_get_any_asn1_element_def cbs_get_any_asn1_element_def read_der_length_def)
  next
    case (Cons l r)
    note defs = CBS_get_any_asn1_element_def cbs_get_any_asn1_element_def read_der_length_def
      CBS_get_bytes_eq get_element_def CBS_len_def
    show ?thesis
    proof (cases "unat l < 128")
      case True
      then have "l AND 0x80 = 0"
        using byte_top_bit [of l] by simp
      with True tag Cons show ?thesis
        by (simp add: defs Let_def)
    next
      case False
      let ?k = "unat l - 128"
      have top: "l AND 0x80 \<noteq> 0"
        using False byte_top_bit [of l] by simp
      have k: "unat (l AND 0x7f) = ?k"
      proof -
        have "unat (l AND 0x7f) = unat l mod 128"
        proof -
          have eq: "(0x7f :: byte) = mask 7" by (simp add: mask_eq_exp_minus_1)
          show ?thesis
            unfolding eq take_bit_eq_mask [symmetric] unsigned_take_bit_eq by (simp add: take_bit_eq_mod)
        qed
        then show ?thesis
          using False unat_byte_less [of l] by (simp add: mod_if [of "unat l" 128] del: unat_byte_less)
      qed
      show ?thesis
      proof (cases "?k = 0 \<or> 4 < ?k \<or> length r < ?k")
        case True
        then show ?thesis
          using tag Cons False top k by (auto simp: defs Let_def cbs_get_u_eq)
      next
        case in_range: False
        let ?n = "be_val (take ?k r)"
        have "?n < 256 ^ ?k"
          using be_val_less [of "take ?k r"] in_range by simp
        also have "\<dots> \<le> 256 ^ 4"
          using in_range by (intro power_increasing) simp_all
        finally have n: "?n < 2 ^ 32" by simp
        then have un: "unat (word_of_nat ?n :: u64) = ?n"
          by (intro unat_word_of_nat_small) simp
        have short: "(word_of_nat ?n :: u64) < 128 \<longleftrightarrow> ?n < 128"
          by (simp add: word_less_nat_alt un)
        have zero: "drop_bit ((?k - 1) * 8) (word_of_nat ?n :: u64) = 0 \<longleftrightarrow> ?n < 256 ^ (?k - 1)"
        proof -
          have "unat (drop_bit ((?k - 1) * 8) (word_of_nat ?n :: u64)) = ?n div 256 ^ (?k - 1)"
            unfolding unat_drop_bit_eq un by (simp add: drop_bit_eq_div power_mult mult.commute [of _ 8])
          then have "unat (drop_bit ((?k - 1) * 8) (word_of_nat ?n :: u64)) = 0 \<longleftrightarrow> ?n < 256 ^ (?k - 1)"
            by (simp add: div_eq_0_iff)
          then show ?thesis by (simp add: unat_eq_zero)
        qed
        have hl: "length s - length r = length (der_tag tag) + 1"
          using s Cons by simp
        have sums: "size_add (size_add ?n (length s - length r)) ?k = ?n + (length s - length r) + ?k"
          "size_add ?n (size_add (length s - length r) ?k) = ?n + (length s - length r) + ?k"
        proof -
          have "?k \<le> 4"
            using in_range by linarith
          then have "?n + (length s - length r) + ?k < 2 ^ 32 + 12 + 4"
            using n der_tag_length [of tag] unfolding hl by linarith
          then have "?n + (length s - length r) + ?k < SIZE_MOD"
            by (rule order.strict_trans) (simp add: SIZE_MOD_def)
          then show "size_add (size_add ?n (length s - length r)) ?k = ?n + (length s - length r) + ?k"
            "size_add ?n (size_add (length s - length r) ?k) = ?n + (length s - length r) + ?k"
            by (rule size_add_exact_3)+
        qed
        have len: "length s - length (drop ?k r) = length s - length r + ?k"
        proof -
          have "length r \<le> length s"
            using s Cons by simp
          moreover have "?k \<le> length r"
            using in_range by linarith
          ultimately show ?thesis
            unfolding length_drop by linarith
        qed
        show ?thesis
        proof -
          define m where "m = ?k"
          define n where "n = ?n"
          define hl where "hl = length s - length r"
          have m: "m \<noteq> 0" "\<not> 4 < m" "\<not> length r < m" "\<not> unat l < 128" "m \<le> 8"
            using in_range False unfolding m_def by linarith+
          note f = un [folded n_def [unfolded m_def]] short [folded n_def [unfolded m_def]]
            zero [folded m_def] sums [folded m_def hl_def] len [folded m_def hl_def]
          have n_eq: "be_val (take m r) = n"
            by (simp add: m_def n_def)
          note f' = f [unfolded n_eq]
          show ?thesis
            unfolding CBS_get_any_asn1_element_def cbs_get_any_asn1_element_def read_der_length_def
            using f' m top k [folded m_def] tag Cons
            by (simp add: CBS_get_bytes_eq get_element_def CBS_len_def Let_def cbs_get_u_eq n_eq
                hl_def [symmetric] m_def [symmetric] add.assoc del: length_drop)
        qed
      qed
    qed
  qed
qed

lemma der_element_read:
  assumes "valid_tag tag" "length body < 2 ^ 32"
  shows "CBS_get_any_asn1_element (der_element tag body @ rest) =
    (Some \<lparr>elt_out = der_element tag body, elt_tag = tag,
       elt_header_len = length (der_tag tag) + length (der_length (length body)),
       elt_ber_found = False, elt_indefinite = False\<rparr>, rest)"
  using assms
  by (simp add: CBS_get_any_asn1_element_eq der_element_def asn1_tag.rd_enc der_len.rd_enc Let_def
      get_element_def)

lemma der_element_canonical:
  assumes "CBS_get_any_asn1_element s = (Some e, s')"
  shows "\<exists>body. s = elt_out e @ s' \<and> elt_out e = der_element (elt_tag e) body \<and>
    elt_header_len e = length (der_tag (elt_tag e)) + length (der_length (length body)) \<and>
    valid_tag (elt_tag e) \<and> length body < 2 ^ 32 \<and> \<not> elt_ber_found e \<and> \<not> elt_indefinite e"
proof -
  from assms obtain tag h n h' where
    tag: "parse_asn1_tag s = (Some tag, h)" and len: "read_der_length h = (Some n, h')"
    and e: "get_element s tag (n + (length s - length h')) (length s - length h') = (Some e, s')"
    by (auto simp: CBS_get_any_asn1_element_eq Let_def split: prod.splits option.splits)
  have s: "s = der_tag tag @ der_length n @ h'" and valid: "valid_tag tag" "n < 2 ^ 32"
    using asn1_tag.rd_canonical [OF tag] der_len.rd_canonical [OF len] by auto
  let ?hl = "length (der_tag tag) + length (der_length n)"
  have hl: "length s - length h' = ?hl"
    using s by simp
  from e have ok: "n + ?hl \<le> length s" and out: "elt_out e = take (n + ?hl) s" "s' = drop (n + ?hl) s"
      and f: "elt_tag e = tag" "elt_header_len e = ?hl" "\<not> elt_ber_found e" "\<not> elt_indefinite e"
    unfolding hl by (auto simp: get_element_def split: if_splits)
  let ?body = "take n h'"
  from ok s have body: "length ?body = n" by simp
  have "take (n + ?hl) s = der_tag tag @ der_length n @ ?body"
    using s by simp
  then have "elt_out e = der_element tag ?body"
    using out body by (simp add: der_element_def)
  moreover have "s = elt_out e @ s'"
    unfolding out by (rule append_take_drop_id [symmetric])
  ultimately show ?thesis
    using f valid body by (intro exI [of _ ?body]) auto
qed

lemma element_suffix: "CBS_get_any_asn1_element s = (r, s') \<Longrightarrow> suffix s' s"
  by (auto simp: CBS_get_any_asn1_element_eq get_element_def Let_def suffix_drop
      split: prod.splits option.splits if_splits)

lemma CBS_get_any_asn1_alt:
  "CBS_get_any_asn1 s = chk (CBS_get_any_asn1_element s) (\<lambda>e cbs.
     if length (elt_out e) < elt_header_len e then (None, cbs)
     else (Some (drop (elt_header_len e) (elt_out e), elt_tag e), cbs))"
proof -
  obtain r t where "CBS_get_any_asn1_element s = (r, t)"
    by (cases "CBS_get_any_asn1_element s")
  then show ?thesis
    by (cases r) (simp_all add: CBS_get_any_asn1_def CBS_skip_eq)
qed

lemma CBS_get_asn1_alt:
  "CBS_get_asn1 s tag = chk (CBS_get_any_asn1_element s) (\<lambda>e cbs.
     if elt_tag e \<noteq> tag \<or> length (elt_out e) < elt_header_len e then (None, cbs)
     else (Some (drop (elt_header_len e) (elt_out e)), cbs))"
proof -
  obtain r t where "CBS_get_any_asn1_element s = (r, t)"
    by (cases "CBS_get_any_asn1_element s")
  then show ?thesis
    by (cases r) (simp_all add: CBS_get_asn1_def cbs_get_asn1_def CBS_skip_eq)
qed

text \<open>The reader of a tag and a body: one value, one encoding.\<close>

definition valid_element :: "bytes \<times> u32 \<Rightarrow> bool" where
  "valid_element x \<longleftrightarrow> valid_tag (snd x) \<and> length (fst x) < 2 ^ 32"

lemma CBS_get_any_asn1_enc:
  "valid_element x \<Longrightarrow> CBS_get_any_asn1 (der_element (snd x) (fst x) @ rest) = (Some x, rest)"
  by (cases x) (auto simp: valid_element_def CBS_get_any_asn1_alt der_element_read,
      auto simp: der_element_def)

lemma CBS_get_any_asn1_canonical:
  assumes "CBS_get_any_asn1 s = (Some x, s')"
  shows "valid_element x \<and> s = der_element (snd x) (fst x) @ s'"
proof -
  from assms obtain e out where e: "CBS_get_any_asn1_element s = (Some e, s')"
    and out: "elt_header_len e \<le> length (elt_out e)" "out = drop (elt_header_len e) (elt_out e)"
    and x: "x = (out, elt_tag e)"
    by (auto simp: CBS_get_any_asn1_alt chk_Some_iff split: if_splits)
  from der_element_canonical [OF e] obtain body where
    "s = elt_out e @ s'" "elt_out e = der_element (elt_tag e) body"
    "elt_header_len e = length (der_tag (elt_tag e)) + length (der_length (length body))"
    "valid_tag (elt_tag e)" "length body < 2 ^ 32"
    by auto
  moreover from this out have "out = body"
    by (simp add: der_element_def)
  ultimately show ?thesis using x by (simp add: valid_element_def)
qed

lemma CBS_get_any_asn1_suffix: "CBS_get_any_asn1 s = (r, s') \<Longrightarrow> suffix s' s"
proof -
  assume *: "CBS_get_any_asn1 s = (r, s')"
  obtain e t where e: "CBS_get_any_asn1_element s = (e, t)"
    by (cases "CBS_get_any_asn1_element s")
  with * have "s' = t"
    by (cases e) (auto simp: CBS_get_any_asn1_alt split: if_splits)
  with element_suffix [OF e] show ?thesis by simp
qed

interpretation element: canonical_codec CBS_get_any_asn1 "\<lambda>x. der_element (snd x) (fst x)" valid_element
proof
  show "length s' < length s" if "CBS_get_any_asn1 s = (Some x, s')" for s s' x
    using CBS_get_any_asn1_canonical [OF that] by (simp add: der_element_def)
qed (use CBS_get_any_asn1_enc CBS_get_any_asn1_canonical CBS_get_any_asn1_suffix in auto)

lemma CBS_get_asn1_Some:
  "CBS_get_asn1 s tag = (Some body, s') \<longleftrightarrow>
   valid_tag tag \<and> length body < 2 ^ 32 \<and> s = der_element tag body @ s'"
proof -
  have "CBS_get_asn1 s tag = (Some body, s') \<longleftrightarrow> CBS_get_any_asn1 s = (Some (body, tag), s')"
    by (auto simp: CBS_get_asn1_alt CBS_get_any_asn1_alt chk_Some_iff split: if_splits)
  then show ?thesis
    by (auto simp: element.rd_iff valid_element_def)
qed

section \<open>The value of an integer body\<close>

text \<open>
  The specification of the contents of an INTEGER: big-endian two's complement, in the fewest bytes
  that hold the value. \<open>tc_fits n x\<close>: \<open>n\<close> bytes can hold \<open>x\<close>.
\<close>

definition tc_val :: "bytes \<Rightarrow> int" where
  "tc_val bs = int (be_val bs) - (if bs \<noteq> [] \<and> 128 \<le> unat (hd bs) then 256 ^ length bs else 0)"

definition tc_fits :: "nat \<Rightarrow> int \<Rightarrow> bool" where
  "tc_fits n x \<longleftrightarrow> - (256 ^ n) \<le> 2 * x \<and> 2 * x < 256 ^ n"

definition minimal_int :: "bytes \<Rightarrow> bool" where
  "minimal_int bs \<longleftrightarrow> bs \<noteq> [] \<and> (2 \<le> length bs \<longrightarrow> \<not> tc_fits (length bs - 1) (tc_val bs))"

text \<open>The leading byte as a digit of weight \<open>256 ^ n\<close>, between -128 and 127.\<close>

definition tc_digit :: "byte \<Rightarrow> int" where
  "tc_digit b = (if 128 \<le> unat b then int (unat b) - 256 else int (unat b))"

lemma tc_digit_bounds: "- 128 \<le> tc_digit b" "tc_digit b \<le> 127"
proof -
  have "128 \<le> unat b \<Longrightarrow> 128 \<le> int (unat b)" "int (unat b) < 256"
    using unat_byte_less [of b] by linarith+
  then show "- 128 \<le> tc_digit b" "tc_digit b \<le> 127"
    by (cases "128 \<le> unat b"; simp only: tc_digit_def if_True if_False; linarith)+
qed

lemma tc_val_Cons: "tc_val (b # r) = tc_digit b * 256 ^ length r + int (be_val r)"
  by (simp add: tc_val_def tc_digit_def be_val_Cons algebra_simps)

lemma be_val_bounds: "0 \<le> int (be_val r)" "int (be_val r) < 256 ^ length r"
  using be_val_less [of r] by (simp_all del: of_nat_power add: of_nat_power [symmetric])

lemma tc_fits_length: "bs \<noteq> [] \<Longrightarrow> tc_fits (length bs) (tc_val bs)"
proof (cases bs)
  case (Cons b r)
  have "- 128 * 256 ^ length r \<le> tc_digit b * 256 ^ length r"
    "tc_digit b * 256 ^ length r \<le> 127 * 256 ^ length r"
    by (rule mult_right_mono, rule tc_digit_bounds, simp)+
  with be_val_bounds [of r] have
    "- (256 * 256 ^ length r) \<le> 2 * (tc_digit b * 256 ^ length r + int (be_val r)) \<and>
     2 * (tc_digit b * 256 ^ length r + int (be_val r)) < 256 * 256 ^ length r"
    unfolding distrib_left by linarith
  with Cons show ?thesis
    by (simp add: tc_fits_def tc_val_Cons)
qed simp

lemma tc_fits_shorter:
  "tc_fits (Suc (length r)) (tc_val (b # c # r)) \<longleftrightarrow>
   b = 0 \<and> unat c < 128 \<or> b = 0xff \<and> 128 \<le> unat c"
proof -
  define P :: int where "P = 256 ^ length r"
  define e where "e = tc_digit b"
  define y where "y = int (unat c) * P + int (be_val r)"
  have P: "0 < P" by (simp add: P_def)
  have r: "0 \<le> int (be_val r)" "int (be_val r) < P"
    using be_val_bounds [of r] by (simp_all add: P_def)
  have c: "0 \<le> int (unat c) * P" "int (unat c) * P \<le> 255 * P"
  proof -
    show "0 \<le> int (unat c) * P"
      using P by simp
    show "int (unat c) * P \<le> 255 * P"
      by (rule mult_right_mono) (use unat_byte_less [of c] P in linarith)+
  qed
  have y: "0 \<le> y" "y < 256 * P"
    using r c unfolding y_def by linarith+
  have low: "y < 128 * P \<longleftrightarrow> unat c < 128"
  proof (cases "unat c < 128")
    case True
    then have "int (unat c) * P \<le> 127 * P"
      using P by (intro mult_right_mono) linarith+
    with True r show ?thesis unfolding y_def by linarith
  next
    case False
    then have "128 * P \<le> int (unat c) * P"
      using P by (intro mult_right_mono) linarith+
    with False r show ?thesis unfolding y_def by linarith
  qed
  define z where "z = e * (256 * P)"
  define in_range where "in_range \<longleftrightarrow> - (256 * P) \<le> 2 * (z + y) \<and> 2 * (z + y) < 256 * P"
  have fits: "tc_fits (Suc (length r)) (tc_val (b # c # r)) \<longleftrightarrow> in_range"
    by (simp add: tc_fits_def tc_val_Cons be_val_Cons in_range_def z_def e_def y_def P_def algebra_simps)
  consider "1 \<le> e" | "e = 0" | "e = - 1" | "e \<le> - 2" by linarith
  then have "in_range \<longleftrightarrow> e = 0 \<and> y < 128 * P \<or> e = - 1 \<and> \<not> y < 128 * P"
  proof cases
    case 1
    then have "1 * (256 * P) \<le> z"
      unfolding z_def using P by (intro mult_right_mono) simp_all
    with y have "\<not> in_range" by (simp add: in_range_def)
    with 1 show ?thesis by simp
  next
    case 4
    then have "z \<le> - 2 * (256 * P)"
      unfolding z_def using P by (intro mult_right_mono) simp_all
    with y P have "\<not> in_range" by (simp add: in_range_def)
    with 4 show ?thesis by simp
  qed (use y P in \<open>auto simp: in_range_def z_def\<close>)
  moreover have "e = 0 \<longleftrightarrow> b = 0" "e = - 1 \<longleftrightarrow> b = 0xff"
  proof -
    define u where "u = unat b"
    have "b = 0 \<longleftrightarrow> u = 0" "b = 0xff \<longleftrightarrow> u = 255" "u < 256"
      by (simp_all add: word_unat_eq_iff u_def)
    then show "e = 0 \<longleftrightarrow> b = 0" "e = - 1 \<longleftrightarrow> b = 0xff"
      unfolding e_def tc_digit_def u_def [symmetric] by auto
  qed
  ultimately show ?thesis
    using fits low by auto
qed

lemma tc_val_neg: "bs \<noteq> [] \<Longrightarrow> tc_val bs < 0 \<longleftrightarrow> 128 \<le> unat (hd bs)"
  using be_val_bounds [of bs] by (auto simp: tc_val_def)

lemma CBS_is_valid_asn1_integer_eq:
  "CBS_is_valid_asn1_integer bs = (if minimal_int bs then Some (tc_val bs < 0) else None)"
proof (cases bs)
  case Nil
  then show ?thesis by (simp add: CBS_is_valid_asn1_integer_def minimal_int_def)
next
  case (Cons b r)
  show ?thesis
  proof (cases r)
    case Nil
    with Cons byte_top_bit [of b] show ?thesis
      by (simp add: CBS_is_valid_asn1_integer_def minimal_int_def tc_val_neg)
  next
    case (Cons c t)
    with \<open>bs = b # r\<close> byte_top_bit [of b] byte_top_bit [of c] show ?thesis
      by (auto simp: CBS_is_valid_asn1_integer_def minimal_int_def tc_val_neg tc_fits_shorter)
  qed
qed

text \<open>Two minimal bodies of the same value are the same.\<close>

lemma tc_val_inject:
  assumes "length as = length bs" "tc_val as = tc_val bs"
  shows "as = bs"
proof (cases as)
  case Nil
  with assms show ?thesis by simp
next
  case (Cons a r)
  with assms(1) obtain b t where bs: "bs = b # t" "length r = length t"
    by (cases bs) auto
  have "int (be_val as) mod 256 ^ length as = int (be_val bs) mod 256 ^ length as"
    using assms by (simp add: tc_val_def split: if_splits) (auto simp: mod_simps algebra_simps)
  then have "be_val as = be_val bs"
    using be_val_bounds [of as] be_val_bounds [of bs] assms(1) by simp
  then show ?thesis
    using assms(1) by (rule be_val_inject [rotated])
qed

lemma tc_fits_mono: "m \<le> n \<Longrightarrow> tc_fits m x \<Longrightarrow> tc_fits n x"
proof -
  assume "m \<le> n" "tc_fits m x"
  moreover from this have "(256 :: int) ^ m \<le> 256 ^ n"
    by (intro power_increasing) simp_all
  ultimately show ?thesis
    unfolding tc_fits_def by linarith
qed

lemma minimal_int_unique:
  assumes "minimal_int as" "minimal_int bs" "tc_val as = tc_val bs"
  shows "as = bs"
proof -
  have "\<not> length as < length bs" if "minimal_int as" "minimal_int bs" "tc_val as = tc_val bs" for as bs
  proof
    assume less: "length as < length bs"
    have "tc_fits (length as) (tc_val bs)"
      using tc_fits_length [of as] that by (simp add: minimal_int_def)
    then have "tc_fits (length bs - 1) (tc_val bs)"
      by (rule tc_fits_mono [rotated]) (use less in linarith)
    moreover have "2 \<le> length bs"
      using less that(1) by (cases as) (auto simp: minimal_int_def)
    ultimately show False
      using that(2) by (simp add: minimal_int_def)
  qed
  from this [OF assms] this [OF assms(2,1) assms(3) [symmetric]] have "length as = length bs"
    by linarith
  with assms(3) show ?thesis by (rule tc_val_inject [rotated])
qed

section \<open>What the typed reads accept\<close>

lemma drop_bit_56_eq_0: "drop_bit 56 (v :: u64) = 0 \<longleftrightarrow> unat v < 2 ^ 56"
proof -
  have "unat (drop_bit 56 v) = unat v div 2 ^ 56"
    unfolding unat_drop_bit_eq by (simp add: drop_bit_eq_div)
  then have "unat (drop_bit 56 v) = 0 \<longleftrightarrow> unat v < 2 ^ 56"
    by (simp add: div_eq_0_iff)
  then show ?thesis
    by (simp add: unat_eq_zero)
qed

lemma asn1_uint64_loop_eq:
  "asn1_uint64_loop out data =
    (let n = unat out * 256 ^ length data + be_val data
     in if n < 2 ^ 64 then Some (word_of_nat n) else None)"
proof (induction data arbitrary: out)
  case Nil
  then show ?case using unat_u64_less [of out] by simp
next
  case (Cons b data)
  show ?case
  proof (cases "unat out < 2 ^ 56")
    case True
    then have "unat (push_bit 8 out OR ucast b) * 256 ^ length data + be_val data =
        unat out * 256 ^ length (b # data) + be_val (b # data)"
      unfolding unat_shift8_or [OF True] by (simp add: be_val_Cons algebra_simps)
    with True Cons.IH show ?thesis
      using drop_bit_56_eq_0 [of out] by (simp only: asn1_uint64_loop.simps Let_def if_False)  simp
  next
    case False
    have "2 ^ 56 * 256 ^ 1 \<le> unat out * 256 ^ length (b # data)"
      using False by (intro mult_le_mono power_increasing) simp_all
    then have "\<not> unat out * 256 ^ length (b # data) + be_val (b # data) < 2 ^ 64"
      by simp
    with False show ?thesis
      using drop_bit_56_eq_0 [of out] by (simp only: asn1_uint64_loop.simps Let_def) simp
  qed
qed

lemma tc_val_nonneg: "0 \<le> tc_val bs \<Longrightarrow> tc_val bs = int (be_val bs)"
  using be_val_bounds [of bs] by (auto simp: tc_val_def split: if_splits)

lemma CBS_get_asn1_uint64_Some:
  "CBS_get_asn1_uint64 s = (Some v, s') \<longleftrightarrow>
   (\<exists>body. minimal_int body \<and> tc_val body = int (unat v) \<and> length body < 2 ^ 32 \<and>
      s = der_element CBS_ASN1_INTEGER body @ s')"
proof -
  have "valid_tag CBS_ASN1_INTEGER"
    by (simp add: valid_tag_def CBS_ASN1_INTEGER_def CBS_ASN1_CONSTRUCTED_def CBS_ASN1_TAG_SHIFT_def)
  moreover have "CBS_is_unsigned_asn1_integer body \<and> asn1_uint64_loop 0 body = Some v \<longleftrightarrow>
      minimal_int body \<and> tc_val body = int (unat v)" for body
  proof -
    have "asn1_uint64_loop 0 body = Some v \<longleftrightarrow> be_val body = unat v"
      using unat_u64_less [of v] by (auto simp: asn1_uint64_loop_eq Let_def unat_word_of_nat_small)
    moreover have "CBS_is_unsigned_asn1_integer body \<longleftrightarrow> minimal_int body \<and> 0 \<le> tc_val body"
      by (auto simp: CBS_is_unsigned_asn1_integer_def CBS_is_valid_asn1_integer_eq)
    ultimately show ?thesis
      using tc_val_nonneg [of body] by (metis of_nat_0_le_iff of_nat_eq_iff)
  qed
  ultimately show ?thesis
    by (auto simp: CBS_get_asn1_uint64_def chk_Some_iff CBS_get_asn1_Some CBS_data_def split: if_splits)
qed

text \<open>The loop that fills \<open>sign_extend\<close>: the body in little-endian order below the fill bytes.\<close>

lemma asn1_sign_extend_eq:
  assumes "length data \<le> 8"
  shows "asn1_sign_extend neg data = rev data @ replicate (8 - length data) (if neg then 0xff else 0)"
proof -
  have "foldl (\<lambda>se i. se[i := data ! (length data - i - 1)]) (replicate 8 fill) [0..<k] =
      take k (rev data) @ replicate (8 - k) fill" if "k \<le> length data" for k and fill :: byte
    using that
  proof (induction k)
    case (Suc k)
    moreover have "replicate (8 - k) fill = fill # replicate (8 - Suc k) fill"
      using Suc.prems assms by (simp add: replicate_Suc [symmetric] Suc_diff_Suc del: replicate_Suc)
    ultimately show ?case
      by (simp add: take_Suc_conv_app_nth rev_nth list_update_append)
  qed simp
  from this [of "length data"] show ?thesis
    by (simp add: asn1_sign_extend_def)
qed

lemma be_val_replicate_ff: "be_val (replicate k 0xff) + 1 = 256 ^ k"
proof (induction k)
  case (Suc k)
  have "unat (0xff :: byte) = 255" by simp
  then have "be_val (replicate (Suc k) 0xff) + 1 = 255 * 256 ^ k + (be_val (replicate k 0xff) + 1)"
    unfolding replicate_Suc be_val_Cons by simp
  with Suc show ?case by simp
qed simp

lemma int_be_val_replicate_ff: "int (be_val (replicate k 0xff)) = 256 ^ k - 1"
  using arg_cong [OF be_val_replicate_ff [of k], of int] by simp

lemma be_val_replicate_0: "be_val (replicate k 0) = 0"
  by (induction k) (simp_all add: be_val_Cons)

lemma sint_word_of_int_eq:
  "- (2 ^ 63) \<le> x \<Longrightarrow> x < 2 ^ 63 \<Longrightarrow> sint (word_of_int x :: u64) = x"
  by (simp add: signed_of_int signed_take_bit_int_eq_self)

lemma asn1_int64_value:
  assumes "length body \<le> 8" "body \<noteq> []"
  shows "sint (word_of_nat (be_val (rev (asn1_sign_extend (tc_val body < 0) body))) :: u64) = tc_val body"
proof -
  let ?n = "length body"
  let ?v = "be_val (rev (asn1_sign_extend (tc_val body < 0) body))"
  have v: "?v = be_val (replicate (8 - ?n) (if tc_val body < 0 then 0xff else 0)) * 256 ^ ?n + be_val body"
    using assms by (simp add: asn1_sign_extend_eq be_val_append)
  have pow: "(256 :: int) ^ (8 - ?n) * 256 ^ ?n = 2 ^ 64"
    using assms by (simp flip: power_add)
  have "int ?v = (if tc_val body < 0 then 2 ^ 64 else 0) + tc_val body"
  proof (cases "tc_val body < 0")
    case True
    then have "int ?v = (256 ^ (8 - ?n) - 1) * 256 ^ ?n + int (be_val body)"
      unfolding v by (simp add: int_be_val_replicate_ff)
    with True assms show ?thesis
      by (simp add: left_diff_distrib pow tc_val_neg) (simp add: tc_val_def)
  next
    case False
    with v show ?thesis by (simp add: be_val_replicate_0 tc_val_nonneg)
  qed
  then have "(word_of_nat ?v :: u64) = word_of_int (tc_val body)"
  proof -
    assume *: "int ?v = (if tc_val body < 0 then 2 ^ 64 else 0) + tc_val body"
    have "(word_of_nat ?v :: u64) = word_of_int (int ?v)"
      by simp
    also have "\<dots> = word_of_int (tc_val body)"
      unfolding * by simp
    finally show ?thesis .
  qed
  moreover have "tc_fits 8 (tc_val body)"
    using tc_fits_length [OF assms(2)] assms(1) by (rule tc_fits_mono [rotated])
  ultimately show ?thesis
    by (simp add: sint_word_of_int_eq tc_fits_def)
qed

lemma valid_universal_tags [simp]:
  "valid_tag CBS_ASN1_INTEGER" "valid_tag CBS_ASN1_BOOLEAN" "valid_tag CBS_ASN1_OCTETSTRING"
  by (simp_all add: valid_tag_def CBS_ASN1_INTEGER_def CBS_ASN1_BOOLEAN_def CBS_ASN1_OCTETSTRING_def
      CBS_ASN1_CONSTRUCTED_def CBS_ASN1_TAG_SHIFT_def)

lemma CBS_get_asn1_int64_Some:
  "CBS_get_asn1_int64 s = (Some v, s') \<longleftrightarrow>
   (\<exists>body. minimal_int body \<and> tc_val body = sint v \<and> length body \<le> 8 \<and>
      s = der_element CBS_ASN1_INTEGER body @ s')"
proof -
  let ?w = "\<lambda>body. word_of_nat (be_val (rev (asn1_sign_extend (tc_val body < 0) body))) :: u64"
  have "?w body = v \<longleftrightarrow> tc_val body = sint v" if "length body \<le> 8" "body \<noteq> []" for body
    using asn1_int64_value [OF that] by (metis signed_word_eqI)
  moreover have "CBS_get_asn1_int64 s = (Some v, s') \<longleftrightarrow>
      (\<exists>body. CBS_get_asn1 s CBS_ASN1_INTEGER = (Some body, s') \<and> minimal_int body \<and>
        length body \<le> 8 \<and> ?w body = v)"
  proof -
    obtain r t where "CBS_get_asn1 s CBS_ASN1_INTEGER = (r, t)"
      by (cases "CBS_get_asn1 s CBS_ASN1_INTEGER")
    then show ?thesis
      by (cases r) (auto simp: CBS_get_asn1_int64_def CBS_data_def CBS_len_def CBS_is_valid_asn1_integer_eq)
  qed
  moreover have "body \<noteq> []" if "minimal_int body" for body
    using that by (simp add: minimal_int_def)
  ultimately have "CBS_get_asn1_int64 s = (Some v, s') \<longleftrightarrow>
      (\<exists>body. CBS_get_asn1 s CBS_ASN1_INTEGER = (Some body, s') \<and> minimal_int body \<and>
        length body \<le> 8 \<and> tc_val body = sint v)"
    by blast
  then show ?thesis
    by (auto simp: CBS_get_asn1_Some)
qed

lemma CBS_get_asn1_bool_Some:
  "CBS_get_asn1_bool s = (Some v, s') \<longleftrightarrow>
   s = der_element CBS_ASN1_BOOLEAN [if v then 0xff else 0] @ s'"
proof
  assume "CBS_get_asn1_bool s = (Some v, s')"
  then show "s = der_element CBS_ASN1_BOOLEAN [if v then 0xff else 0] @ s'"
    by (auto simp: CBS_get_asn1_bool_def chk_Some_iff CBS_get_asn1_Some CBS_data_def CBS_len_def
        Let_def length_Suc_conv split: if_splits)
next
  assume "s = der_element CBS_ASN1_BOOLEAN [if v then 0xff else 0] @ s'"
  then have "CBS_get_asn1 s CBS_ASN1_BOOLEAN = (Some [if v then 0xff else 0], s')"
    by (simp add: CBS_get_asn1_Some)
  then show "CBS_get_asn1_bool s = (Some v, s')"
    by (simp add: CBS_get_asn1_bool_def CBS_data_def CBS_len_def Let_def)
qed

section \<open>Object identifiers\<close>

text \<open>The base-128 encoding of an arc of any size.\<close>

definition arc_enc :: "nat \<Rightarrow> bytes" where
  "arc_enc n = base128_groups (n div 128) @ [word_of_nat (n mod 128)]"

lemma base128_groups_0 [simp]: "base128_groups 0 = []"
  by (simp add: base128_groups.simps)

lemma base128_groups_eq_Nil [simp]: "base128_groups n = [] \<longleftrightarrow> n = 0"
  by (subst base128_groups.simps) simp

lemma unat_cont_byte: "unat (word_of_nat (128 + n mod 128) :: byte) = 128 + n mod 128"
proof (rule unat_word_of_nat_small)
  have "n mod 128 < 128" by simp
  then show "128 + n mod 128 < 2 ^ LENGTH(8)" by simp
qed

lemma unat_low_byte: "unat (word_of_nat (n mod 128) :: byte) = n mod 128"
proof (rule unat_word_of_nat_small)
  have "n mod 128 < 128" by simp
  then show "n mod 128 < 2 ^ LENGTH(8)" by simp
qed

lemma base128_groups_step:
  assumes "n \<noteq> 0 \<or> 128 < unat b" "128 \<le> unat b"
  shows "base128_groups n @ [b] = base128_groups (n * 128 + (unat b - 128))"
proof -
  have "unat b - 128 < 128"
    using unat_byte_less [of b] by linarith
  then have "(n * 128 + (unat b - 128)) div 128 = n" "(n * 128 + (unat b - 128)) mod 128 = unat b - 128"
    by simp_all
  moreover have "n * 128 + (unat b - 128) \<noteq> 0"
    using assms by auto
  moreover have "word_of_nat (128 + (unat b - 128)) = b"
    using assms by simp
  ultimately show ?thesis
    by (subst (2) base128_groups.simps) (simp del: of_nat_add)
qed

text \<open>Bytes with the top bit set, the first not \<open>0x80\<close>, are the groups of a number.\<close>

lemma continuation_groups:
  "(\<forall>b\<in>set bs. 128 \<le> unat b) \<Longrightarrow> bs = [] \<or> hd bs \<noteq> 0x80 \<Longrightarrow>
   \<exists>n. bs = base128_groups n"
proof (induction bs rule: rev_induct)
  case Nil
  show ?case by (intro exI [of _ 0]) simp
next
  case (snoc b bs)
  then obtain n where n: "bs = base128_groups n"
  proof -
    have "bs = [] \<or> hd bs \<noteq> 0x80"
      using snoc.prems(2) by (cases bs) simp_all
    with snoc.IH snoc.prems(1) that show ?thesis by auto
  qed
  have "n \<noteq> 0 \<or> 128 < unat b"
  proof (cases "n = 0")
    case True
    with n have "bs = []" by simp
    with snoc.prems have "b \<noteq> 0x80" "128 \<le> unat b" by simp_all
    then show ?thesis by (auto simp: word_unat_eq_iff)
  qed simp
  moreover have b: "128 \<le> unat b"
    using snoc.prems(1) by simp
  ultimately have "bs @ [b] = base128_groups (n * 128 + (unat b - 128))"
    unfolding n by (rule base128_groups_step)
  then show ?case ..
qed

lemma groups_bytes: "\<forall>b\<in>set (base128_groups n). 128 \<le> unat b"
proof (induction n rule: base128_groups.induct)
  case (1 n)
  show ?case
  proof (cases "n = 0")
    case True
    then show ?thesis by simp
  next
    case False
    have "128 \<le> unat (word_of_nat (128 + n mod 128) :: byte)"
      unfolding unat_cont_byte by simp
    with 1 [OF False] show ?thesis
      unfolding base128_groups.simps [of n] by (simp add: False del: of_nat_add)
  qed
qed

lemma groups_hd: "n \<noteq> 0 \<Longrightarrow> base128_groups n \<noteq> [] \<and> hd (base128_groups n) \<noteq> 0x80"
proof (induction n rule: base128_groups.induct)
  case (1 n)
  show ?case
  proof (cases "n div 128 = 0")
    case True
    then have n: "n < 128" by (simp add: div_eq_0_iff)
    then have "unat (word_of_nat (128 + n) :: byte) = 128 + n"
      by (intro unat_word_of_nat_small) simp
    moreover have "base128_groups n = [word_of_nat (128 + n)]"
      using "1.prems" n base128_groups.simps [of n] base128_groups.simps [of 0] by simp
    ultimately show ?thesis
      using "1.prems" by (simp add: word_unat_eq_iff del: of_nat_add)
  next
    case False
    with "1.IH" "1.prems" show ?thesis
      using base128_groups.simps [of n] by (simp add: hd_append)
  qed
qed

lemma valid_oid_loop_cont:
  "(\<forall>b\<in>set bs. 128 \<le> unat b) \<Longrightarrow> 128 \<le> unat prev \<Longrightarrow>
   valid_oid_loop prev (bs @ rest) = valid_oid_loop (if bs = [] then prev else List.last bs) rest"
proof (induction bs arbitrary: prev)
  case (Cons b bs)
  then show ?case
    using byte_top_bit [of prev] by auto
qed simp

lemma valid_oid_arc:
  assumes "unat prev < 128"
  shows "valid_oid_loop prev (arc_enc n @ rest) = valid_oid_loop (word_of_nat (n mod 128)) rest"
proof -
  let ?g = "base128_groups (n div 128)"
  let ?l = "word_of_nat (n mod 128) :: byte"
  have l: "unat ?l < 128" "?l \<noteq> 0x80"
  proof -
    have "unat ?l = n mod 128"
      by (rule unat_low_byte)
    then show "unat ?l < 128" by simp
    then show "?l \<noteq> 0x80" by (auto simp: word_unat_eq_iff)
  qed
  show ?thesis
  proof (cases ?g)
    case Nil
    with l show ?thesis by (simp add: arc_enc_def)
  next
    case (Cons b bs)
    have "n div 128 \<noteq> 0"
    proof
      assume "n div 128 = 0"
      with Cons show False by (simp only: base128_groups_0) simp
    qed
    with Cons have b: "b \<noteq> 0x80"
      using groups_hd [of "n div 128"] by simp
    have all: "\<forall>b\<in>set (b # bs). 128 \<le> unat b"
      using groups_bytes [of "n div 128"] Cons by simp
    have tops: "(if bs = [] then b else List.last bs) AND 0x80 \<noteq> 0"
      using all byte_top_bit by (auto simp: last_in_set)
    have "valid_oid_loop prev (arc_enc n @ rest) = valid_oid_loop b (bs @ ?l # rest)"
      using b by (simp add: arc_enc_def Cons)
    also have "\<dots> = valid_oid_loop (if bs = [] then b else List.last bs) (?l # rest)"
      using all by (intro valid_oid_loop_cont) auto
    also have "\<dots> = valid_oid_loop ?l rest"
      using tops by simp
    finally show ?thesis .
  qed
qed

lemma valid_oid_arcs:
  "unat prev < 128 \<Longrightarrow> valid_oid_loop prev (concat (map arc_enc ns))"
proof (induction ns arbitrary: prev)
  case Nil
  then show ?case using byte_top_bit [of prev] by simp
next
  case (Cons n ns)
  have "unat (word_of_nat (n mod 128) :: byte) < 128"
  proof -
    have "unat (word_of_nat (n mod 128) :: byte) = n mod 128"
      by (rule unat_low_byte)
    then show ?thesis by simp
  qed
  with Cons show ?case by (simp add: valid_oid_arc)
qed

text \<open>A valid tail, behind the continuation bytes \<open>cont\<close> of the arc being read.\<close>

lemma valid_oid_split:
  "valid_oid_loop prev s \<Longrightarrow> (\<forall>b\<in>set cont. 128 \<le> unat b) \<Longrightarrow> cont = [] \<or> hd cont \<noteq> 0x80 \<Longrightarrow>
   (cont = [] \<longrightarrow> unat prev < 128) \<Longrightarrow> (cont \<noteq> [] \<longrightarrow> prev = List.last cont) \<Longrightarrow>
   \<exists>ns. cont @ s = concat (map arc_enc ns)"
proof (induction s arbitrary: prev cont)
  case Nil
  then have "cont = []"
    using byte_top_bit [of prev] last_in_set [of cont] by fastforce
  then show ?case by (intro exI [of _ "[]"]) simp
next
  case (Cons v s)
  have rec: "valid_oid_loop v s" and first: "cont = [] \<Longrightarrow> v \<noteq> 0x80"
    using Cons.prems byte_top_bit [of prev] by (auto split: if_splits)
  show ?case
  proof (cases "128 \<le> unat v")
    case True
    have "\<exists>ns. (cont @ [v]) @ s = concat (map arc_enc ns)"
      using Cons.prems(2,3) first True by (intro Cons.IH [OF rec]) (cases cont; auto)+
    then show ?thesis by simp
  next
    case False
    obtain n where n: "cont = base128_groups n"
      using continuation_groups [OF Cons.prems(2,3)] by auto
    have "\<exists>ns. [] @ s = concat (map arc_enc ns)"
      using False by (intro Cons.IH [OF rec]) auto
    then obtain ns where ns: "s = concat (map arc_enc ns)" by auto
    have "(n * 128 + unat v) div 128 = n" "(n * 128 + unat v) mod 128 = unat v"
      using False by simp_all
    then have "cont @ v # s = concat (map arc_enc ((n * 128 + unat v) # ns))"
      using n ns by (simp add: arc_enc_def del: of_nat_add)
    then show ?thesis by blast
  qed
qed

lemma CBS_is_valid_asn1_oid_iff:
  "CBS_is_valid_asn1_oid s \<longleftrightarrow> s \<noteq> [] \<and> (\<exists>ns. s = concat (map arc_enc ns))"
  using valid_oid_split [of 0 s "[]"] valid_oid_arcs [of 0]
  by (auto simp: CBS_is_valid_asn1_oid_def CBS_len_def)

section \<open>Bit strings\<close>

lemma CBS_get_last_u8_snoc: "CBS_get_last_u8 (bs @ [b]) = (Some b, bs)"
  by (simp add: CBS_get_last_u8_def CBS_len_def)

text \<open>
  A valid bit string: a count of unused bits below 8, and that many zero bits at the end of the last
  byte, which exists unless the count is 0.
\<close>

lemma CBS_is_valid_asn1_bitstring_iff:
  "CBS_is_valid_asn1_bitstring s \<longleftrightarrow>
   (\<exists>n bs. s = word_of_nat n # bs \<and> n < 8 \<and> (n = 0 \<or> bs \<noteq> [] \<and> 2 ^ n dvd unat (List.last bs)))"
proof (cases s)
  case Nil
  then show ?thesis by (simp add: CBS_is_valid_asn1_bitstring_def)
next
  case (Cons u bs)
  have small: "u > 7 \<longleftrightarrow> \<not> unat u < 8"
    by (simp add: word_less_nat_alt) linarith
  have low: "b AND (push_bit k 1 - 1) = 0 \<longleftrightarrow> 2 ^ k dvd unat b" if "k < 8" for k and b :: byte
  proof -
    have "push_bit k 1 - 1 = (mask k :: byte)"
      by (simp add: mask_eq_exp_minus_1 push_bit_eq_mult)
    then have "b AND (push_bit k 1 - 1) = take_bit k b"
      by (simp add: take_bit_eq_mask)
    moreover have "unat (take_bit k b) = unat b mod 2 ^ k"
      unfolding unsigned_take_bit_eq by (rule take_bit_eq_mod)
    ultimately show ?thesis
      by (simp add: word_unat_eq_iff dvd_eq_mod_eq_0 del: unsigned_take_bit_eq)
  qed
  have "CBS_is_valid_asn1_bitstring s \<longleftrightarrow>
      unat u < 8 \<and> (unat u = 0 \<or> bs \<noteq> [] \<and> 2 ^ unat u dvd unat (List.last bs))"
  proof (cases bs rule: rev_cases)
    case Nil
    with Cons small show ?thesis
      by (auto simp: CBS_is_valid_asn1_bitstring_def CBS_get_last_u8_def CBS_len_def unat_eq_zero)
  next
    case (snoc r b)
    with Cons small low [of "unat u" b] show ?thesis
      by (auto simp: CBS_is_valid_asn1_bitstring_def CBS_get_last_u8_snoc unat_eq_zero)
  qed
  moreover have "n < 8 \<Longrightarrow> unat (word_of_nat n :: byte) = n" for n
    by (intro unat_word_of_nat_small) simp
  ultimately show ?thesis
    using Cons by (auto intro!: exI [of _ "unat u"] simp: unat_eq_zero)
qed

section \<open>Properties\<close>

text \<open>
  C2: \<open>CBS_get_any_asn1\<close> accepts exactly the DER encodings: it succeeds with body and tag on a span
  that starts with the DER encoding of that tag (not \<open>[UNIVERSAL 0]\<close>) and body (of fewer than
  \<open>2 ^ 32\<close> bytes), leaves exactly what follows it, and succeeds on nothing else.
\<close>

theorem any_asn1_accepts_exactly_der:
  "CBS_get_any_asn1 s = (Some (body, tag), s') \<longleftrightarrow>
   valid_tag tag \<and> length body < 2 ^ 32 \<and> s = der_element tag body @ s'"
  by (auto simp: element.rd_iff valid_element_def)

text \<open>
  C27: \<open>CBS_get_asn1_uint64\<close> returns \<open>v\<close> exactly when the span starts with an INTEGER whose body is
  the shortest two's complement form of the number \<open>v\<close>, and leaves what follows.
\<close>

theorem asn1_uint64_reads_minimal_integers:
  "CBS_get_asn1_uint64 s = (Some v, s') \<longleftrightarrow>
   (\<exists>body. minimal_int body \<and> tc_val body = int (unat v) \<and> length body < 2 ^ 32 \<and>
      s = der_element CBS_ASN1_INTEGER body @ s')"
  by (rule CBS_get_asn1_uint64_Some)

end
