(* ===== verification/Cbb.thy ===== *)
theory Cbb
  imports Cbs_Asn1
begin

text \<open>
  \<open>crypto/bytestring/cbb.c\<close>: the byte-string builder.

  A \<open>CBB\<close> tree is one buffer, owned by the root, and a chain of open children, each pointed to by the
  \<open>child\<close> field of the one before. The model keeps the buffer and the list of the open children,
  outermost first; the \<open>CBB *\<close> an operation is called on is its depth in the chain: 0 for the root,
  \<open>d + 1\<close> for the child with index \<open>d\<close>. A child that has been flushed or discarded has a null
  \<open>base\<close>, and so every operation on a depth beyond the chain fails.

  \<open>b_buf\<close> is the memory block of \<open>b_cap\<close> bytes (the empty list for a null pointer), of which the
  first \<open>b_len\<close> are the contents. The allocator is a field, since any write can grow the buffer.
\<close>

section \<open>State\<close>

record cbb_buffer =
  b_buf :: bytes
  b_len :: nat
  b_cap :: nat
  b_can_resize :: bool
  b_error :: bool

record cbb_child =
  c_offset :: nat
  c_pending_len_len :: nat
  c_pending_is_asn1 :: bool

record cbb =
  cbb_base :: cbb_buffer
  cbb_children :: "cbb_child list"
  cbb_alloc :: allocator

definition cbb_init :: "allocator \<Rightarrow> bytes \<Rightarrow> nat \<Rightarrow> bool \<Rightarrow> cbb" where
  "cbb_init al buf cap can_resize =
     \<lparr>cbb_base = \<lparr>b_buf = buf, b_len = 0, b_cap = cap, b_can_resize = can_resize, b_error = False\<rparr>,
      cbb_children = [], cbb_alloc = al\<rparr>"

definition CBB_init :: "allocator \<Rightarrow> nat \<Rightarrow> cbb option" where
  "CBB_init al initial_capacity =
     (case OPENSSL_malloc al initial_capacity of
        None \<Rightarrow> if initial_capacity > 0 then None else Some (cbb_init al [] initial_capacity True)
      | Some buf \<Rightarrow> Some (cbb_init al buf initial_capacity True))"

definition CBB_init_fixed :: "allocator \<Rightarrow> bytes \<Rightarrow> nat \<Rightarrow> cbb" where
  "CBB_init_fixed al buf len = cbb_init al buf len False"

section \<open>The buffer\<close>

text \<open>The out parameter of \<open>cbb_buffer_reserve\<close> is a pointer into the buffer; the model has its index.\<close>

definition cbb_buffer_reserve :: "allocator \<Rightarrow> cbb_buffer \<Rightarrow> nat \<Rightarrow> nat option \<times> cbb_buffer" where
  "cbb_buffer_reserve al base len =
     (let newlen = size_add (b_len base) len; err = (None, base\<lparr>b_error := True\<rparr>)
      in if newlen < b_len base then err
      else if newlen > b_cap base
      then (if \<not> b_can_resize base then err
            else
              let newcap = size_mul (b_cap base) 2;
                  newcap = (if newcap < b_cap base \<or> newcap < newlen then newlen else newcap)
              in case OPENSSL_realloc al (Some (b_buf base)) newcap of
                   None \<Rightarrow> err
                 | Some newbuf \<Rightarrow> (Some (b_len base), base\<lparr>b_buf := newbuf, b_cap := newcap\<rparr>))
      else (Some (b_len base), base))"

definition cbb_buffer_add :: "allocator \<Rightarrow> cbb_buffer \<Rightarrow> nat \<Rightarrow> nat option \<times> cbb_buffer" where
  "cbb_buffer_add al base len = chk (cbb_buffer_reserve al base len)
     (\<lambda>out base. (Some out, base\<lparr>b_len := b_len base + len\<rparr>))"

text \<open>The loop that stores the low \<open>n\<close> bytes of \<open>len\<close> at \<open>off\<close>, last byte first; what is left of \<open>len\<close>.\<close>

fun put_be_loop :: "nat \<Rightarrow> nat \<Rightarrow> nat \<Rightarrow> bytes \<Rightarrow> nat \<times> bytes" where
  "put_be_loop off 0 len buf = (len, buf)"
| "put_be_loop off (Suc i) len buf = put_be_loop off i (len div 256) (buf[off + i := word_of_nat len])"

section \<open>Handles, errors and flushing\<close>

text \<open>\<open>cbb_on_base\<close> calls a buffer operation on \<open>cbb_get_base(cbb)\<close>, which is null for a stale child.\<close>

definition cbb_on_base ::
    "nat \<Rightarrow> (allocator \<Rightarrow> cbb_buffer \<Rightarrow> 'a option \<times> cbb_buffer) \<Rightarrow> cbb \<Rightarrow> 'a option \<times> cbb" where
  "cbb_on_base d f cbb =
     (if length (cbb_children cbb) < d then (None, cbb)
      else case f (cbb_alloc cbb) (cbb_base cbb) of (r, base) \<Rightarrow> (r, cbb\<lparr>cbb_base := base\<rparr>))"

definition cbb_on_error :: "nat \<Rightarrow> cbb \<Rightarrow> cbb" where
  "cbb_on_error d cbb =
     cbb\<lparr>cbb_base := (cbb_base cbb)\<lparr>b_error := True\<rparr>, cbb_children := take d (cbb_children cbb)\<rparr>"

text \<open>The label \<open>err: cbb_on_error(cbb); return 0;\<close>\<close>

definition cbb_or_error :: "nat \<Rightarrow> 'a option \<times> cbb \<Rightarrow> 'a option \<times> cbb" where
  "cbb_or_error d r = (case r of (None, cbb) \<Rightarrow> (None, cbb_on_error d cbb) | (Some x, cbb) \<Rightarrow> (Some x, cbb))"

text \<open>
  The ASN.1 branch of \<open>CBB_flush\<close>: the child and the length left to write after the first length octet
  is written and the contents have been moved to make room for the others.
\<close>

definition cbb_flush_asn1 ::
    "allocator \<Rightarrow> cbb_buffer \<Rightarrow> cbb_child \<Rightarrow> nat \<Rightarrow> nat \<Rightarrow> (cbb_child \<times> nat) option \<times> cbb_buffer" where
  "cbb_flush_asn1 al base child child_start len =
     (if len > 0xfffffffe then (None, base)
      else
        let (len_len, initial_length_byte, len) =
              (if len > 0xffffff then (5, 0x80 OR 4, len)
               else if len > 0xffff then (4, 0x80 OR 3, len)
               else if len > 0xff then (3, 0x80 OR 2, len)
               else if len > 0x7f then (2, 0x80 OR 1, len)
               else (1, word_of_nat len, 0))
        in chk (if len_len \<noteq> 1
                then let extra_bytes = len_len - 1
                     in chk (cbb_buffer_add al base extra_bytes) (\<lambda>_ base. (Some (), base\<lparr>b_buf :=
                          OPENSSL_memmove (b_buf base) (child_start + extra_bytes) child_start len\<rparr>))
                else (Some (), base))
             (\<lambda>_ base.
               (Some (child\<lparr>c_offset := c_offset child + 1, c_pending_len_len := len_len - 1\<rparr>, len),
                base\<lparr>b_buf := (b_buf base)[c_offset child := initial_length_byte]\<rparr>)))"

text \<open>The body of \<open>CBB_flush\<close> after the recursive call: writing the pending length of one child.\<close>

definition cbb_flush_child :: "allocator \<Rightarrow> cbb_buffer \<Rightarrow> cbb_child \<Rightarrow> unit option \<times> cbb_buffer" where
  "cbb_flush_child al base child =
     (let child_start = size_add (c_offset child) (c_pending_len_len child)
      in if child_start < c_offset child \<or> b_len base < child_start then (None, base)
      else
        let len = b_len base - child_start
        in chk (if c_pending_is_asn1 child then cbb_flush_asn1 al base child child_start len
                else (Some (child, len), base))
             (\<lambda>(child, len) base.
               let (len, buf) = put_be_loop (c_offset child) (c_pending_len_len child) len (b_buf base)
               in (if len \<noteq> 0 then None else Some (), base\<lparr>b_buf := buf\<rparr>)))"

function CBB_flush :: "nat \<Rightarrow> cbb \<Rightarrow> unit option \<times> cbb" where
  "CBB_flush d cbb =
     (if length (cbb_children cbb) < d \<or> b_error (cbb_base cbb) then (None, cbb)
      else if length (cbb_children cbb) = d then (Some (), cbb)
      else
        let child = cbb_children cbb ! d
        in cbb_or_error d
             (chk (CBB_flush (Suc d) cbb) (\<lambda>_ cbb.
              chk (cbb_on_base d (\<lambda>al base. cbb_flush_child al base child) cbb) (\<lambda>_ cbb.
                (Some (), cbb\<lparr>cbb_children := take d (cbb_children cbb)\<rparr>)))))"
  by pat_completeness auto
termination
  by (relation "measure (\<lambda>(d, cbb). length (cbb_children cbb) - d)") auto

declare CBB_flush.simps [simp del]

section \<open>Reading the builder and finishing\<close>

text \<open>The memory from the pointer \<open>CBB_data\<close> returns, and \<open>CBB_len\<close>.\<close>

definition CBB_start :: "nat \<Rightarrow> cbb \<Rightarrow> nat" where
  "CBB_start d cbb =
     (if d = 0 then 0
      else let child = cbb_children cbb ! (d - 1) in c_offset child + c_pending_len_len child)"

definition CBB_data :: "nat \<Rightarrow> cbb \<Rightarrow> bytes" where
  "CBB_data d cbb = drop (CBB_start d cbb) (b_buf (cbb_base cbb))"

definition CBB_len :: "nat \<Rightarrow> cbb \<Rightarrow> nat" where
  "CBB_len d cbb = b_len (cbb_base cbb) - CBB_start d cbb"

text \<open>
  \<open>want_data\<close>, \<open>want_len\<close>: whether \<open>out_data\<close>, \<open>out_len\<close> are not null. The buffer is handed
  to the caller, and the root keeps a null pointer.
\<close>

definition CBB_finish :: "nat \<Rightarrow> bool \<Rightarrow> bool \<Rightarrow> cbb \<Rightarrow> (bytes \<times> nat) option \<times> cbb" where
  "CBB_finish d want_data want_len cbb =
     (if d \<noteq> 0 then (None, cbb)
      else chk (CBB_flush d cbb) (\<lambda>_ cbb.
        if b_can_resize (cbb_base cbb) \<and> (\<not> want_data \<or> \<not> want_len) then (None, cbb)
        else (Some (b_buf (cbb_base cbb), b_len (cbb_base cbb)),
              cbb\<lparr>cbb_base := (cbb_base cbb)\<lparr>b_buf := []\<rparr>\<rparr>)))"

section \<open>Adding children\<close>

definition cbb_add_child :: "nat \<Rightarrow> nat \<Rightarrow> bool \<Rightarrow> cbb \<Rightarrow> unit option \<times> cbb" where
  "cbb_add_child d len_len is_asn1 cbb =
     chk (cbb_on_base d (\<lambda>al base. chk (cbb_buffer_add al base len_len) (\<lambda>prefix_bytes base.
           (Some prefix_bytes, base\<lparr>b_buf := buf_write (b_buf base) prefix_bytes (replicate len_len 0)\<rparr>))) cbb)
       (\<lambda>offset cbb. (Some (), cbb\<lparr>cbb_children := take d (cbb_children cbb) @
          [\<lparr>c_offset = offset, c_pending_len_len = len_len, c_pending_is_asn1 = is_asn1\<rparr>]\<rparr>))"

definition cbb_add_length_prefixed :: "nat \<Rightarrow> nat \<Rightarrow> cbb \<Rightarrow> unit option \<times> cbb" where
  "cbb_add_length_prefixed d len_len cbb =
     chk (CBB_flush d cbb) (\<lambda>_ cbb. cbb_add_child d len_len False cbb)"

definition CBB_add_u8_length_prefixed :: "nat \<Rightarrow> cbb \<Rightarrow> unit option \<times> cbb" where
  "CBB_add_u8_length_prefixed d cbb = cbb_add_length_prefixed d 1 cbb"

definition CBB_add_u16_length_prefixed :: "nat \<Rightarrow> cbb \<Rightarrow> unit option \<times> cbb" where
  "CBB_add_u16_length_prefixed d cbb = cbb_add_length_prefixed d 2 cbb"

definition CBB_add_u24_length_prefixed :: "nat \<Rightarrow> cbb \<Rightarrow> unit option \<times> cbb" where
  "CBB_add_u24_length_prefixed d cbb = cbb_add_length_prefixed d 3 cbb"

section \<open>Adding bytes and integers\<close>

definition CBB_add_space :: "nat \<Rightarrow> nat \<Rightarrow> cbb \<Rightarrow> nat option \<times> cbb" where
  "CBB_add_space d len cbb =
     chk (CBB_flush d cbb) (\<lambda>_ cbb. cbb_on_base d (\<lambda>al base. cbb_buffer_add al base len) cbb)"

text \<open>Writing through the pointer that \<open>CBB_add_space\<close> has returned.\<close>

definition cbb_write :: "nat \<Rightarrow> bytes \<Rightarrow> cbb \<Rightarrow> cbb" where
  "cbb_write off data cbb =
     cbb\<lparr>cbb_base := (cbb_base cbb)\<lparr>b_buf := buf_write (b_buf (cbb_base cbb)) off data\<rparr>\<rparr>"

definition CBB_add_bytes :: "nat \<Rightarrow> bytes \<Rightarrow> nat \<Rightarrow> cbb \<Rightarrow> unit option \<times> cbb" where
  "CBB_add_bytes d data len cbb =
     chk (CBB_add_space d len cbb) (\<lambda>out cbb. (Some (), cbb_write out (take len data) cbb))"

definition CBB_add_zeros :: "nat \<Rightarrow> nat \<Rightarrow> cbb \<Rightarrow> unit option \<times> cbb" where
  "CBB_add_zeros d len cbb =
     chk (CBB_add_space d len cbb) (\<lambda>out cbb. (Some (), cbb_write out (replicate len 0) cbb))"

definition CBB_reserve :: "nat \<Rightarrow> nat \<Rightarrow> cbb \<Rightarrow> nat option \<times> cbb" where
  "CBB_reserve d len cbb =
     chk (CBB_flush d cbb) (\<lambda>_ cbb. cbb_on_base d (\<lambda>al base. cbb_buffer_reserve al base len) cbb)"

definition CBB_did_write :: "nat \<Rightarrow> nat \<Rightarrow> cbb \<Rightarrow> unit option \<times> cbb" where
  "CBB_did_write d len cbb =
     cbb_on_base d (\<lambda>al base.
       let newlen = size_add (b_len base) len
       in if d < length (cbb_children cbb) \<or> newlen < b_len base \<or> newlen > b_cap base then (None, base)
          else (Some (), base\<lparr>b_len := newlen\<rparr>)) cbb"

definition cbb_add_u :: "nat \<Rightarrow> u64 \<Rightarrow> nat \<Rightarrow> cbb \<Rightarrow> unit option \<times> cbb" where
  "cbb_add_u d v len_len cbb =
     chk (CBB_add_space d len_len cbb) (\<lambda>out cbb.
       let (v, buf) = put_be_loop out len_len (unat v) (b_buf (cbb_base cbb));
           cbb = cbb\<lparr>cbb_base := (cbb_base cbb)\<lparr>b_buf := buf\<rparr>\<rparr>
       in if v \<noteq> 0 then (None, cbb_on_error d cbb) else (Some (), cbb))"

definition CBB_add_u8 :: "nat \<Rightarrow> byte \<Rightarrow> cbb \<Rightarrow> unit option \<times> cbb" where
  "CBB_add_u8 d v cbb = cbb_add_u d (ucast v) 1 cbb"

definition CBB_add_u16 :: "nat \<Rightarrow> u16 \<Rightarrow> cbb \<Rightarrow> unit option \<times> cbb" where
  "CBB_add_u16 d v cbb = cbb_add_u d (ucast v) 2 cbb"

definition CBB_add_u16le :: "nat \<Rightarrow> u16 \<Rightarrow> cbb \<Rightarrow> unit option \<times> cbb" where
  "CBB_add_u16le d v cbb = CBB_add_u16 d (CRYPTO_bswap2 v) cbb"

definition CBB_add_u24 :: "nat \<Rightarrow> u32 \<Rightarrow> cbb \<Rightarrow> unit option \<times> cbb" where
  "CBB_add_u24 d v cbb = cbb_add_u d (ucast v) 3 cbb"

definition CBB_add_u32 :: "nat \<Rightarrow> u32 \<Rightarrow> cbb \<Rightarrow> unit option \<times> cbb" where
  "CBB_add_u32 d v cbb = cbb_add_u d (ucast v) 4 cbb"

definition CBB_add_u32le :: "nat \<Rightarrow> u32 \<Rightarrow> cbb \<Rightarrow> unit option \<times> cbb" where
  "CBB_add_u32le d v cbb = CBB_add_u32 d (CRYPTO_bswap4 v) cbb"

definition CBB_add_u64 :: "nat \<Rightarrow> u64 \<Rightarrow> cbb \<Rightarrow> unit option \<times> cbb" where
  "CBB_add_u64 d v cbb = cbb_add_u d v 8 cbb"

definition CBB_add_u64le :: "nat \<Rightarrow> u64 \<Rightarrow> cbb \<Rightarrow> unit option \<times> cbb" where
  "CBB_add_u64le d v cbb = CBB_add_u64 d (CRYPTO_bswap8 v) cbb"

definition CBB_discard_child :: "nat \<Rightarrow> cbb \<Rightarrow> cbb" where
  "CBB_discard_child d cbb =
     (if length (cbb_children cbb) \<le> d then cbb
      else cbb\<lparr>cbb_base := (cbb_base cbb)\<lparr>b_len := c_offset (cbb_children cbb ! d)\<rparr>,
               cbb_children := take d (cbb_children cbb)\<rparr>)"

section \<open>Adding ASN.1\<close>

text \<open>The number of base-128 groups: the loop \<open>while (copy > 0)\<close>.\<close>

function base128_len_loop :: "nat \<Rightarrow> u64 \<Rightarrow> nat" where
  "base128_len_loop len_len copy =
     (if copy = 0 then len_len else base128_len_loop (Suc len_len) (drop_bit 7 copy))"
  by pat_completeness auto
termination
proof (relation "measure (\<lambda>(n, copy). unat copy)", simp)
  fix n and copy :: u64
  assume "copy \<noteq> 0"
  then have "unat copy div 2 ^ 7 < unat copy"
    by (intro div_less_dividend) (simp_all add: unat_gt_0)
  then have "drop_bit 7 (unat copy) < unat copy"
    by (simp only: drop_bit_eq_div)
  then show "((Suc n, drop_bit 7 copy), n, copy) \<in> measure (\<lambda>(n, copy). unat copy)"
    unfolding in_measure prod.case unat_drop_bit_eq .
qed

declare base128_len_loop.simps [simp del]

fun base128_write_loop :: "nat \<Rightarrow> u64 \<Rightarrow> nat \<Rightarrow> cbb \<Rightarrow> unit option \<times> cbb" where
  "base128_write_loop d v 0 cbb = (Some (), cbb)"
| "base128_write_loop d v (Suc i) cbb =
     (let b = ucast (drop_bit (7 * i) v) AND 0x7f;
          b = (if i \<noteq> 0 then b OR 0x80 else b)
      in chk (CBB_add_u8 d b cbb) (\<lambda>_ cbb. base128_write_loop d v i cbb))"

definition add_base128_integer :: "nat \<Rightarrow> u64 \<Rightarrow> cbb \<Rightarrow> unit option \<times> cbb" where
  "add_base128_integer d v cbb =
     (let len_len = base128_len_loop 0 v;
          len_len = (if len_len = 0 then 1 else len_len)
      in base128_write_loop d v len_len cbb)"

definition CBB_add_asn1 :: "nat \<Rightarrow> u32 \<Rightarrow> cbb \<Rightarrow> unit option \<times> cbb" where
  "CBB_add_asn1 d tag cbb = chk (CBB_flush d cbb) (\<lambda>_ cbb.
     let tag_bits = (ucast (drop_bit CBS_ASN1_TAG_SHIFT tag) :: byte) AND 0xe0;
         tag_number = tag AND CBS_ASN1_TAG_NUMBER_MASK
     in chk (if tag_number \<ge> 0x1f
             then chk (CBB_add_u8 d (tag_bits OR 0x1f) cbb)
                    (\<lambda>_ cbb. add_base128_integer d (ucast tag_number) cbb)
             else CBB_add_u8 d (tag_bits OR ucast tag_number) cbb)
          (\<lambda>_ cbb. cbb_add_child d 1 True cbb))"

text \<open>The loop over the bytes of \<open>value\<close>, \<open>n\<close> of them left; the final value of \<open>started\<close>.\<close>

fun asn1_uint64_write_loop :: "nat \<Rightarrow> u64 \<Rightarrow> bool \<Rightarrow> nat \<Rightarrow> cbb \<Rightarrow> bool option \<times> cbb" where
  "asn1_uint64_write_loop d value started 0 cbb = (Some started, cbb)"
| "asn1_uint64_write_loop d value started (Suc n) cbb =
     (let b = (ucast (drop_bit (8 * n) value AND 0xff) :: byte)
      in if \<not> started \<and> b = 0 then asn1_uint64_write_loop d value started n cbb
      else chk (if \<not> started \<and> b AND 0x80 \<noteq> 0 then CBB_add_u8 d 0 cbb else (Some (), cbb)) (\<lambda>_ cbb.
           chk (CBB_add_u8 d b cbb) (\<lambda>_ cbb. asn1_uint64_write_loop d value True n cbb)))"

definition CBB_add_asn1_uint64_with_tag :: "nat \<Rightarrow> u64 \<Rightarrow> u32 \<Rightarrow> cbb \<Rightarrow> unit option \<times> cbb" where
  "CBB_add_asn1_uint64_with_tag d value tag cbb =
     chk (cbb_or_error d
           (chk (CBB_add_asn1 d tag cbb) (\<lambda>_ cbb.
            chk (asn1_uint64_write_loop (Suc d) value False 8 cbb) (\<lambda>started cbb.
              if \<not> started then CBB_add_u8 (Suc d) 0 cbb else (Some (), cbb)))))
       (\<lambda>_ cbb. CBB_flush d cbb)"

definition CBB_add_asn1_uint64 :: "nat \<Rightarrow> u64 \<Rightarrow> cbb \<Rightarrow> unit option \<times> cbb" where
  "CBB_add_asn1_uint64 d value cbb = CBB_add_asn1_uint64_with_tag d value CBS_ASN1_INTEGER cbb"

text \<open>The index \<open>start\<close> of the most significant byte of the little-endian image that is kept.\<close>

fun int64_start :: "bytes \<Rightarrow> nat \<Rightarrow> nat" where
  "int64_start bs 0 = 0"
| "int64_start bs (Suc start) =
     (if bs ! Suc start = 0xff \<and> bs ! start AND 0x80 \<noteq> 0 then int64_start bs start else Suc start)"

fun int64_write_loop :: "nat \<Rightarrow> bytes \<Rightarrow> nat \<Rightarrow> cbb \<Rightarrow> unit option \<times> cbb" where
  "int64_write_loop d bs 0 cbb = (Some (), cbb)"
| "int64_write_loop d bs (Suc i) cbb = chk (CBB_add_u8 d (bs ! i) cbb) (\<lambda>_ cbb. int64_write_loop d bs i cbb)"

definition CBB_add_asn1_int64_with_tag :: "nat \<Rightarrow> u64 \<Rightarrow> u32 \<Rightarrow> cbb \<Rightarrow> unit option \<times> cbb" where
  "CBB_add_asn1_int64_with_tag d value tag cbb =
     (if 0 \<le> sint value then CBB_add_asn1_uint64_with_tag d value tag cbb
      else
        let bs = rev (be_bytes 8 (unat value)); start = int64_start bs 7
        in chk (cbb_or_error d
                 (chk (CBB_add_asn1 d tag cbb) (\<lambda>_ cbb. int64_write_loop (Suc d) bs (Suc start) cbb)))
             (\<lambda>_ cbb. CBB_flush d cbb))"

definition CBB_add_asn1_int64 :: "nat \<Rightarrow> u64 \<Rightarrow> cbb \<Rightarrow> unit option \<times> cbb" where
  "CBB_add_asn1_int64 d value cbb = CBB_add_asn1_int64_with_tag d value CBS_ASN1_INTEGER cbb"

definition CBB_add_asn1_octet_string :: "nat \<Rightarrow> bytes \<Rightarrow> nat \<Rightarrow> cbb \<Rightarrow> unit option \<times> cbb" where
  "CBB_add_asn1_octet_string d data data_len cbb = cbb_or_error d
     (chk (CBB_add_asn1 d CBS_ASN1_OCTETSTRING cbb) (\<lambda>_ cbb.
      chk (CBB_add_bytes (Suc d) data data_len cbb) (\<lambda>_ cbb. CBB_flush d cbb)))"

definition CBB_add_asn1_bool :: "nat \<Rightarrow> int \<Rightarrow> cbb \<Rightarrow> unit option \<times> cbb" where
  "CBB_add_asn1_bool d value cbb = cbb_or_error d
     (chk (CBB_add_asn1 d CBS_ASN1_BOOLEAN cbb) (\<lambda>_ cbb.
      chk (CBB_add_u8 (Suc d) (if value \<noteq> 0 then 0xff else 0) cbb) (\<lambda>_ cbb. CBB_flush d cbb)))"

end
