(* ===== verification/Cbb_Correct.thy ===== *)
theory Cbb_Correct
  imports Cbb
begin

text \<open>
  The builder is correct: what each operation of theory \<open>Cbb\<close> does to the memory block is what an
  abstract builder does to a stack of contents. The abstract builder has no offsets, no capacity and
  no pending bytes; closing a child appends its contents, behind their length, to its parent.
\<close>

section \<open>The buffer keeps its contents\<close>

definition buf_ok :: "cbb_buffer \<Rightarrow> bool" where
  "buf_ok base \<longleftrightarrow> length (b_buf base) = b_cap base \<and> b_len base \<le> b_cap base \<and> b_cap base < SIZE_MOD"

definition contents :: "cbb_buffer \<Rightarrow> bytes" where
  "contents base = take (b_len base) (b_buf base)"

lemma length_contents [simp]: "buf_ok base \<Longrightarrow> length (contents base) = b_len base"
  by (simp add: buf_ok_def contents_def)

lemma buf_ok_error [simp]: "buf_ok (base\<lparr>b_error := e\<rparr>) = buf_ok base"
  by (simp add: buf_ok_def)

lemma contents_error [simp]: "contents (base\<lparr>b_error := e\<rparr>) = contents base"
  by (simp add: contents_def)

text \<open>What every operation keeps of a buffer, whatever it writes.\<close>

definition same_flags :: "cbb_buffer \<Rightarrow> cbb_buffer \<Rightarrow> bool" where
  "same_flags base base' \<longleftrightarrow> b_can_resize base' = b_can_resize base \<and> b_error base' = b_error base"

lemma reserve_Some:
  assumes "cbb_buffer_reserve al base n = (Some out, base')" "buf_ok base" "n < SIZE_MOD"
  shows "out = b_len base \<and> buf_ok base' \<and> b_len base' = b_len base \<and> contents base' = contents base \<and>
    b_len base + n \<le> b_cap base' \<and> same_flags base base' \<and> b_cap base \<le> b_cap base'"
proof -
  let ?newlen = "size_add (b_len base) n"
  have len: "b_len base < SIZE_MOD"
    using assms(2) by (simp add: buf_ok_def)
  have newlen: "?newlen = b_len base + n"
    using assms size_add_overflow [OF len assms(3)]
    by (auto simp: cbb_buffer_reserve_def Let_def size_add_exact split: if_splits)
  show ?thesis
  proof (cases "?newlen > b_cap base")
    case False
    with assms newlen show ?thesis
      by (auto simp: cbb_buffer_reserve_def Let_def same_flags_def split: if_splits)
  next
    case True
    define newcap where "newcap = (let c = size_mul (b_cap base) 2
      in if c < b_cap base \<or> c < ?newlen then ?newlen else c)"
    from assms True newlen obtain buf where buf: "OPENSSL_realloc al (Some (b_buf base)) newcap = Some buf"
      and out: "out = b_len base" "base' = base\<lparr>b_buf := buf, b_cap := newcap\<rparr>"
      by (auto simp: cbb_buffer_reserve_def Let_def newcap_def split: if_splits option.splits)
    have cap: "b_cap base < newcap" "b_len base + n \<le> newcap"
      using True newlen by (auto simp: newcap_def Let_def)
    have "newcap < SIZE_MOD"
      by (simp add: newcap_def Let_def size_mul_def size_add_def)
    moreover have "length buf = newcap" "take (b_len base) buf = take (b_len base) (b_buf base)"
      using OPENSSL_realloc_grow [OF buf] assms(2) cap
      by (auto simp: buf_ok_def min_def)
    ultimately show ?thesis
      using assms(2) cap out by (simp add: buf_ok_def contents_def same_flags_def)
  qed
qed

lemma reserve_None:
  "cbb_buffer_reserve al base n = (None, base') \<Longrightarrow> base' = base\<lparr>b_error := True\<rparr>"
  by (auto simp: cbb_buffer_reserve_def Let_def split: if_splits option.splits)

lemma reserve_room:
  "buf_ok base \<Longrightarrow> b_len base + n \<le> b_cap base \<Longrightarrow> cbb_buffer_reserve al base n = (Some (b_len base), base)"
  by (auto simp: cbb_buffer_reserve_def Let_def buf_ok_def size_add_exact)

lemma add_Some:
  assumes "cbb_buffer_add al base n = (Some out, base')" "buf_ok base" "n < SIZE_MOD"
  shows "out = b_len base \<and> buf_ok base' \<and> b_len base' = b_len base + n \<and>
    take (b_len base) (b_buf base') = contents base \<and> same_flags base base' \<and> b_cap base \<le> b_cap base'"
proof -
  from assms(1) obtain b where b: "cbb_buffer_reserve al base n = (Some out, b)" "base' = b\<lparr>b_len := b_len b + n\<rparr>"
    by (auto simp: cbb_buffer_add_def chk_Some_iff)
  from reserve_Some [OF b(1) assms(2,3)] b(2) show ?thesis
    by (auto simp: buf_ok_def contents_def same_flags_def)
qed

lemma add_None:
  "cbb_buffer_add al base n = (None, base') \<Longrightarrow> base' = base\<lparr>b_error := True\<rparr>"
  by (auto simp: cbb_buffer_add_def chk_def dest: reserve_None split: prod.splits option.splits)

section \<open>Writing into the buffer\<close>

text \<open>A block split around an area of \<open>n\<close> bytes at \<open>off\<close>.\<close>

lemma buf_split:
  assumes "off + n \<le> length buf"
  obtains p q r where "buf = p @ q @ r" "length p = off" "length q = n"
proof
  show "buf = take off buf @ take n (drop off buf) @ drop n (drop off buf)"
    by (simp del: drop_drop)
qed (use assms in auto)

lemma put_be_loop_eq:
  "off + n \<le> length buf \<Longrightarrow>
   put_be_loop off n len buf = (len div 256 ^ n, buf_write buf off (be_bytes n len))"
proof (induction n arbitrary: len buf)
  case 0
  then show ?case by (simp add: buf_write_def)
next
  case (Suc n)
  from buf_split [OF Suc.prems] obtain p q r where b: "buf = p @ q @ r" "length p = off" "length q = Suc n" .
  from b(3) obtain q' c where q: "q = q' @ [c]" "length q' = n"
    by (metis append_butlast_last_id length_0_conv length_butlast diff_Suc_1 nat.distinct(1))
  let ?buf = "buf[off + n := word_of_nat len]"
  have b': "?buf = p @ q' @ word_of_nat len # r"
    using b q by (simp add: list_update_append)
  have "put_be_loop off (Suc n) len buf =
      (len div 256 div 256 ^ n, buf_write ?buf off (be_bytes n (len div 256)))"
    using Suc.IH [of ?buf "len div 256"] Suc.prems by simp
  also have "buf_write ?buf off (be_bytes n (len div 256)) = p @ be_bytes (Suc n) len @ r"
    unfolding b' using b q by (subst buf_write_at) simp_all
  also have "\<dots> = buf_write buf off (be_bytes (Suc n) len)"
    using b by (simp add: buf_write_at del: be_bytes.simps)
  finally show ?case
    by (simp add: div_mult2_eq)
qed

section \<open>Closing one child\<close>

text \<open>The two kinds of pending length prefix, and what each writes before the contents \<open>x\<close>.\<close>

datatype prefix_kind = Fixed nat | Der

fun seal :: "prefix_kind \<Rightarrow> bytes \<Rightarrow> bytes" where
  "seal (Fixed n) x = prefixed n x"
| "seal Der x = der_length (length x) @ x"

text \<open>The contents a prefix can describe.\<close>

fun fits :: "prefix_kind \<Rightarrow> bytes \<Rightarrow> bool" where
  "fits (Fixed n) x \<longleftrightarrow> length x < 256 ^ n"
| "fits Der x \<longleftrightarrow> length x \<le> 0xfffffffe"

definition child_kind :: "cbb_child \<Rightarrow> prefix_kind" where
  "child_kind c = (if c_pending_is_asn1 c then Der else Fixed (c_pending_len_len c))"

definition child_start :: "cbb_child \<Rightarrow> nat" where
  "child_start c = c_offset c + c_pending_len_len c"

definition child_ok :: "cbb_child \<Rightarrow> bool" where
  "child_ok c \<longleftrightarrow> 1 \<le> c_pending_len_len c \<and> c_pending_len_len c \<le> 8 \<and>
     (c_pending_is_asn1 c \<longrightarrow> c_pending_len_len c = 1)"

lemma flush_asn1_eq:
  assumes "len \<le> 0xfffffffe"
  shows "cbb_flush_asn1 al base c start len =
    (if len \<le> 0x7f
     then (Some (c\<lparr>c_offset := c_offset c + 1, c_pending_len_len := 0\<rparr>, 0),
           base\<lparr>b_buf := (b_buf base)[c_offset c := word_of_nat len]\<rparr>)
     else chk (cbb_buffer_add al base (length_bytes len)) (\<lambda>_ base.
       (Some (c\<lparr>c_offset := c_offset c + 1, c_pending_len_len := length_bytes len\<rparr>, len),
        base\<lparr>b_buf := (OPENSSL_memmove (b_buf base) (start + length_bytes len) start len)
          [c_offset c := word_of_nat (128 + length_bytes len)]\<rparr>)))"
proof -
  obtain r b where "cbb_buffer_add al base (length_bytes len) = (r, b)"
    by (cases "cbb_buffer_add al base (length_bytes len)")
  with assms show ?thesis
    by (cases r) (auto simp: cbb_flush_asn1_def Let_def length_bytes_def split: if_splits)
qed

lemma list_update_at: "length p = off \<Longrightarrow> (p @ c # r)[off := d] = p @ d # r"
  by (simp add: list_update_append)

lemma contents_eqI: "b_buf base = x @ t \<Longrightarrow> b_len base = length x \<Longrightarrow> contents base = x"
  by (simp add: contents_def)

lemma length_put_be_loop [simp]: "length (snd (put_be_loop off n len buf)) = length buf"
  by (induction off n len buf rule: put_be_loop.induct) auto

lemma length_memmove: "dst + n \<le> length buf \<Longrightarrow> length (OPENSSL_memmove buf dst src n) = length buf"
  by (simp add: OPENSSL_memmove_def)

text \<open>The long form: \<open>k\<close> more bytes, the contents moved behind them, the length octets filled in.\<close>

lemma flush_asn1_long:
  assumes buf: "buf = p @ [h] @ body @ t" "length p = off" "length body = len" "k \<le> length t"
  shows "take (off + 1 + k + len)
     (snd (put_be_loop (off + 1) k len ((OPENSSL_memmove buf (off + 1 + k) (off + 1) len)[off := l]))) =
     p @ l # be_bytes k len @ body"
proof -
  have "OPENSSL_memmove buf (off + 1 + k) (off + 1) len =
      take (off + 1 + k) buf @ body @ drop (off + 1 + k + len) buf"
    using buf by (simp add: OPENSSL_memmove_def buf_write_def)
  moreover have "take (off + 1 + k) buf = p @ h # take k (body @ t)"
    using buf by simp
  moreover obtain z where z: "z = take k (body @ t)" "length z = k"
    using buf(4) by simp
  ultimately have *: "(OPENSSL_memmove buf (off + 1 + k) (off + 1) len)[off := l] =
      (p @ [l]) @ z @ (body @ drop (off + 1 + k + len) buf)" (is "?buf = _")
    using buf(2) by (simp add: list_update_at)
  have "buf_write ?buf (off + 1) (be_bytes k len) = (p @ [l]) @ be_bytes k len @ (body @ drop (off + 1 + k + len) buf)"
    unfolding * using buf(2) z(2) by (intro buf_write_at) simp_all
  moreover have "off + 1 + k \<le> length ?buf"
    unfolding * using buf(2) z(2) by simp
  ultimately show ?thesis
    using buf(2,3) by (simp add: put_be_loop_eq)
qed

lemma flush_child_Some:
  assumes ok: "buf_ok base" "child_ok c" "child_start c \<le> b_len base"
    and flush: "cbb_flush_child al base c = (Some u, base')"
  shows "buf_ok base' \<and> same_flags base base' \<and> b_cap base \<le> b_cap base' \<and>
    fits (child_kind c) (drop (child_start c) (contents base)) \<and>
    contents base' = take (c_offset c) (contents base) @ seal (child_kind c) (drop (child_start c) (contents base))"
proof -
  let ?off = "c_offset c" and ?k = "c_pending_len_len c" and ?len = "b_len base - child_start c"
  let ?body = "drop (child_start c) (contents base)"
  have size: "length (b_buf base) = b_cap base" "b_len base \<le> b_cap base" "b_cap base < SIZE_MOD"
    using ok(1) by (simp_all add: buf_ok_def)
  have start: "size_add ?off ?k = child_start c"
    using ok(3) size by (simp add: child_start_def size_add_exact)
  have body: "length ?body = ?len"
    using ok(1) by simp
  define p where "p = take ?off (contents base)"
  define q where "q = take ?k (drop ?off (contents base))"
  define t where "t = drop (b_len base) (b_buf base)"
  have "contents base = take (child_start c) (contents base) @ ?body"
    by simp
  also have "take (child_start c) (contents base) = p @ q"
    unfolding child_start_def p_def q_def by (rule take_add)
  finally have pq: "contents base = p @ q @ ?body"
    by simp
  have "b_buf base = contents base @ t"
    by (simp add: contents_def t_def)
  with pq have parts: "b_buf base = p @ q @ ?body @ t"
    by (metis append.assoc)
  have pql: "length p = ?off" "length q = ?k"
    using length_contents [OF ok(1)] ok(3) by (simp_all add: p_def q_def child_start_def)
  have lens: "?off + ?k + ?len = b_len base"
    using ok(3) by (simp add: child_start_def)
  show ?thesis
  proof (cases "c_pending_is_asn1 c")
    case False
    from flush have *: "put_be_loop ?off ?k ?len (b_buf base) = (0, b_buf base')"
        "base' = base\<lparr>b_buf := b_buf base'\<rparr>"
      using False start ok(3) by (auto simp: cbb_flush_child_def Let_def child_start_def split: if_splits prod.splits)
    have "?off + ?k \<le> length (b_buf base)"
      using lens size by simp
    from put_be_loop_eq [OF this, of ?len] *(1)
    have div: "?len div 256 ^ ?k = 0" and buf: "b_buf base' = buf_write (b_buf base) ?off (be_bytes ?k ?len)"
      by auto
    have buf': "b_buf base' = p @ be_bytes ?k ?len @ ?body @ t"
      unfolding buf parts using pql by (intro buf_write_at) simp_all
    have same: "b_len base' = b_len base" "b_cap base' = b_cap base" "same_flags base base'"
      by (subst *(2), simp add: same_flags_def)+
    have "b_len base' = length (p @ be_bytes ?k ?len @ ?body)"
      using pql body lens same by simp
    then have "contents base' = p @ be_bytes ?k ?len @ ?body"
      using buf' by (intro contents_eqI) simp_all
    moreover have "?len < 256 ^ ?k"
      using div by (simp add: div_eq_0_iff)
    moreover have "length (b_buf base') = length (b_buf base)"
      using buf' arg_cong [OF parts, of length] pql by simp
    ultimately show ?thesis
      using False same size body
      by (simp add: child_kind_def prefixed_def p_def buf_ok_def)
  next
    case True
    then have k: "?k = 1"
      using ok(2) by (simp add: child_ok_def)
    then obtain h where q: "q = [h]"
      using pql by (cases q) auto
    have fit: "?len \<le> 0xfffffffe"
      using flush True start ok(3) by (auto simp: cbb_flush_child_def cbb_flush_asn1_def Let_def split: if_splits)
    show ?thesis
    proof (cases "?len \<le> 0x7f")
      case short: True
      from flush have base': "base' = base\<lparr>b_buf := (b_buf base)[?off := word_of_nat ?len]\<rparr>"
        using True short start ok(3) fit by (simp add: cbb_flush_child_def Let_def flush_asn1_eq child_start_def)
      have "b_buf base' = p @ word_of_nat ?len # ?body @ t"
        unfolding base' parts q using pql by (simp add: list_update_at)
      moreover have "b_len base' = length (p @ word_of_nat ?len # ?body)"
        using pql body lens k by (simp add: base')
      ultimately have "contents base' = p @ word_of_nat ?len # ?body"
        by (intro contents_eqI) simp_all
      with short True body show ?thesis
        using ok(1) by (simp add: child_kind_def der_length_def p_def base' buf_ok_def same_flags_def)
    next
      case long: False
      let ?n = "length_bytes ?len"
      have "size_add ?off 1 = ?off + 1"
        using start k by (simp add: child_start_def)
      obtain r b where add': "cbb_buffer_add al base ?n = (r, b)"
        by (cases "cbb_buffer_add al base ?n")
      have cs: "child_start c = ?off + 1" and st: "\<not> child_start c < ?off"
        using k by (simp_all add: child_start_def)
      note unfold = cbb_flush_child_def Let_def start flush_asn1_eq [OF fit] add'
      obtain out where add: "cbb_buffer_add al base ?n = (Some out, b)"
        using flush True long ok(3) add' st by (cases r) (simp_all add: unfold)
      then have base': "base' = b\<lparr>b_buf := snd (put_be_loop (?off + 1) ?n ?len
          ((OPENSSL_memmove (b_buf b) (child_start c + ?n) (child_start c) ?len)[?off := word_of_nat (128 + ?n)]))\<rparr>"
        using flush True long ok(3) add' st
        by (simp add: unfold del: of_nat_add split: prod.splits)
      have "?n < SIZE_MOD"
        using length_bytes_bounds(2) [of ?len] by (rule order.strict_trans1) (simp add: SIZE_MOD_def)
      note b = add_Some [OF add ok(1) this]
      have "b_buf b = p @ [h] @ ?body @ drop (b_len base) (b_buf b)"
        using b pq q by (metis append.assoc append_take_drop_id)
      moreover have "?n \<le> length (drop (b_len base) (b_buf b))"
        using b by (auto simp: buf_ok_def)
      ultimately have "take (?off + 1 + ?n + ?len) (b_buf base') = p @ word_of_nat (128 + ?n) # be_bytes ?n ?len @ ?body"
        using flush_asn1_long [of "b_buf b" p h ?body "drop (b_len base) (b_buf b)" ?off ?len ?n] pql(1) body
        by (simp add: base' cs del: of_nat_add)
      moreover have "b_len base' = ?off + 1 + ?n + ?len"
        using b lens k by (simp add: base')
      moreover have "length (b_buf base') = length (b_buf b)"
      proof -
        have "?off + 1 + ?n + ?len \<le> length (b_buf b)"
          using b lens k by (auto simp: buf_ok_def)
        then show ?thesis by (simp add: base' cs length_memmove)
      qed
      ultimately show ?thesis
        using True long fit b body
        by (simp add: child_kind_def der_length_def p_def base' buf_ok_def same_flags_def contents_def)
    qed
  qed
qed

lemma flush_child_None:
  assumes ok: "buf_ok base" "child_ok c" "child_start c \<le> b_len base"
    and flush: "cbb_flush_child al base c = (None, base')"
  shows "buf_ok base' \<and> b_len base' = b_len base \<and> b_can_resize base' = b_can_resize base"
proof -
  let ?len = "b_len base - child_start c"
  have size: "length (b_buf base) = b_cap base" "b_len base \<le> b_cap base" "b_cap base < SIZE_MOD"
    using ok(1) by (simp_all add: buf_ok_def)
  have start: "size_add (c_offset c) (c_pending_len_len c) = child_start c" "\<not> child_start c < c_offset c"
    using ok(3) size by (simp_all add: child_start_def size_add_exact)
  show ?thesis
  proof (cases "c_pending_is_asn1 c")
    case False
    have "base' = base\<lparr>b_buf := snd (put_be_loop (c_offset c) (c_pending_len_len c) ?len (b_buf base))\<rparr>"
      using flush False start ok(3) by (auto simp: cbb_flush_child_def Let_def split: if_splits prod.splits)
    with ok(1) show ?thesis
      by (simp add: buf_ok_def)
  next
    case True
    show ?thesis
    proof (cases "?len \<le> 0xfffffffe")
      case False
      with flush True start ok(3) have "base' = base"
        by (simp add: cbb_flush_child_def Let_def cbb_flush_asn1_def)
      with ok(1) show ?thesis by simp
    next
      case fit: True
      note unfold = cbb_flush_child_def Let_def start(1) flush_asn1_eq [OF fit]
      obtain r b where add: "cbb_buffer_add al base (length_bytes ?len) = (r, b)"
        by (cases "cbb_buffer_add al base (length_bytes ?len)")
      show ?thesis
      proof (cases r)
        case None
        with add have "b = base\<lparr>b_error := True\<rparr>"
          using add_None by blast
        with flush True start(2) ok add None show ?thesis
          by (auto simp: unfold buf_ok_def split: if_splits)
      next
        case (Some out)
        have b: "buf_ok b" "b_len b = b_len base + length_bytes ?len"
        proof -
          have "length_bytes ?len < SIZE_MOD"
            using length_bytes_bounds(2) [of ?len] by (rule order.strict_trans1) (simp add: SIZE_MOD_def)
          with add_Some [OF add [unfolded Some] ok(1)] show "buf_ok b" "b_len b = b_len base + length_bytes ?len"
            by simp_all
        qed
        have k: "c_pending_len_len c = 1"
          using ok(2) True by (simp add: child_ok_def)
        have "c_offset c + 1 + length_bytes ?len \<le> length (b_buf b)"
          using b ok(3) k by (auto simp: buf_ok_def child_start_def)
        moreover have "child_start c + length_bytes ?len + ?len \<le> length (b_buf b)"
          using b ok(3) by (auto simp: buf_ok_def)
        moreover have "?len div 256 ^ length_bytes ?len = 0"
          using fit length_bytes_fits [of ?len] by (simp add: div_eq_0_iff)
        ultimately show ?thesis
          using flush True start(2) ok(3) add Some
          by (auto simp: unfold put_be_loop_eq length_memmove split: if_splits)
      qed
    qed
  qed
qed

section \<open>The abstract builder\<close>

text \<open>
  The contract of the builder: the open length prefixes, outermost first, and the contents of the root
  and of each open child so far, one list longer.
\<close>

type_synonym builder = "prefix_kind list \<times> bytes list"

definition put_last :: "bytes \<Rightarrow> bytes list \<Rightarrow> bytes list" where
  "put_last x xs = butlast xs @ [List.last xs @ x]"

text \<open>Closing the innermost child adds its sealed contents to its parent.\<close>

definition a_close :: "builder \<Rightarrow> builder" where
  "a_close b = (butlast (fst b), put_last (seal (List.last (fst b)) (List.last (snd b))) (butlast (snd b)))"

definition a_flush :: "nat \<Rightarrow> builder \<Rightarrow> builder" where
  "a_flush d b = (a_close ^^ (length (fst b) - d)) b"

definition a_add :: "nat \<Rightarrow> bytes \<Rightarrow> builder \<Rightarrow> builder" where
  "a_add d x b = (fst (a_flush d b), put_last x (snd (a_flush d b)))"

definition a_open :: "nat \<Rightarrow> prefix_kind \<Rightarrow> builder \<Rightarrow> builder" where
  "a_open d k b = (fst (a_flush d b) @ [k], snd (a_flush d b) @ [[]])"

text \<open>The abstraction: the contents cut at the offsets of the children.\<close>

fun segments :: "nat \<Rightarrow> cbb_child list \<Rightarrow> bytes \<Rightarrow> bytes list" where
  "segments start [] bs = [drop start bs]"
| "segments start (c # cs) bs = drop start (take (c_offset c) bs) # segments (child_start c) cs bs"

fun children_ok :: "nat \<Rightarrow> cbb_child list \<Rightarrow> nat \<Rightarrow> bool" where
  "children_ok start [] len \<longleftrightarrow> start \<le> len"
| "children_ok start (c # cs) len \<longleftrightarrow> start \<le> c_offset c \<and> child_ok c \<and> children_ok (child_start c) cs len"

definition cbb_ok :: "cbb \<Rightarrow> bool" where
  "cbb_ok cbb \<longleftrightarrow> buf_ok (cbb_base cbb) \<and> children_ok 0 (cbb_children cbb) (b_len (cbb_base cbb))"

definition builder_of :: "cbb_child list \<Rightarrow> bytes \<Rightarrow> builder" where
  "builder_of cs bs = (map child_kind cs, segments 0 cs bs)"

definition cbb_abs :: "cbb \<Rightarrow> builder" where
  "cbb_abs cbb = builder_of (cbb_children cbb) (contents (cbb_base cbb))"

lemma length_segments [simp]: "length (segments start cs bs) = Suc (length cs)"
  by (induction cs arbitrary: start) auto

lemma segments_nonempty [simp]: "segments start cs bs \<noteq> []"
  by (cases cs) auto

lemma children_ok_start: "children_ok start cs len \<Longrightarrow> start \<le> len"
proof (induction cs arbitrary: start)
  case (Cons c cs)
  then have "child_start c \<le> len" by simp
  with Cons.prems show ?case by (simp add: child_start_def)
qed simp

lemma children_ok_mono: "children_ok start cs len \<Longrightarrow> len \<le> len' \<Longrightarrow> children_ok start cs len'"
  by (induction cs arbitrary: start) auto

lemma children_ok_append:
  "children_ok start (cs @ [c]) len \<longleftrightarrow>
   children_ok start cs (c_offset c) \<and> child_ok c \<and> child_start c \<le> len"
  by (induction cs arbitrary: start) auto

lemma segments_append:
  "children_ok start cs (c_offset c) \<Longrightarrow> c_offset c \<le> length bs \<Longrightarrow>
   segments start (cs @ [c]) bs = segments start cs (take (c_offset c) bs) @ [drop (child_start c) bs]"
proof (induction cs arbitrary: start)
  case Nil
  then show ?case by simp
next
  case (Cons a cs)
  then have "c_offset a \<le> c_offset c"
    using children_ok_start by (fastforce simp: child_start_def)
  with Cons show ?case by (simp add: min_def)
qed

lemma segments_put:
  "children_ok start cs (length bs) \<Longrightarrow> segments start cs (bs @ x) = put_last x (segments start cs bs)"
proof (induction cs arbitrary: start)
  case Nil
  then show ?case by (simp add: put_last_def)
next
  case (Cons a cs)
  then have "c_offset a \<le> length bs"
    using children_ok_start by (fastforce simp: child_start_def)
  with Cons show ?case by (simp add: put_last_def)
qed

lemma builder_of_put:
  "children_ok 0 cs (length bs) \<Longrightarrow> builder_of cs (bs @ x) = (fst (builder_of cs bs), put_last x (snd (builder_of cs bs)))"
  by (simp add: builder_of_def segments_put)

lemma builder_of_open:
  assumes "children_ok 0 cs (length bs)" "c_offset c = length bs" "child_start c = length bs + length z"
  shows "builder_of (cs @ [c]) (bs @ z) = (fst (builder_of cs bs) @ [child_kind c], snd (builder_of cs bs) @ [[]])"
  using assms by (simp add: builder_of_def segments_append)

text \<open>Writing the pending length of the innermost child is \<open>a_close\<close>.\<close>

lemma builder_of_close:
  assumes "children_ok 0 (cs @ [c]) (length bs)"
  shows "builder_of cs (take (c_offset c) bs @ seal (child_kind c) (drop (child_start c) bs)) =
    a_close (builder_of (cs @ [c]) bs)"
proof -
  have ok: "children_ok 0 cs (c_offset c)" "c_offset c \<le> length bs"
    using assms by (auto simp: children_ok_append child_start_def)
  then have "length (take (c_offset c) bs) = c_offset c"
    by simp
  with ok show ?thesis
    by (simp add: builder_of_def a_close_def segments_append segments_put)
qed

lemma a_flush_here [simp]: "length (fst b) = d \<Longrightarrow> a_flush d b = b"
  by (simp add: a_flush_def)

lemma a_flush_step:
  "d < length (fst b) \<Longrightarrow> a_flush d b = a_close (a_flush (Suc d) b)"
proof -
  assume "d < length (fst b)"
  then have "length (fst b) - d = Suc (length (fst b) - Suc d)"
    by simp
  then show ?thesis by (simp add: a_flush_def)
qed

lemma length_fst_a_flush [simp]: "d \<le> length (fst b) \<Longrightarrow> length (fst (a_flush d b)) = d"
proof (induction "length (fst b) - d" arbitrary: d)
  case 0
  then show ?case by (simp add: a_flush_def)
next
  case (Suc n)
  then have "length (fst (a_flush (Suc d) b)) = Suc d"
    by (intro Suc.hyps(1)) simp_all
  with Suc show ?case
    by (simp add: a_flush_step a_close_def)
qed

section \<open>Flushing refines the abstract flush\<close>

lemma cbb_on_error_ok: "cbb_ok cbb \<Longrightarrow> cbb_ok (cbb_on_error d cbb)"
proof -
  have "children_ok start (take d cs) len" if "children_ok start cs len" for start d cs len
    using that
  proof (induction cs arbitrary: start d)
    case (Cons c cs)
    then have "start \<le> len"
      using children_ok_start by blast
    with Cons show ?case by (cases d) auto
  qed simp
  then show "cbb_ok cbb \<Longrightarrow> cbb_ok (cbb_on_error d cbb)"
    by (simp add: cbb_ok_def cbb_on_error_def)
qed

text \<open>
  A flush that fails leaves a well-formed builder with the error bit set; one that succeeds writes
  the open lengths down to the handle and does to the contents what the abstract flush does.
\<close>

lemma take_Suc_snoc: "length xs = Suc d \<Longrightarrow> xs = take d xs @ [xs ! d]"
  by (metis lessI order_refl take_Suc_conv_app_nth take_all_iff)

lemma CBB_flush_cases:
  assumes "cbb_ok cbb" "CBB_flush d cbb = (r, cbb')"
  shows "cbb_ok cbb' \<and> cbb_alloc cbb' = cbb_alloc cbb \<and>
    b_can_resize (cbb_base cbb') = b_can_resize (cbb_base cbb) \<and>
    (case r of
       None \<Rightarrow> length (cbb_children cbb) < d \<and> cbb' = cbb \<or> b_error (cbb_base cbb')
     | Some u \<Rightarrow> d \<le> length (cbb_children cbb) \<and> \<not> b_error (cbb_base cbb) \<and>
         \<not> b_error (cbb_base cbb') \<and>
         cbb_children cbb' = take d (cbb_children cbb) \<and> cbb_abs cbb' = a_flush d (cbb_abs cbb))"
  using assms
proof (induction d cbb arbitrary: r cbb' rule: CBB_flush.induct)
  case (1 d cbb)
  let ?cs = "cbb_children cbb"
  consider (stuck) "length ?cs < d \<or> b_error (cbb_base cbb)"
    | (here) "length ?cs = d" "\<not> b_error (cbb_base cbb)"
    | (rec) "d < length ?cs" "\<not> b_error (cbb_base cbb)"
    by linarith
  then show ?case
  proof cases
    case stuck
    with 1 show ?thesis by (auto simp: CBB_flush.simps [of d])
  next
    case here
    with 1 show ?thesis by (auto simp: CBB_flush.simps [of d] cbb_abs_def builder_of_def)
  next
    case rec
    obtain r1 cbb1 where inner: "CBB_flush (Suc d) cbb = (r1, cbb1)"
      by (cases "CBB_flush (Suc d) cbb")
    have IH: "cbb_ok cbb1 \<and> cbb_alloc cbb1 = cbb_alloc cbb \<and>
        b_can_resize (cbb_base cbb1) = b_can_resize (cbb_base cbb) \<and>
        (case r1 of None \<Rightarrow> length ?cs < Suc d \<and> cbb1 = cbb \<or> b_error (cbb_base cbb1)
         | Some u \<Rightarrow> Suc d \<le> length ?cs \<and> \<not> b_error (cbb_base cbb) \<and> \<not> b_error (cbb_base cbb1) \<and>
           cbb_children cbb1 = take (Suc d) ?cs \<and> cbb_abs cbb1 = a_flush (Suc d) (cbb_abs cbb))"
      using rec "1.prems"(1) inner by (intro "1.IH") simp_all
    have unfold: "CBB_flush d cbb = cbb_or_error d (chk (r1, cbb1) (\<lambda>_ cbb'.
        chk (cbb_on_base d (\<lambda>al base. cbb_flush_child al base (?cs ! d)) cbb') (\<lambda>_ cbb'.
          (Some (), cbb'\<lparr>cbb_children := take d (cbb_children cbb')\<rparr>))))"
      using rec by (simp add: CBB_flush.simps [of d] Let_def inner)
    show ?thesis
    proof (cases r1)
      case None
      with 1 unfold have "r = None" "cbb' = cbb_on_error d cbb1"
        by (simp_all add: cbb_or_error_def)
      with IH show ?thesis
        by (auto intro: cbb_on_error_ok) (simp_all add: cbb_on_error_def)
    next
      case (Some u)
      let ?c = "?cs ! d" and ?base = "cbb_base cbb1"
      have cs1: "cbb_children cbb1 = take d ?cs @ [?c]"
        using IH Some rec by (simp add: take_Suc_conv_app_nth)
      then have len1: "length (cbb_children cbb1) = Suc d"
        using rec by simp
      have ok: "buf_ok ?base" "child_ok ?c" "child_start ?c \<le> b_len ?base"
        and ok_cs: "children_ok 0 (take d ?cs @ [?c]) (b_len ?base)"
        using IH cs1 by (auto simp: cbb_ok_def children_ok_append)
      obtain r2 base2 where child: "cbb_flush_child (cbb_alloc cbb1) ?base ?c = (r2, base2)"
        by (cases "cbb_flush_child (cbb_alloc cbb1) ?base ?c")
      show ?thesis
      proof (cases r2)
        case None
        have "cbb' = cbb_on_error d (cbb1\<lparr>cbb_base := base2\<rparr>)" "r = None"
          using "1.prems"(2) Some None child len1 unfold by (simp_all add: cbb_or_error_def cbb_on_base_def)
        moreover have "cbb_ok (cbb1\<lparr>cbb_base := base2\<rparr>)"
          using flush_child_None [OF ok child [unfolded None]] IH by (simp add: cbb_ok_def)
        moreover have "b_can_resize base2 = b_can_resize ?base"
          using flush_child_None [OF ok child [unfolded None]] by simp
        ultimately show ?thesis
          using IH by (auto intro: cbb_on_error_ok) (simp_all add: cbb_on_error_def)
      next
        case Some2: (Some u2)
        note c = flush_child_Some [OF ok child [unfolded Some2]]
        have cbb': "cbb' = cbb1\<lparr>cbb_base := base2, cbb_children := take d ?cs\<rparr>" "r = Some ()"
          using "1.prems"(2) Some Some2 child len1 unfold cs1 by (auto simp: cbb_or_error_def cbb_on_base_def)
        have len: "c_offset ?c \<le> b_len base2"
          using c ok by (metis length_append length_contents length_take min.absorb2 le_add1 child_start_def le_trans add_leD1)
        have "cbb_abs cbb' = a_close (cbb_abs cbb1)"
          using c cs1 ok_cs ok builder_of_close [of "take d ?cs" ?c "contents ?base"]
          by (simp add: cbb' cbb_abs_def)
        also have "\<dots> = a_flush d (cbb_abs cbb)"
        proof -
          have "d < length (fst (cbb_abs cbb))"
            using rec by (simp add: cbb_abs_def builder_of_def)
          then show ?thesis
            using IH Some by (simp add: a_flush_step)
        qed
        finally have abs: "cbb_abs cbb' = a_flush d (cbb_abs cbb)" .
        have "children_ok 0 (take d ?cs) (b_len base2)"
          using ok_cs len by (auto simp: children_ok_append intro: children_ok_mono)
        with abs c cbb' IH Some rec show ?thesis
          by (simp add: cbb_ok_def same_flags_def)
      qed
    qed
  qed
qed

section \<open>Every operation refines its abstract counterpart\<close>

text \<open>
  \<open>refines g cbb r\<close>: the call that returned \<open>r\<close> on \<open>cbb\<close> keeps the invariant, whether it succeeds or
  fails, and when it succeeds it has done \<open>g\<close> to the abstract builder.
\<close>

definition refines :: "(builder \<Rightarrow> builder) \<Rightarrow> cbb \<Rightarrow> 'a option \<times> cbb \<Rightarrow> bool" where
  "refines g cbb r \<longleftrightarrow> cbb_ok (snd r) \<and> cbb_alloc (snd r) = cbb_alloc cbb \<and>
     b_can_resize (cbb_base (snd r)) = b_can_resize (cbb_base cbb) \<and>
     (fst r \<noteq> None \<longrightarrow> \<not> b_error (cbb_base (snd r)) \<and> cbb_abs (snd r) = g (cbb_abs cbb))"

lemma length_fst_cbb_abs [simp]: "length (fst (cbb_abs cbb)) = length (cbb_children cbb)"
  by (simp add: cbb_abs_def builder_of_def)

lemma refines_return: "cbb_ok cbb \<Longrightarrow> \<not> b_error (cbb_base cbb) \<Longrightarrow> refines (\<lambda>b. b) cbb (Some x, cbb)"
  by (simp add: refines_def)

lemma refines_chk:
  assumes "refines g cbb r" "\<And>x cbb'. r = (Some x, cbb') \<Longrightarrow> cbb_ok cbb' \<Longrightarrow> \<not> b_error (cbb_base cbb') \<Longrightarrow> refines h cbb' (f x cbb')"
  shows "refines (\<lambda>b. h (g b)) cbb (chk r f)"
proof (cases r)
  case (Pair o1 c1)
  show ?thesis
  proof (cases o1)
    case None
    with assms(1) Pair show ?thesis by (simp add: refines_def)
  next
    case (Some x)
    with assms(1) Pair have "refines h c1 (f x c1)"
      by (intro assms(2)) (simp_all add: refines_def)
    with assms(1) Pair Some show ?thesis by (simp add: refines_def)
  qed
qed

lemma refines_or_error: "refines g cbb r \<Longrightarrow> refines g cbb (cbb_or_error d r)"
  by (cases r; cases "fst r") (auto simp: refines_def cbb_or_error_def cbb_on_error_ok, simp_all add: cbb_on_error_def)

lemma refines_eq: "refines g cbb r \<Longrightarrow> g (cbb_abs cbb) = h (cbb_abs cbb) \<Longrightarrow> refines h cbb r"
  by (simp add: refines_def)

lemma CBB_flush_refines: "cbb_ok cbb \<Longrightarrow> refines (a_flush d) cbb (CBB_flush d cbb)"
  using CBB_flush_cases [of cbb d "fst (CBB_flush d cbb)" "snd (CBB_flush d cbb)"]
  by (auto simp: refines_def split: option.splits)

lemma CBB_flush_Some:
  assumes "cbb_ok cbb" "CBB_flush d cbb = (Some u, cbb')"
  shows "d \<le> length (cbb_children cbb)" "length (cbb_children cbb') = d" "cbb_ok cbb'"
    "\<not> b_error (cbb_base cbb)" "\<not> b_error (cbb_base cbb')"
  using CBB_flush_cases [OF assms] by auto

lemma CBB_flush_clean: "length (cbb_children cbb) = d \<Longrightarrow> \<not> b_error (cbb_base cbb) \<Longrightarrow> CBB_flush d cbb = (Some (), cbb)"
  by (subst CBB_flush.simps) simp

text \<open>Adding \<open>data\<close> through the pointer that \<open>CBB_add_space\<close> returns.\<close>

lemma CBB_add_space_None:
  "cbb_ok cbb \<Longrightarrow> CBB_add_space d n cbb = (None, cbb') \<Longrightarrow>
   cbb_ok cbb' \<and> cbb_alloc cbb' = cbb_alloc cbb \<and>
   b_can_resize (cbb_base cbb') = b_can_resize (cbb_base cbb)"
proof -
  assume ok: "cbb_ok cbb" and add: "CBB_add_space d n cbb = (None, cbb')"
  obtain r c where flush: "CBB_flush d cbb = (r, c)"
    by (cases "CBB_flush d cbb")
  note c = CBB_flush_cases [OF ok flush]
  show ?thesis
  proof (cases r)
    case None
    with add flush have "cbb' = c" by (simp add: CBB_add_space_def)
    with c show ?thesis by simp
  next
    case (Some u)
    with add flush have "cbb_on_base d (\<lambda>al base. cbb_buffer_add al base n) c = (None, cbb')"
      by (simp add: CBB_add_space_def)
    with c Some show ?thesis
      by (auto simp: cbb_on_base_def cbb_ok_def buf_ok_def split: prod.splits dest!: add_None)
  qed
qed

lemma CBB_add_space_Some:
  assumes ok: "cbb_ok cbb" and n: "n < SIZE_MOD" and add: "CBB_add_space d n cbb = (Some out, cbb')"
    and data: "length data = n"
  shows "refines (a_add d data) cbb (Some x, cbb_write out data cbb')"
    and "out + n \<le> length (b_buf (cbb_base cbb'))" and "\<not> b_error (cbb_base cbb')"
    and "d \<le> length (cbb_children cbb)"
proof -
  from add obtain u c where flush: "CBB_flush d cbb = (Some u, c)"
    and space: "cbb_on_base d (\<lambda>al base. cbb_buffer_add al base n) c = (Some out, cbb')"
    by (auto simp: CBB_add_space_def chk_Some_iff)
  note c = CBB_flush_cases [OF ok flush]
  from space obtain base where base: "cbb_buffer_add (cbb_alloc c) (cbb_base c) n = (Some out, base)"
    and cbb': "cbb' = c\<lparr>cbb_base := base\<rparr>"
    by (auto simp: cbb_on_base_def split: if_splits prod.splits)
  have okc: "buf_ok (cbb_base c)" "children_ok 0 (cbb_children c) (b_len (cbb_base c))"
    using conjunct1 [OF c] by (simp_all add: cbb_ok_def)
  note b = add_Some [OF base okc(1) n]
  have cont: "contents ((base\<lparr>b_buf := buf_write (b_buf base) out data\<rparr>)) = contents (cbb_base c) @ data"
  proof -
    have "out + length data \<le> length (b_buf base)"
      using b data by (auto simp: buf_ok_def)
    then show ?thesis
      using b data take_buf_write [of out data "b_buf base"] by (simp add: contents_def)
  qed
  have "buf_ok (base\<lparr>b_buf := buf_write (b_buf base) out data\<rparr>)"
    using b data by (auto simp: buf_ok_def)
  moreover have "cbb_abs (cbb_write out data cbb') = a_add d data (cbb_abs cbb)"
  proof -
    have "cbb_abs c = a_flush d (cbb_abs cbb)"
      using c by simp
    moreover have "cbb_abs (cbb_write out data cbb') = builder_of (cbb_children c) (contents (cbb_base c) @ data)"
      using cont by (simp add: cbb_abs_def cbb_write_def cbb')
    moreover have "children_ok 0 (cbb_children c) (length (contents (cbb_base c)))"
      using okc by simp
    ultimately show ?thesis
      by (simp add: builder_of_put a_add_def cbb_abs_def)
  qed
  ultimately show "refines (a_add d data) cbb (Some x, cbb_write out data cbb')"
    using c b okc by (auto simp: refines_def cbb_ok_def cbb_write_def cbb' same_flags_def intro: children_ok_mono)
  show "out + n \<le> length (b_buf (cbb_base cbb'))" "\<not> b_error (cbb_base cbb')"
    using b c by (auto simp: cbb' buf_ok_def same_flags_def)
  show "d \<le> length (cbb_children cbb)"
    using c by simp
qed

lemma refines_None: "cbb_ok cbb' \<Longrightarrow> cbb_alloc cbb' = cbb_alloc cbb \<Longrightarrow>
   b_can_resize (cbb_base cbb') = b_can_resize (cbb_base cbb) \<Longrightarrow> refines g cbb (None, cbb')"
  by (simp add: refines_def)

lemma add_data_refines:
  assumes "cbb_ok cbb" "length data < SIZE_MOD"
  shows "refines (a_add d data) cbb
    (chk (CBB_add_space d (length data) cbb) (\<lambda>out cbb. (Some (), cbb_write out data cbb)))"
proof (cases "CBB_add_space d (length data) cbb")
  case (Pair r c)
  show ?thesis
  proof (cases r)
    case None
    with Pair CBB_add_space_None [OF assms(1)] show ?thesis
      by (auto intro: refines_None)
  next
    case (Some out)
    with Pair CBB_add_space_Some(1) [OF assms Pair [unfolded Some] refl] show ?thesis by simp
  qed
qed

lemma CBB_add_bytes_refines:
  assumes "cbb_ok cbb" "n \<le> length data" "n < SIZE_MOD"
  shows "refines (a_add d (take n data)) cbb (CBB_add_bytes d data n cbb)"
  using add_data_refines [of cbb "take n data" d] assms by (simp add: CBB_add_bytes_def min_absorb2)

lemma CBB_add_zeros_refines:
  assumes "cbb_ok cbb" "n < SIZE_MOD"
  shows "refines (a_add d (replicate n 0)) cbb (CBB_add_zeros d n cbb)"
  using add_data_refines [of cbb "replicate n 0" d] assms by (simp add: CBB_add_zeros_def)

lemma cbb_add_u_eq:
  assumes "cbb_ok cbb" "n \<le> 8"
  shows "cbb_add_u d v n cbb = chk (CBB_add_space d n cbb) (\<lambda>out cbb.
    if unat v < 256 ^ n then (Some (), cbb_write out (be_bytes n (unat v)) cbb)
    else (None, cbb_on_error d (cbb_write out (be_bytes n (unat v)) cbb)))"
proof (cases "CBB_add_space d n cbb")
  case (Pair r c)
  show ?thesis
  proof (cases r)
    case (Some out)
    have "n < SIZE_MOD"
      using assms(2) by (rule order.strict_trans1) (simp add: SIZE_MOD_def)
    from CBB_add_space_Some(2) [OF assms(1) this Pair [unfolded Some], of "replicate n 0"]
    have "out + n \<le> length (b_buf (cbb_base c))" by simp
    with Pair Some show ?thesis
      by (auto simp: cbb_add_u_def put_be_loop_eq cbb_write_def div_eq_0_iff Let_def)
  qed (simp add: Pair cbb_add_u_def)
qed

lemma cbb_add_u_refines:
  assumes "cbb_ok cbb" "n \<le> 8" "unat v < 256 ^ n"
  shows "refines (a_add d (be_bytes n (unat v))) cbb (cbb_add_u d v n cbb)"
proof -
  have "n < SIZE_MOD"
    using assms(2) by (rule order.strict_trans1) (simp add: SIZE_MOD_def)
  with assms add_data_refines [of cbb "be_bytes n (unat v)" d] show ?thesis
    by (simp add: cbb_add_u_eq)
qed

text \<open>The typed writers.\<close>

lemma CBB_add_u8_refines: "cbb_ok cbb \<Longrightarrow> refines (a_add d [v]) cbb (CBB_add_u8 d v cbb)"
  using cbb_add_u_refines [of cbb 1 "ucast v" d] by (simp add: CBB_add_u8_def unat_ucast_up)

lemma CBB_add_u16_refines: "cbb_ok cbb \<Longrightarrow> refines (a_add d (be_bytes 2 (unat v))) cbb (CBB_add_u16 d v cbb)"
  using cbb_add_u_refines [of cbb 2 "ucast v" d] unsigned_less [of v, where ?'a = nat]
  by (simp add: CBB_add_u16_def unat_ucast_up)

lemma CBB_add_u32_refines: "cbb_ok cbb \<Longrightarrow> refines (a_add d (be_bytes 4 (unat v))) cbb (CBB_add_u32 d v cbb)"
  using cbb_add_u_refines [of cbb 4 "ucast v" d] unsigned_less [of v, where ?'a = nat]
  by (simp add: CBB_add_u32_def unat_ucast_up)

lemma CBB_add_u64_refines: "cbb_ok cbb \<Longrightarrow> refines (a_add d (be_bytes 8 (unat v))) cbb (CBB_add_u64 d v cbb)"
  using cbb_add_u_refines [of cbb 8 v d] unsigned_less [of v, where ?'a = nat]
  by (simp add: CBB_add_u64_def)

lemma CBB_add_u24_refines:
  "cbb_ok cbb \<Longrightarrow> unat v < 2 ^ 24 \<Longrightarrow> refines (a_add d (be_bytes 3 (unat v))) cbb (CBB_add_u24 d v cbb)"
  using cbb_add_u_refines [of cbb 3 "ucast v" d] by (simp add: CBB_add_u24_def unat_ucast_up)

text \<open>A 24-bit write of a larger value fails.\<close>

lemma CBB_add_u24_overflow:
  assumes "cbb_ok cbb" "2 ^ 24 \<le> unat v"
  shows "fst (CBB_add_u24 d v cbb) = None"
proof (cases "CBB_add_space d 3 cbb")
  case (Pair r c)
  with assms show ?thesis
    by (cases r) (simp_all add: CBB_add_u24_def cbb_add_u_eq unat_ucast_up not_less)
qed

section \<open>Children\<close>

lemma cbb_add_child_refines:
  assumes ok: "cbb_ok cbb" and here: "length (cbb_children cbb) = d" "\<not> b_error (cbb_base cbb)"
    and n: "1 \<le> n" "n \<le> 8" "asn1 \<Longrightarrow> n = 1"
  shows "refines (a_open d (if asn1 then Der else Fixed n)) cbb (cbb_add_child d n asn1 cbb)"
proof -
  obtain r base where add: "cbb_buffer_add (cbb_alloc cbb) (cbb_base cbb) n = (r, base)"
    by (cases "cbb_buffer_add (cbb_alloc cbb) (cbb_base cbb) n")
  have okc: "buf_ok (cbb_base cbb)" "children_ok 0 (cbb_children cbb) (b_len (cbb_base cbb))"
    using ok by (simp_all add: cbb_ok_def)
  show ?thesis
  proof (cases r)
    case None
    with add have "cbb_add_child d n asn1 cbb = (None, cbb\<lparr>cbb_base := base\<rparr>)"
      using here by (simp add: cbb_add_child_def cbb_on_base_def)
    moreover have "base = (cbb_base cbb)\<lparr>b_error := True\<rparr>"
      using add None add_None by blast
    ultimately show ?thesis
      using okc by (simp add: refines_def cbb_ok_def)
  next
    case (Some out)
    have "n < SIZE_MOD"
      using n(2) by (rule order.strict_trans1) (simp add: SIZE_MOD_def)
    note b = add_Some [OF add [unfolded Some] okc(1) this]
    define buf where "buf = buf_write (b_buf base) out (replicate n 0)"
    define c where "c = \<lparr>c_offset = out, c_pending_len_len = n, c_pending_is_asn1 = asn1\<rparr>"
    have res: "cbb_add_child d n asn1 cbb =
        (Some (), cbb\<lparr>cbb_base := base\<lparr>b_buf := buf\<rparr>, cbb_children := cbb_children cbb @ [c]\<rparr>)"
      using add Some here by (simp add: cbb_add_child_def cbb_on_base_def buf_def c_def)
    have room: "out + length (replicate n 0) \<le> length (b_buf base)"
      using b by (auto simp: buf_ok_def)
    have cont: "contents (base\<lparr>b_buf := buf\<rparr>) = contents (cbb_base cbb) @ replicate n 0"
      using b take_buf_write [OF room] by (simp add: contents_def buf_def)
    have "length buf = length (b_buf base)"
      using room by (simp add: buf_def)
    then have "buf_ok (base\<lparr>b_buf := buf\<rparr>)"
      using b by (simp add: buf_ok_def)
    moreover have "child_ok c" "child_start c = b_len base" "c_offset c = b_len (cbb_base cbb)"
      using n b by (auto simp: c_def child_ok_def child_start_def)
    moreover have "child_kind c = (if asn1 then Der else Fixed n)"
      by (simp add: c_def child_kind_def)
    moreover have "builder_of (cbb_children cbb @ [c]) (contents (cbb_base cbb) @ replicate n 0) =
        (fst (cbb_abs cbb) @ [child_kind c], snd (cbb_abs cbb) @ [[]])"
      unfolding cbb_abs_def using okc b calculation by (intro builder_of_open) simp_all
    ultimately show ?thesis
      using okc b cont here unfolding res
      by (simp add: refines_def cbb_ok_def cbb_abs_def children_ok_append a_open_def same_flags_def builder_of_def)
  qed
qed

lemma length_fst_a_flush_le: "length (fst (a_flush d b)) \<le> d"
proof (cases "d \<le> length (fst b)")
  case False
  then show ?thesis by (simp add: a_flush_def)
qed simp

lemma a_flush_small: "length (fst b) \<le> d \<Longrightarrow> a_flush d b = b"
  by (simp add: a_flush_def)

lemma a_flush_idem [simp]: "a_flush d (a_flush d b) = a_flush d b"
  by (rule a_flush_small) (rule length_fst_a_flush_le)

lemma put_last_put_last [simp]: "put_last y (put_last x xs) = put_last (x @ y) xs"
  by (simp add: put_last_def)

lemma a_open_a_flush [simp]: "a_open d k (a_flush d b) = a_open d k b"
  by (simp add: a_open_def)

lemma a_add_a_flush [simp]: "a_add d x (a_flush d b) = a_add d x b"
  by (simp add: a_add_def)

lemma a_flush_a_add [simp]: "a_flush d (a_add d x b) = a_add d x b"
  by (rule a_flush_small) (simp add: a_add_def length_fst_a_flush_le)

lemma a_add_a_add [simp]: "a_add d y (a_add d x b) = a_add d (x @ y) b"
proof -
  have "a_add d y (a_add d x b) = (fst (a_add d x b), put_last y (snd (a_add d x b)))"
    by (simp only: a_add_def [of d y] a_flush_a_add)
  then show ?thesis by (simp add: a_add_def)
qed

text \<open>Opening a child, filling it and closing it again adds the sealed contents.\<close>

lemma a_open_add_flush:
  assumes "d \<le> length (fst b)"
  shows "a_flush d (a_add (Suc d) x (a_open d k b)) = a_add d (seal k x) b"
    and "a_flush d (a_open d k b) = a_add d (seal k []) b"
proof -
  let ?ks = "fst (a_flush d b)" and ?xs = "snd (a_flush d b)"
  have len: "length ?ks = d"
    using assms by simp
  then have here: "a_flush (Suc d) (a_open d k b) = a_open d k b"
    by (intro a_flush_small) (simp add: a_open_def)
  have open_x: "a_add (Suc d) x (a_open d k b) = (?ks @ [k], ?xs @ [x])"
    by (simp add: a_add_def here) (simp add: a_open_def put_last_def)
  have close: "a_flush d (?ks @ [k], ?xs @ [y]) = a_add d (seal k y) b" for y
  proof -
    have "a_flush d (?ks @ [k], ?xs @ [y]) = a_close (?ks @ [k], ?xs @ [y])"
      using len by (simp add: a_flush_def)
    then show ?thesis
      by (simp add: a_close_def a_add_def)
  qed
  show "a_flush d (a_add (Suc d) x (a_open d k b)) = a_add d (seal k x) b"
    unfolding open_x by (rule close)
  show "a_flush d (a_open d k b) = a_add d (seal k []) b"
    using close [of "[]"] by (simp add: a_open_def)
qed

lemma cbb_add_length_prefixed_refines:
  assumes "cbb_ok cbb" "1 \<le> n" "n \<le> 8"
  shows "refines (a_open d (Fixed n)) cbb (cbb_add_length_prefixed d n cbb)"
  unfolding cbb_add_length_prefixed_def
proof (rule refines_eq, rule refines_chk [where h = "a_open d (Fixed n)"])
  show "refines (a_flush d) cbb (CBB_flush d cbb)"
    by (rule CBB_flush_refines) fact
  show "refines (a_open d (Fixed n)) c (cbb_add_child d n False c)"
    if "CBB_flush d cbb = (Some x, c)" for x c
    using cbb_add_child_refines [of c d n False] CBB_flush_Some [OF assms(1) that] assms by simp
  show "a_open d (Fixed n) (a_flush d (cbb_abs cbb)) = a_open d (Fixed n) (cbb_abs cbb)"
    by simp
qed

section \<open>Base-128 integers and tags\<close>

lemma refines_weaken:
  "refines g cbb r \<Longrightarrow> (fst r \<noteq> None \<Longrightarrow> g (cbb_abs cbb) = h (cbb_abs cbb)) \<Longrightarrow> refines h cbb r"
  by (auto simp: refines_def)

lemma a_add_Nil: "length (cbb_children cbb) \<le> d \<Longrightarrow> a_add d [] (cbb_abs cbb) = cbb_abs cbb"
proof -
  assume "length (cbb_children cbb) \<le> d"
  then have "a_flush d (cbb_abs cbb) = cbb_abs cbb"
    by (intro a_flush_small) simp
  moreover have "snd (cbb_abs cbb) \<noteq> []"
    by (simp add: cbb_abs_def builder_of_def)
  ultimately show ?thesis
    by (simp add: a_add_def put_last_def)
qed

lemma refines_add_length:
  assumes "refines (a_add d x) cbb r" "r = (Some y, cbb')" "d \<le> length (cbb_children cbb)"
  shows "length (cbb_children cbb') = d"
proof -
  have "length (cbb_children cbb') = length (fst (cbb_abs cbb'))"
    by simp
  also have "\<dots> = length (fst (a_flush d (cbb_abs cbb)))"
    using assms(1,2) by (simp add: refines_def a_add_def)
  finally show ?thesis
    using assms(3) by simp
qed

lemma byte_and_7f: "(ucast (w :: u64) AND 0x7f :: byte) = word_of_nat (unat w mod 128)"
proof -
  have eq: "(0x7f :: byte) = mask 7" by (simp add: mask_eq_exp_minus_1)
  have "unat (ucast w AND 0x7f :: byte) = unat w mod 256 mod 128"
    unfolding eq take_bit_eq_mask [symmetric] unsigned_take_bit_eq
    by (simp add: take_bit_eq_mod unat_ucast_down)
  also have "\<dots> = unat w mod 128"
    by (simp add: mod_mod_cancel)
  finally show ?thesis
    by (metis word_of_nat_unat)
qed

lemma byte_or_80: "word_of_nat (n mod 128) OR 0x80 = (word_of_nat (128 + n mod 128) :: byte)"
proof -
  have "\<not> 128 \<le> unat (word_of_nat (n mod 128) :: byte)"
    unfolding unat_low_byte by (simp add: not_le)
  then have "(word_of_nat (n mod 128) :: byte) AND 0x80 = 0"
    using byte_top_bit by blast
  then have "word_of_nat (n mod 128) OR 0x80 = (word_of_nat (n mod 128) + 0x80 :: byte)"
    by (rule disjunctive_add_eq_or [symmetric])
  then show ?thesis by (simp add: add.commute)
qed

text \<open>The bytes of the write loop.\<close>

fun base128_out :: "u64 \<Rightarrow> nat \<Rightarrow> bytes" where
  "base128_out v 0 = []"
| "base128_out v (Suc i) =
     (let b = ucast (drop_bit (7 * i) v) AND 0x7f in if i \<noteq> 0 then b OR 0x80 else b) # base128_out v i"

lemma base128_write_loop_refines:
  "cbb_ok cbb \<Longrightarrow> \<not> b_error (cbb_base cbb) \<Longrightarrow> length (cbb_children cbb) = d \<Longrightarrow>
   refines (a_add d (base128_out v n)) cbb (base128_write_loop d v n cbb)"
proof (induction n arbitrary: cbb)
  case 0
  then show ?case
    using a_add_Nil [of cbb d] by (simp add: refines_def)
next
  case (Suc n)
  let ?b = "let b = ucast (drop_bit (7 * n) v) AND 0x7f in if n \<noteq> 0 then b OR 0x80 else b :: byte"
  have u8: "refines (a_add d [?b]) cbb (CBB_add_u8 d ?b cbb)"
    by (rule CBB_add_u8_refines) fact
  have "refines (\<lambda>b. a_add d (base128_out v n) (a_add d [?b] b)) cbb
      (chk (CBB_add_u8 d ?b cbb) (\<lambda>_ cbb. base128_write_loop d v n cbb))"
    using u8
  proof (rule refines_chk)
    fix x cbb'
    assume "CBB_add_u8 d ?b cbb = (Some x, cbb')" "cbb_ok cbb'" "\<not> b_error (cbb_base cbb')"
    moreover from this(1) u8 have "length (cbb_children cbb') = d"
      using Suc.prems(3) by (intro refines_add_length) auto
    ultimately show "refines (a_add d (base128_out v n)) cbb' (base128_write_loop d v n cbb')"
      by (intro Suc.IH)
  qed
  then show ?case by (simp add: Let_def)
qed

lemma unat_drop_bit_7: "unat (drop_bit (7 * i) (v :: u64)) = unat v div 128 ^ i"
  unfolding unat_drop_bit_eq by (simp add: drop_bit_eq_div power_mult)

lemma base128_out_eq:
  "base128_out v (Suc m) =
   map (\<lambda>i. word_of_nat (128 + unat v div 128 div 128 ^ i mod 128)) (rev [0..<m]) @ [word_of_nat (unat v mod 128)]"
proof (induction m)
  case 0
  then show ?case by (simp add: byte_and_7f)
next
  case (Suc m)
  have "base128_out v (Suc (Suc m)) = (word_of_nat (unat v div 128 ^ Suc m mod 128) OR 0x80) # base128_out v (Suc m)"
    by (simp add: Let_def byte_and_7f unat_drop_bit_7 del: mult_Suc_right)
  also have "\<dots> = word_of_nat (128 + unat v div 128 div 128 ^ m mod 128) # base128_out v (Suc m)"
    by (simp only: byte_or_80) (simp add: div_mult2_eq)
  finally show ?case
    using Suc.IH by simp
qed

lemma base128_groups_map:
  "map (\<lambda>i. word_of_nat (128 + n div 128 ^ i mod 128)) (rev [0..<length (base128_groups n)]) = base128_groups n"
proof (induction n rule: base128_groups.induct)
  case (1 n)
  show ?case
  proof (cases "n = 0")
    case False
    let ?m = "length (base128_groups (n div 128))"
    have len: "length (base128_groups n) = Suc ?m"
      using False base128_groups.simps [of n] by simp
    have "[0..<Suc ?m] = 0 # map Suc [0..<?m]"
      by (simp add: map_Suc_upt upt_conv_Cons del: upt_Suc)
    then have "rev [0..<Suc ?m] = map Suc (rev [0..<?m]) @ [0]"
      by (simp only: rev.simps rev_map)
    moreover have "map (\<lambda>i. word_of_nat (128 + n div 128 ^ i mod 128)) (map Suc (rev [0..<?m])) =
        (base128_groups (n div 128) :: bytes)"
      using 1 False by (simp add: div_mult2_eq o_def)
    ultimately show ?thesis
      unfolding len base128_groups.simps [of n] using False by simp
  qed simp
qed

lemma base128_len_loop_eq: "base128_len_loop k v = k + length (base128_groups (unat v))"
proof (induction k v rule: base128_len_loop.induct)
  case (1 k v)
  show ?case
  proof (cases "v = 0")
    case True
    then show ?thesis by (simp add: base128_len_loop.simps)
  next
    case False
    then have "unat v \<noteq> 0"
      by (simp add: unat_eq_zero)
    then have "length (base128_groups (unat v)) = Suc (length (base128_groups (unat v div 128)))"
      using base128_groups.simps [of "unat v"] by simp
    moreover have "unat (drop_bit 7 v) = unat v div 128"
      using unat_drop_bit_7 [of 1 v] by simp
    ultimately show ?thesis
      using 1 False by (subst base128_len_loop.simps) simp
  qed
qed

lemma add_base128_integer_refines:
  assumes "cbb_ok cbb" "\<not> b_error (cbb_base cbb)" "length (cbb_children cbb) = d"
  shows "refines (a_add d (base128_enc v)) cbb (add_base128_integer d v cbb)"
proof -
  define m where "m = length (base128_groups (unat v div 128))"
  have "add_base128_integer d v cbb = base128_write_loop d v (Suc m) cbb"
  proof (cases "unat v = 0")
    case True
    then show ?thesis by (simp add: add_base128_integer_def base128_len_loop_eq m_def)
  next
    case False
    then have "length (base128_groups (unat v)) = Suc m"
      using base128_groups.simps [of "unat v"] by (simp add: m_def)
    then show ?thesis by (simp add: add_base128_integer_def base128_len_loop_eq)
  qed
  moreover have "base128_out v (Suc m) = base128_enc v"
    unfolding base128_out_eq base128_enc_def m_def base128_groups_map ..
  ultimately show ?thesis
    using base128_write_loop_refines [OF assms, of v "Suc m"] by simp
qed

lemma CBB_add_asn1_refines:
  assumes ok: "cbb_ok cbb"
  shows "refines (\<lambda>b. a_open d Der (a_add d (der_tag tag) b)) cbb (CBB_add_asn1 d tag cbb)"
proof -
  let ?bits = "(ucast (drop_bit CBS_ASN1_TAG_SHIFT tag) :: byte) AND 0xe0"
  let ?num = "tag AND CBS_ASN1_TAG_NUMBER_MASK"
  let ?head = "\<lambda>cbb. if ?num \<ge> 0x1f then chk (CBB_add_u8 d (?bits OR 0x1f) cbb)
      (\<lambda>_ cbb. add_base128_integer d (ucast ?num) cbb) else CBB_add_u8 d (?bits OR ucast ?num) cbb"
  have head: "refines (a_add d (der_tag tag)) c (?head c)"
    if c: "cbb_ok c" "\<not> b_error (cbb_base c)" "length (cbb_children c) = d" for c
  proof (cases "?num \<ge> 0x1f")
    case True
    have u8: "refines (a_add d [?bits OR 0x1f]) c (CBB_add_u8 d (?bits OR 0x1f) c)"
      by (rule CBB_add_u8_refines) fact
    have "refines (\<lambda>b. a_add d (base128_enc (ucast ?num)) (a_add d [?bits OR 0x1f] b)) c
        (chk (CBB_add_u8 d (?bits OR 0x1f) c) (\<lambda>_ cbb. add_base128_integer d (ucast ?num) cbb))"
      using u8
    proof (rule refines_chk)
      fix x c'
      assume *: "CBB_add_u8 d (?bits OR 0x1f) c = (Some x, c')" "cbb_ok c'" "\<not> b_error (cbb_base c')"
      then have "length (cbb_children c') = d"
        using u8 c by (intro refines_add_length) auto
      with * show "refines (a_add d (base128_enc (ucast ?num))) c' (add_base128_integer d (ucast ?num) c')"
        by (intro add_base128_integer_refines)
    qed
    with True show ?thesis by (simp add: der_tag_def Let_def)
  next
    case False
    with CBB_add_u8_refines [OF c(1), of d "?bits OR ucast ?num"] show ?thesis
      by (simp add: der_tag_def Let_def)
  qed
  have "refines (\<lambda>b. a_open d Der (a_add d (der_tag tag) (a_flush d b))) cbb
      (chk (CBB_flush d cbb) (\<lambda>_ cbb. chk (?head cbb) (\<lambda>_ cbb. cbb_add_child d 1 True cbb)))"
  proof (rule refines_chk [OF CBB_flush_refines [OF ok]])
    fix x c
    assume flush: "CBB_flush d cbb = (Some x, c)"
    note c = CBB_flush_Some [OF ok flush]
    show "refines (\<lambda>b. a_open d Der (a_add d (der_tag tag) b)) c (chk (?head c) (\<lambda>_ cbb. cbb_add_child d 1 True cbb))"
    proof (rule refines_chk [OF head [OF c(3,5,2)]])
      fix y c'
      assume *: "?head c = (Some y, c')" "cbb_ok c'" "\<not> b_error (cbb_base c')"
      then have "length (cbb_children c') = d"
        using c(2) by (intro refines_add_length [OF head [OF c(3,5,2)] *(1)]) simp
      with * show "refines (a_open d Der) c' (cbb_add_child d 1 True c')"
        using cbb_add_child_refines [of c' d 1 True] by simp
    qed
  qed
  then show ?thesis
    by (simp add: CBB_add_asn1_def Let_def)
qed

section \<open>Integers\<close>

lemma be_bytes_Cons: "be_bytes (Suc n) v = word_of_nat (v div 256 ^ n) # be_bytes n v"
proof (induction n arbitrary: v)
  case (Suc n)
  have "be_bytes (Suc (Suc n)) v = be_bytes (Suc n) (v div 256) @ [word_of_nat v]"
    by simp
  also have "\<dots> = word_of_nat (v div 256 div 256 ^ n) # be_bytes (Suc n) v"
    by (subst Suc) simp
  finally show ?case
    by (simp add: div_mult2_eq)
qed simp

lemma value_byte: "(ucast (drop_bit (8 * n) (v :: u64) AND 0xff) :: byte) = word_of_nat (unat v div 256 ^ n)"
proof -
  have eq: "(0xff :: u64) = mask 8" by (simp add: mask_eq_exp_minus_1)
  have "unat (drop_bit (8 * n) v) = unat v div 256 ^ n"
    unfolding unat_drop_bit_eq by (simp add: drop_bit_eq_div power_mult)
  then have "unat (drop_bit (8 * n) v AND 0xff) = unat v div 256 ^ n mod 256"
    unfolding eq take_bit_eq_mask [symmetric] unsigned_take_bit_eq by (simp add: take_bit_eq_mod)
  then show ?thesis
    by (simp add: word_unat_eq_iff unat_ucast_down unat_word_of_nat_byte)
qed

text \<open>The bytes the loop of \<open>CBB_add_asn1_uint64_with_tag\<close> writes.\<close>

fun uint64_out :: "u64 \<Rightarrow> bool \<Rightarrow> nat \<Rightarrow> bytes" where
  "uint64_out v started 0 = []"
| "uint64_out v started (Suc n) =
     (let b = word_of_nat (unat v div 256 ^ n)
      in if \<not> started \<and> b = 0 then uint64_out v started n
      else (if \<not> started \<and> b AND 0x80 \<noteq> 0 then [0] else []) @ b # uint64_out v True n)"

lemma uint64_out_started: "uint64_out v True n = be_bytes n (unat v)"
  by (induction n) (simp_all add: be_bytes_Cons Let_def del: be_bytes.simps(2))

definition uint64_content :: "u64 \<Rightarrow> bytes" where
  "uint64_content v = (let x = uint64_out v False 8 in if x = [] then [0] else x)"

lemma asn1_uint64_write_loop_started:
  "fst (asn1_uint64_write_loop d v started n cbb) = Some st \<Longrightarrow> st = (started \<or> uint64_out v started n \<noteq> [])"
proof (induction n arbitrary: started cbb)
  case 0
  then show ?case by simp
next
  case (Suc n)
  let ?b = "word_of_nat (unat v div 256 ^ n) :: byte"
  show ?case
  proof (cases "\<not> started \<and> ?b = 0")
    case True
    with Suc.prems Suc.IH [of False cbb] show ?thesis by (simp add: value_byte Let_def)
  next
    case False
    with Suc.prems have "\<exists>c. fst (asn1_uint64_write_loop d v True n c) = Some st"
      by (auto simp: value_byte Let_def chk_def split: prod.splits option.splits if_splits)
    with Suc.IH False show ?thesis by (auto simp: Let_def)
  qed
qed

lemma asn1_uint64_write_loop_refines:
  "cbb_ok cbb \<Longrightarrow> \<not> b_error (cbb_base cbb) \<Longrightarrow> length (cbb_children cbb) = d \<Longrightarrow>
   refines (a_add d (uint64_out v started n)) cbb (asn1_uint64_write_loop d v started n cbb)"
proof (induction n arbitrary: started cbb)
  case 0
  then show ?case
    using a_add_Nil [of cbb d] by (simp add: refines_def)
next
  case (Suc n)
  let ?b = "word_of_nat (unat v div 256 ^ n) :: byte"
  let ?pad = "if \<not> started \<and> ?b AND 0x80 \<noteq> 0 then [0] else [] :: bytes"
  let ?padc = "if \<not> started \<and> ?b AND 0x80 \<noteq> 0 then CBB_add_u8 d 0 cbb else (Some (), cbb)"
  let ?rest = "\<lambda>cbb. chk (CBB_add_u8 d ?b cbb) (\<lambda>_ cbb. asn1_uint64_write_loop d v True n cbb)"
  show ?case
  proof (cases "\<not> started \<and> ?b = 0")
    case True
    with Suc show ?thesis by (simp add: value_byte Let_def)
  next
    case False
    have pad: "refines (a_add d ?pad) cbb ?padc"
      using CBB_add_u8_refines [OF Suc.prems(1), of d 0] a_add_Nil [of cbb d] Suc.prems by (auto simp: refines_def)
    have rest: "refines (\<lambda>b. a_add d (uint64_out v True n) (a_add d [?b] b)) c (?rest c)"
      if c: "cbb_ok c" "length (cbb_children c) = d" for c
    proof (rule refines_chk [OF CBB_add_u8_refines [OF c(1)]])
      fix x c'
      assume *: "CBB_add_u8 d ?b c = (Some x, c')" "cbb_ok c'" "\<not> b_error (cbb_base c')"
      have "length (cbb_children c') = d"
        using c(2) by (intro refines_add_length [OF CBB_add_u8_refines [OF c(1)] *(1)]) simp
      with Suc.IH * show "refines (a_add d (uint64_out v True n)) c' (asn1_uint64_write_loop d v True n c')"
        by blast
    qed
    have "refines (\<lambda>b. a_add d (uint64_out v True n) (a_add d [?b] (a_add d ?pad b))) cbb (chk ?padc (\<lambda>_ cbb. ?rest cbb))"
    proof (rule refines_chk [OF pad])
      fix x c
      assume *: "?padc = (Some x, c)" "cbb_ok c"
      have "length (cbb_children c) = d"
        using Suc.prems(3) by (intro refines_add_length [OF pad *(1)]) simp
      with rest * show "refines (\<lambda>b. a_add d (uint64_out v True n) (a_add d [?b] b)) c (?rest c)"
        by blast
    qed
    then show ?thesis
      using False by (auto simp: value_byte Let_def)
  qed
qed

lemma word_of_nat_eq_0: "n < 256 \<Longrightarrow> (word_of_nat n :: byte) = 0 \<longleftrightarrow> n = 0"
  by (simp add: word_unat_eq_iff unat_word_of_nat_byte)

lemma tc_val_small: "unat b < 128 \<Longrightarrow> tc_val (b # r) = int (be_val (b # r))"
  by (simp add: tc_val_def)

lemma tc_val_zero_Cons: "tc_val (0 # r) = int (be_val r)"
  by (simp add: tc_val_def be_val_Cons)

text \<open>What is written is the shortest two's complement form.\<close>

lemma uint64_out_minimal:
  "n \<le> 8 \<Longrightarrow> unat v < 256 ^ n \<Longrightarrow>
   (if unat v = 0 then uint64_out v False n = []
    else minimal_int (uint64_out v False n) \<and> tc_val (uint64_out v False n) = int (unat v) \<and>
      length (uint64_out v False n) \<le> Suc n)"
proof (induction n)
  case 0
  then show ?case by simp
next
  case (Suc n)
  let ?q = "unat v div 256 ^ n"
  have q: "?q < 256"
    using Suc.prems by (simp add: less_mult_imp_div_less)
  show ?case
  proof (cases "?q = 0")
    case True
    then have "unat v < 256 ^ n"
      by (simp add: div_eq_0_iff)
    with Suc True show ?thesis
      by (auto simp: Let_def split: if_splits)
  next
    case False
    let ?b = "word_of_nat ?q :: byte"
    have ub: "unat ?b = ?q"
      using q by (simp add: unat_word_of_nat_byte)
    have b0: "?b \<noteq> 0"
      using False ub by auto
    have cons: "be_bytes (Suc n) (unat v) = ?b # be_bytes n (unat v)"
      by (rule be_bytes_Cons)
    have val: "be_val (?b # be_bytes n (unat v)) = unat v"
      using Suc.prems(2) unfolding cons [symmetric] by (rule be_val_be_bytes)
    have v0: "unat v \<noteq> 0"
      using False by (metis div_0)
    show ?thesis
    proof (cases "?b AND 0x80 = 0")
      case True
      then have small: "unat ?b < 128"
        using byte_top_bit [of ?b] by simp
      have "minimal_int (?b # be_bytes n (unat v))"
        using b0 small tc_fits_shorter [of _ ?b]
        by (cases "be_bytes n (unat v)") (auto simp: minimal_int_def tc_fits_shorter)
      with True b0 v0 small val show ?thesis
        by (simp add: Let_def uint64_out_started tc_val_small)
    next
      case high: False
      then have "128 \<le> unat ?b"
        using byte_top_bit [of ?b] by simp
      then have "minimal_int (0 # ?b # be_bytes n (unat v))"
        using tc_fits_shorter [of "be_bytes n (unat v)" 0 ?b] by (simp add: minimal_int_def)
      with high b0 v0 val show ?thesis
        by (simp add: Let_def uint64_out_started tc_val_zero_Cons)
    qed
  qed
qed

lemma uint64_content:
  "minimal_int (uint64_content v)" "tc_val (uint64_content v) = int (unat v)" "length (uint64_content v) \<le> 9"
proof -
  have "unat v < 256 ^ 8"
    using unat_u64_less [of v] by simp
  note out = uint64_out_minimal [OF order_refl this]
  have "minimal_int [0]" "tc_val [0] = 0"
    by (simp_all add: minimal_int_def tc_val_def)
  moreover have "uint64_out v False 8 \<noteq> []" if "unat v \<noteq> 0"
    using out that by (auto simp: minimal_int_def)
  ultimately show "minimal_int (uint64_content v)" "tc_val (uint64_content v) = int (unat v)"
      "length (uint64_content v) \<le> 9"
    using out by (cases "unat v = 0"; simp add: uint64_content_def Let_def)+
qed

lemma tc_val_be_bytes_8: "tc_val (be_bytes 8 (unat v)) = sint (v :: u64)"
proof -
  let ?b = "be_bytes 8 (unat v)"
  have "be_val ?b = unat v"
    using unat_u64_less [of v] by (intro be_val_be_bytes) simp
  moreover have "sint (word_of_nat (be_val (rev (asn1_sign_extend (tc_val ?b < 0) ?b))) :: u64) = tc_val ?b"
    by (rule asn1_int64_value) simp_all
  ultimately show ?thesis
    by (simp add: asn1_sign_extend_eq)
qed

lemma tc_val_drop_ff: "128 \<le> unat c \<Longrightarrow> tc_val (0xff # c # r) = tc_val (c # r)"
proof -
  have "unat (0xff :: byte) = 255" by simp
  then have "be_val (0xff # c # r) = 255 * 256 ^ length (c # r) + be_val (c # r)"
    by (subst be_val_Cons) simp
  moreover assume "128 \<le> unat c"
  ultimately show ?thesis
    using \<open>unat (0xff :: byte) = 255\<close> by (simp add: tc_val_def)
qed

lemma rev_take_Suc: "k < length bs \<Longrightarrow> rev (take (Suc k) bs) = bs ! k # rev (take k bs)"
  by (simp add: take_Suc_conv_app_nth)

lemma int64_start_le: "int64_start bs s \<le> s"
  by (induction s) (auto simp: le_SucI)

lemma int64_start_content:
  assumes "s < length bs" "tc_val (rev (take (Suc s) bs)) < 0"
  shows "minimal_int (rev (take (Suc (int64_start bs s)) bs)) \<and>
    tc_val (rev (take (Suc (int64_start bs s)) bs)) = tc_val (rev (take (Suc s) bs))"
  using assms
proof (induction s)
  case 0
  then show ?case
    by (simp add: minimal_int_def take_Suc_conv_app_nth)
next
  case (Suc s)
  have shape: "rev (take (Suc (Suc s)) bs) = bs ! Suc s # bs ! s # rev (take s bs)"
    "rev (take (Suc s) bs) = bs ! s # rev (take s bs)"
    using Suc.prems(1) by (simp_all add: rev_take_Suc del: take_Suc)
  have top: "bs ! s AND 0x80 \<noteq> 0 \<longleftrightarrow> 128 \<le> unat (bs ! s)"
    by (rule byte_top_bit)
  show ?case
  proof (cases "bs ! Suc s = 0xff \<and> 128 \<le> unat (bs ! s)")
    case True
    then have "tc_val (rev (take (Suc (Suc s)) bs)) = tc_val (rev (take (Suc s) bs))"
      unfolding shape by (simp add: tc_val_drop_ff)
    with True Suc top show ?thesis by simp
  next
    case False
    have "128 \<le> unat (bs ! Suc s)"
      using Suc.prems(2) unfolding shape by (subst (asm) tc_val_neg) simp_all
    then have "bs ! Suc s \<noteq> 0"
      by auto
    with False have "minimal_int (bs ! Suc s # bs ! s # rev (take s bs))"
      using tc_fits_shorter [of "rev (take s bs)" "bs ! Suc s" "bs ! s"] by (auto simp: minimal_int_def)
    moreover have "int64_start bs (Suc s) = Suc s"
      using False top by auto
    ultimately show ?thesis
      unfolding shape by (simp only: shape)
  qed
qed

definition int64_content :: "u64 \<Rightarrow> bytes" where
  "int64_content v = (let bs = rev (be_bytes 8 (unat v)) in rev (take (Suc (int64_start bs 7)) bs))"

lemma int64_content:
  assumes "sint v < 0"
  shows "minimal_int (int64_content v)" "tc_val (int64_content v) = sint v" "length (int64_content v) \<le> 8"
proof -
  let ?bs = "rev (be_bytes 8 (unat v))"
  have "tc_val (rev (take (Suc 7) ?bs)) = sint v"
    using tc_val_be_bytes_8 [of v] by simp
  with assms int64_start_content [of 7 ?bs]
  show "minimal_int (int64_content v)" "tc_val (int64_content v) = sint v"
    by (simp_all add: int64_content_def Let_def)
  show "length (int64_content v) \<le> 8"
    by (simp add: int64_content_def Let_def)
qed

lemma int64_write_loop_refines:
  "cbb_ok cbb \<Longrightarrow> \<not> b_error (cbb_base cbb) \<Longrightarrow> length (cbb_children cbb) = d \<Longrightarrow> n \<le> length bs \<Longrightarrow>
   refines (a_add d (rev (take n bs))) cbb (int64_write_loop d bs n cbb)"
proof (induction n arbitrary: cbb)
  case 0
  then show ?case
    using a_add_Nil [of cbb d] by (simp add: refines_def)
next
  case (Suc n)
  have u8: "refines (a_add d [bs ! n]) cbb (CBB_add_u8 d (bs ! n) cbb)"
    by (rule CBB_add_u8_refines) fact
  have "refines (\<lambda>b. a_add d (rev (take n bs)) (a_add d [bs ! n] b)) cbb
      (chk (CBB_add_u8 d (bs ! n) cbb) (\<lambda>_ cbb. int64_write_loop d bs n cbb))"
  proof (rule refines_chk [OF u8])
    fix x c
    assume *: "CBB_add_u8 d (bs ! n) cbb = (Some x, c)" "cbb_ok c" "\<not> b_error (cbb_base c)"
    have "length (cbb_children c) = d"
      using Suc.prems(3) by (intro refines_add_length [OF u8 *(1)]) simp
    with Suc * show "refines (a_add d (rev (take n bs))) c (int64_write_loop d bs n c)"
      by simp
  qed
  with Suc.prems show ?case by (simp add: rev_take_Suc)
qed

section \<open>Whole elements\<close>

text \<open>
  A tag, contents written into the child by \<open>w\<close>, and a flush of the parent: the shape of all the
  typed ASN.1 writers. Together they add the DER element.
\<close>

lemma refines_open_length:
  assumes "refines (\<lambda>b. a_open d k (a_add d x b)) cbb r" "r = (Some y, cbb')" "d \<le> length (cbb_children cbb)"
  shows "length (cbb_children cbb') = Suc d"
proof -
  have "length (cbb_children cbb') = length (fst (cbb_abs cbb'))"
    by simp
  also have "\<dots> = Suc (length (fst (a_flush d (a_add d x (cbb_abs cbb)))))"
    using assms(1,2) by (simp add: refines_def a_open_def)
  also have "\<dots> = Suc d"
    using assms(3) by (simp add: a_add_def)
  finally show ?thesis .
qed

lemma asn1_child_refines:
  assumes ok: "cbb_ok cbb" "d \<le> length (cbb_children cbb)"
    and w: "\<And>c. cbb_ok c \<Longrightarrow> \<not> b_error (cbb_base c) \<Longrightarrow> length (cbb_children c) = Suc d \<Longrightarrow>
      refines (a_add (Suc d) body) c (w c)"
  shows "refines (\<lambda>b. a_add (Suc d) body (a_open d Der (a_add d (der_tag tag) b))) cbb
      (chk (CBB_add_asn1 d tag cbb) (\<lambda>_ cbb. w cbb))"
proof (rule refines_chk [OF CBB_add_asn1_refines [OF ok(1)]])
  fix x c
  assume *: "CBB_add_asn1 d tag cbb = (Some x, c)" "cbb_ok c" "\<not> b_error (cbb_base c)"
  have "length (cbb_children c) = Suc d"
    by (rule refines_open_length [OF CBB_add_asn1_refines [OF ok(1)] *(1) ok(2)])
  with * show "refines (a_add (Suc d) body) c (w c)"
    by (intro w)
qed

lemma element_abs:
  assumes "d \<le> length (fst b)"
  shows "a_flush d (a_add (Suc d) body (a_open d Der (a_add d (der_tag tag) b))) = a_add d (der_element tag body) b"
proof -
  have "d \<le> length (fst (a_add d (der_tag tag) b))"
    using assms by (simp add: a_add_def)
  then show ?thesis
    by (simp add: a_open_add_flush der_element_def)
qed

lemma CBB_add_asn1_uint64_refines:
  assumes "cbb_ok cbb" "d \<le> length (cbb_children cbb)"
  shows "refines (a_add d (der_element tag (uint64_content v))) cbb (CBB_add_asn1_uint64_with_tag d v tag cbb)"
proof -
  let ?w = "\<lambda>cbb. chk (asn1_uint64_write_loop (Suc d) v False 8 cbb) (\<lambda>started cbb.
      if \<not> started then CBB_add_u8 (Suc d) 0 cbb else (Some (), cbb))"
  have w: "refines (a_add (Suc d) (uint64_content v)) c (?w c)"
    if c: "cbb_ok c" "\<not> b_error (cbb_base c)" "length (cbb_children c) = Suc d" for c
  proof -
    let ?x = "uint64_out v False 8"
    let ?y = "if ?x = [] then [0] else [] :: bytes"
    note loop = asn1_uint64_write_loop_refines [OF c, of v False 8]
    have "refines (\<lambda>b. a_add (Suc d) ?y (a_add (Suc d) ?x b)) c (?w c)"
    proof (rule refines_chk [OF loop])
      fix st c'
      assume *: "asn1_uint64_write_loop (Suc d) v False 8 c = (Some st, c')" "cbb_ok c'" "\<not> b_error (cbb_base c')"
      have "length (cbb_children c') = Suc d"
        using c(3) by (intro refines_add_length [OF loop *(1)]) simp
      moreover have "st = (?x \<noteq> [])"
        using asn1_uint64_write_loop_started [of "Suc d" v False 8 c st] * by simp
      ultimately show "refines (a_add (Suc d) ?y) c' (if \<not> st then CBB_add_u8 (Suc d) 0 c' else (Some (), c'))"
        using CBB_add_u8_refines [OF *(2), of "Suc d" 0] a_add_Nil [of c' "Suc d"] *
        by (simp add: refines_def)
    qed
    then show ?thesis
      by (rule refines_eq) (simp add: uint64_content_def Let_def)
  qed
  have "refines (\<lambda>b. a_flush d (a_add (Suc d) (uint64_content v) (a_open d Der (a_add d (der_tag tag) b)))) cbb
      (CBB_add_asn1_uint64_with_tag d v tag cbb)"
    unfolding CBB_add_asn1_uint64_with_tag_def
    by (rule refines_chk, rule refines_or_error, rule asn1_child_refines [OF assms], rule w)
      (simp_all add: CBB_flush_refines)
  then show ?thesis
    by (rule refines_eq) (rule element_abs, simp add: assms)
qed

lemma CBB_add_asn1_int64_refines:
  assumes "cbb_ok cbb" "d \<le> length (cbb_children cbb)"
  shows "refines (a_add d (der_element tag (if 0 \<le> sint v then uint64_content v else int64_content v))) cbb
    (CBB_add_asn1_int64_with_tag d v tag cbb)"
proof (cases "0 \<le> sint v")
  case True
  with CBB_add_asn1_uint64_refines [OF assms, of tag v] show ?thesis
    by (simp add: CBB_add_asn1_int64_with_tag_def)
next
  case False
  let ?bs = "rev (be_bytes 8 (unat v))"
  let ?n = "Suc (int64_start ?bs 7)"
  have w: "refines (a_add (Suc d) (int64_content v)) c (int64_write_loop (Suc d) ?bs ?n c)"
    if "cbb_ok c" "\<not> b_error (cbb_base c)" "length (cbb_children c) = Suc d" for c
    using int64_write_loop_refines [OF that, of ?n ?bs] int64_start_le [of ?bs 7]
    by (simp add: int64_content_def Let_def)
  have "refines (\<lambda>b. a_flush d (a_add (Suc d) (int64_content v) (a_open d Der (a_add d (der_tag tag) b)))) cbb
      (CBB_add_asn1_int64_with_tag d v tag cbb)"
    unfolding CBB_add_asn1_int64_with_tag_def Let_def using False
    by simp (rule refines_chk, rule refines_or_error, rule asn1_child_refines [OF assms], rule w,
        simp_all add: CBB_flush_refines)
  then show ?thesis
    by (rule refines_eq) (simp add: element_abs assms False)
qed

lemma chk_assoc: "chk (chk r f) g = chk r (\<lambda>x s. chk (f x s) g)"
  by (auto simp: chk_def split: prod.splits option.splits)

lemma asn1_element_refines:
  assumes "cbb_ok cbb" "d \<le> length (cbb_children cbb)"
    and "\<And>c. cbb_ok c \<Longrightarrow> refines (a_add (Suc d) body) c (w c)"
  shows "refines (a_add d (der_element tag body)) cbb
    (cbb_or_error d (chk (CBB_add_asn1 d tag cbb) (\<lambda>_ cbb. chk (w cbb) (\<lambda>_ cbb. CBB_flush d cbb))))"
proof (rule refines_or_error)
  have "refines (\<lambda>b. a_flush d (a_add (Suc d) body (a_open d Der (a_add d (der_tag tag) b)))) cbb
      (chk (chk (CBB_add_asn1 d tag cbb) (\<lambda>_ cbb. w cbb)) (\<lambda>_ cbb. CBB_flush d cbb))"
    by (rule refines_chk, rule asn1_child_refines [OF assms(1,2)], rule assms(3))
      (simp_all add: CBB_flush_refines)
  then have "refines (a_add d (der_element tag body)) cbb
      (chk (chk (CBB_add_asn1 d tag cbb) (\<lambda>_ cbb. w cbb)) (\<lambda>_ cbb. CBB_flush d cbb))"
    by (rule refines_eq) (simp add: element_abs assms)
  then show "refines (a_add d (der_element tag body)) cbb
      (chk (CBB_add_asn1 d tag cbb) (\<lambda>_ cbb. chk (w cbb) (\<lambda>_ cbb. CBB_flush d cbb)))"
    by (simp only: chk_assoc)
qed

lemma CBB_add_asn1_octet_string_refines:
  assumes "cbb_ok cbb" "d \<le> length (cbb_children cbb)" "n \<le> length data" "n < SIZE_MOD"
  shows "refines (a_add d (der_element CBS_ASN1_OCTETSTRING (take n data))) cbb (CBB_add_asn1_octet_string d data n cbb)"
  unfolding CBB_add_asn1_octet_string_def
  by (rule asn1_element_refines [OF assms(1,2)]) (rule CBB_add_bytes_refines [OF _ assms(3,4)])

lemma CBB_add_asn1_bool_refines:
  assumes "cbb_ok cbb" "d \<le> length (cbb_children cbb)"
  shows "refines (a_add d (der_element CBS_ASN1_BOOLEAN [if x \<noteq> 0 then 0xff else 0])) cbb (CBB_add_asn1_bool d x cbb)"
  unfolding CBB_add_asn1_bool_def
  by (rule asn1_element_refines [OF assms]) (rule CBB_add_u8_refines)

section \<open>Starting and finishing\<close>

lemma cbb_abs_flat: "cbb_children cbb = [] \<Longrightarrow> cbb_abs cbb = ([], [contents (cbb_base cbb)])"
  by (simp add: cbb_abs_def builder_of_def)

lemma CBB_init_ok:
  assumes "CBB_init al n = Some cbb" "n < SIZE_MOD"
  shows "cbb_ok cbb" "cbb_abs cbb = ([], [[]])" "\<not> b_error (cbb_base cbb)" "cbb_children cbb = []"
proof -
  have "n < SIZE_MOD \<and> (\<exists>p. length p = n \<and> cbb = cbb_init al p n True)"
    using assms by (auto simp: CBB_init_def split: option.splits if_splits dest: OPENSSL_malloc_length)
  then show "cbb_ok cbb" "cbb_abs cbb = ([], [[]])" "\<not> b_error (cbb_base cbb)" "cbb_children cbb = []"
    by (auto simp: cbb_ok_def buf_ok_def cbb_init_def cbb_abs_flat contents_def)
qed

lemma CBB_init_fixed_ok:
  assumes "length buf < SIZE_MOD"
  shows "cbb_ok (CBB_init_fixed al buf (length buf))"
    "cbb_abs (CBB_init_fixed al buf (length buf)) = ([], [[]])"
    "\<not> b_error (cbb_base (CBB_init_fixed al buf (length buf)))"
    "cbb_children (CBB_init_fixed al buf (length buf)) = []"
  using assms by (simp_all add: CBB_init_fixed_def cbb_ok_def buf_ok_def cbb_init_def cbb_abs_flat contents_def)

text \<open>The message of a builder: everything closed.\<close>

definition message :: "builder \<Rightarrow> bytes" where
  "message b = concat (snd (a_flush 0 b))"

lemma a_flush_0: "snd (a_flush 0 (cbb_abs cbb)) = [message (cbb_abs cbb)]"
proof -
  have "length (snd (a_flush d (cbb_abs cbb))) = Suc (length (fst (a_flush d (cbb_abs cbb))))" for d
  proof (induction "length (cbb_children cbb) - d" arbitrary: d)
    case 0
    then show ?case by (simp add: a_flush_def cbb_abs_def builder_of_def)
  next
    case (Suc n)
    then have "length (snd (a_flush (Suc d) (cbb_abs cbb))) = Suc (length (fst (a_flush (Suc d) (cbb_abs cbb))))"
      by (intro Suc.hyps(1)) simp
    moreover have "length (fst (a_flush (Suc d) (cbb_abs cbb))) = Suc d"
      using Suc.hyps(2) by simp
    ultimately show ?case
      using Suc.hyps(2) by (simp add: a_flush_step a_close_def put_last_def)
  qed
  from this [of 0] have "length (snd (a_flush 0 (cbb_abs cbb))) = 1"
    by simp
  then show ?thesis
    by (cases "snd (a_flush 0 (cbb_abs cbb))") (auto simp: message_def)
qed

lemma CBB_finish_Some:
  assumes ok: "cbb_ok cbb" and finish: "CBB_finish d wd wl cbb = (Some (buf, len), cbb')"
  shows "take len buf = message (cbb_abs cbb)" "len \<le> length buf"
proof -
  from finish obtain u c where flush: "CBB_flush 0 cbb = (Some u, c)"
    and out: "buf = b_buf (cbb_base c)" "len = b_len (cbb_base c)"
    by (auto simp: CBB_finish_def chk_Some_iff split: if_splits)
  have c: "cbb_ok c" "cbb_children c = []" "cbb_abs c = a_flush 0 (cbb_abs cbb)"
    using CBB_flush_cases [OF ok flush] by auto
  then have "[contents (cbb_base c)] = [message (cbb_abs cbb)]"
    by (metis a_flush_0 cbb_abs_flat snd_conv)
  then show "take len buf = message (cbb_abs cbb)"
    by (simp add: contents_def out)
  show "len \<le> length buf"
    using c(1) by (simp add: cbb_ok_def buf_ok_def out)
qed

section \<open>When the operations succeed\<close>

text \<open>
  \<open>ready cs k cbb\<close>: no error so far, the open children are \<open>cs\<close>, and \<open>k\<close> more bytes fit without
  growing the buffer (which is below the largest ASN.1 length). Then the operations cannot fail.
\<close>

definition ready :: "cbb_child list \<Rightarrow> nat \<Rightarrow> cbb \<Rightarrow> bool" where
  "ready cs k cbb \<longleftrightarrow> cbb_ok cbb \<and> \<not> b_error (cbb_base cbb) \<and> cbb_children cbb = cs \<and>
     b_len (cbb_base cbb) + k \<le> b_cap (cbb_base cbb) \<and> b_cap (cbb_base cbb) \<le> 0xfffffffe"

definition succeeds :: "cbb_child list \<Rightarrow> nat \<Rightarrow> 'a option \<times> cbb \<Rightarrow> bool" where
  "succeeds cs k r \<longleftrightarrow> (\<exists>x cbb. r = (Some x, cbb) \<and> ready cs k cbb)"

lemma succeeds_return: "ready cs k cbb \<Longrightarrow> succeeds cs k (Some x, cbb)"
  by (simp add: succeeds_def)

lemma succeeds_chk:
  assumes "succeeds cs k r" "\<And>x cbb. r = (Some x, cbb) \<Longrightarrow> ready cs k cbb \<Longrightarrow> succeeds cs' k' (f x cbb)"
  shows "succeeds cs' k' (chk r f)"
  using assms by (auto simp: succeeds_def)

lemma succeeds_or_error: "succeeds cs k r \<Longrightarrow> succeeds cs k (cbb_or_error d r)"
  by (auto simp: succeeds_def cbb_or_error_def)

lemma ready_less: "ready cs k cbb \<Longrightarrow> k' \<le> k \<Longrightarrow> ready cs k' cbb"
  by (simp add: ready_def)

lemma ready_flush: "ready cs k cbb \<Longrightarrow> length cs = d \<Longrightarrow> CBB_flush d cbb = (Some (), cbb)"
  by (rule CBB_flush_clean) (simp_all add: ready_def)

lemma add_data_succeeds:
  assumes "ready cs (length data + k) cbb" "length cs = d"
  shows "succeeds cs k (chk (CBB_add_space d (length data) cbb) (\<lambda>out cbb. (Some (), cbb_write out data cbb)))"
proof -
  let ?base = "cbb_base cbb"
  have base: "buf_ok ?base" "b_len ?base + length data \<le> b_cap ?base"
    using assms by (simp_all add: ready_def cbb_ok_def)
  have reserve: "cbb_buffer_reserve (cbb_alloc cbb) ?base (length data) = (Some (b_len ?base), ?base)"
    by (rule reserve_room [OF base])
  have "length data < SIZE_MOD"
    using base by (simp add: buf_ok_def)
  note refines = add_data_refines [of cbb data d, OF _ this]
  have "CBB_add_space d (length data) cbb =
      (Some (b_len ?base), cbb\<lparr>cbb_base := ?base\<lparr>b_len := b_len ?base + length data\<rparr>\<rparr>)"
    using assms by (simp add: CBB_add_space_def ready_flush cbb_on_base_def cbb_buffer_add_def reserve)
      (simp add: ready_def)
  with refines assms show ?thesis
    by (simp add: succeeds_def ready_def refines_def cbb_write_def)
qed

lemma CBB_add_bytes_succeeds:
  "ready cs (n + k) cbb \<Longrightarrow> length cs = d \<Longrightarrow> n \<le> length data \<Longrightarrow> succeeds cs k (CBB_add_bytes d data n cbb)"
  using add_data_succeeds [of cs "take n data" k cbb d] by (simp add: CBB_add_bytes_def min_absorb2)

lemma cbb_add_u_succeeds:
  assumes "ready cs (n + k) cbb" "length cs = d" "n \<le> 8" "unat v < 256 ^ n"
  shows "succeeds cs k (cbb_add_u d v n cbb)"
  using add_data_succeeds [of cs "be_bytes n (unat v)" k cbb d] assms
  by (simp add: cbb_add_u_eq ready_def)

lemma CBB_add_u8_succeeds: "ready cs (Suc k) cbb \<Longrightarrow> length cs = d \<Longrightarrow> succeeds cs k (CBB_add_u8 d v cbb)"
  using cbb_add_u_succeeds [of cs 1 k cbb d "ucast v"] by (simp add: CBB_add_u8_def unat_ucast_up)

lemma base128_write_loop_succeeds:
  "ready cs (n + k) cbb \<Longrightarrow> length cs = d \<Longrightarrow> succeeds cs k (base128_write_loop d v n cbb)"
proof (induction n arbitrary: cbb)
  case 0
  then show ?case by (simp add: succeeds_return)
next
  case (Suc n)
  have "succeeds cs (n + k) (CBB_add_u8 d b cbb)" for b
    using Suc.prems by (intro CBB_add_u8_succeeds) simp_all
  then show ?case
    unfolding base128_write_loop.simps Let_def
    by (rule succeeds_chk) (rule Suc.IH, simp_all add: Suc.prems)
qed

lemma base128_enc_length:
  "length (base128_enc v) = (let n = base128_len_loop 0 v in if n = 0 then 1 else n)"
proof (cases "unat v = 0")
  case False
  then show ?thesis
    using base128_groups.simps [of "unat v"] by (simp add: base128_enc_def base128_len_loop_eq)
qed (simp add: base128_enc_def base128_len_loop_eq)

lemma add_base128_integer_succeeds:
  "ready cs (length (base128_enc v) + k) cbb \<Longrightarrow> length cs = d \<Longrightarrow> succeeds cs k (add_base128_integer d v cbb)"
  unfolding add_base128_integer_def Let_def base128_enc_length by (rule base128_write_loop_succeeds)

lemma cbb_add_child_succeeds:
  assumes "ready cs (n + k) cbb" "length cs = d" "1 \<le> n" "n \<le> 8" "asn1 \<Longrightarrow> n = 1"
  shows "succeeds (cs @ [\<lparr>c_offset = b_len (cbb_base cbb), c_pending_len_len = n, c_pending_is_asn1 = asn1\<rparr>]) k
    (cbb_add_child d n asn1 cbb)"
proof -
  let ?base = "cbb_base cbb"
  have base: "buf_ok ?base" "b_len ?base + n \<le> b_cap ?base"
    using assms by (simp_all add: ready_def cbb_ok_def)
  have refines: "refines (a_open d (if asn1 then Der else Fixed n)) cbb (cbb_add_child d n asn1 cbb)"
    using assms by (intro cbb_add_child_refines) (auto simp: ready_def)
  have "cbb_buffer_add (cbb_alloc cbb) ?base n = (Some (b_len ?base), ?base\<lparr>b_len := b_len ?base + n\<rparr>)"
    using reserve_room [OF base] by (simp add: cbb_buffer_add_def)
  then show ?thesis
    using assms refines
    by (auto simp: succeeds_def cbb_add_child_def cbb_on_base_def ready_def refines_def)
qed

lemma CBB_add_asn1_succeeds:
  assumes "ready cs (length (der_tag tag) + 1 + k) cbb" "length cs = d"
  shows "\<exists>c. child_kind c = Der \<and> succeeds (cs @ [c]) k (CBB_add_asn1 d tag cbb)"
proof -
  let ?bits = "(ucast (drop_bit CBS_ASN1_TAG_SHIFT tag) :: byte) AND 0xe0"
  let ?num = "tag AND CBS_ASN1_TAG_NUMBER_MASK"
  let ?head = "if ?num \<ge> 0x1f then chk (CBB_add_u8 d (?bits OR 0x1f) cbb)
      (\<lambda>_ cbb. add_base128_integer d (ucast ?num) cbb) else CBB_add_u8 d (?bits OR ucast ?num) cbb"
  have head: "succeeds cs (1 + k) ?head"
  proof (cases "?num \<ge> 0x1f")
    case True
    then have "length (der_tag tag) = Suc (length (base128_enc (ucast ?num)))"
      by (simp add: der_tag_def Let_def)
    then have "succeeds cs (length (base128_enc (ucast ?num)) + (1 + k)) (CBB_add_u8 d (?bits OR 0x1f) cbb)"
      using assms by (intro CBB_add_u8_succeeds) simp_all
    then show ?thesis
      using True assms(2) by simp (erule succeeds_chk, rule add_base128_integer_succeeds, simp_all)
  next
    case False
    then have "length (der_tag tag) = 1"
      by (simp add: der_tag_def Let_def)
    with assms False show ?thesis
      by (simp add: CBB_add_u8_succeeds)
  qed
  then obtain x c where c: "?head = (Some x, c)" "ready cs (1 + k) c"
    by (auto simp: succeeds_def)
  have "succeeds (cs @ [\<lparr>c_offset = b_len (cbb_base c), c_pending_len_len = 1, c_pending_is_asn1 = True\<rparr>]) k
      (cbb_add_child d 1 True c)"
    using c assms(2) by (intro cbb_add_child_succeeds) simp_all
  moreover have "CBB_add_asn1 d tag cbb = cbb_add_child d 1 True c"
    using c assms by (simp add: CBB_add_asn1_def ready_flush Let_def)
  ultimately show ?thesis
    by (intro exI [of _ "\<lparr>c_offset = b_len (cbb_base c), c_pending_len_len = 1, c_pending_is_asn1 = True\<rparr>"])
      (simp add: child_kind_def)
qed

text \<open>Four bytes are enough for the length octets a flush has to insert.\<close>

lemma CBB_flush_succeeds:
  assumes "ready (cs @ [c]) (4 + k) cbb" "child_kind c = Der" "length cs = d"
  shows "succeeds cs k (CBB_flush d cbb)"
proof -
  let ?base = "cbb_base cbb"
  have ok: "cbb_ok cbb" "cbb_children cbb = cs @ [c]" "\<not> b_error ?base"
    using assms(1) by (simp_all add: ready_def)
  have base: "buf_ok ?base" "child_ok c" "child_start c \<le> b_len ?base" "b_len ?base + (4 + k) \<le> b_cap ?base"
    "b_cap ?base \<le> 0xfffffffe"
    using assms(1) by (auto simp: ready_def cbb_ok_def children_ok_append)
  have asn1: "c_pending_is_asn1 c" "c_pending_len_len c = 1"
    using assms(2) base(2) by (auto simp: child_kind_def child_ok_def split: if_splits)
  let ?len = "b_len ?base - child_start c"
  have start: "size_add (c_offset c) 1 = child_start c" "\<not> child_start c < c_offset c"
    using base asn1 by (simp_all add: child_start_def size_add_exact buf_ok_def)
  have fit: "?len \<le> 0xfffffffe"
    using base by simp
  have room: "b_len ?base + length_bytes ?len \<le> b_cap ?base"
    using base length_bytes_bounds(2) [of ?len] by simp
  have add: "cbb_buffer_add (cbb_alloc cbb) ?base (length_bytes ?len) =
      (Some (b_len ?base), ?base\<lparr>b_len := b_len ?base + length_bytes ?len\<rparr>)"
    using reserve_room [OF base(1) room] by (simp add: cbb_buffer_add_def)
  have zero: "?len div 256 ^ length_bytes ?len = 0"
    using fit length_bytes_fits [of ?len] by (simp add: div_eq_0_iff)
  have size: "c_offset c + 1 + length_bytes ?len \<le> length (b_buf ?base)"
    "child_start c + length_bytes ?len + ?len \<le> length (b_buf ?base)"
    using base room asn1 by (auto simp: buf_ok_def child_start_def)
  have "\<exists>b. cbb_flush_child (cbb_alloc cbb) ?base c = (Some (), b) \<and>
      b_len b \<le> b_len ?base + 4 \<and> b_cap b = b_cap ?base"
    using asn1 start base(3) size zero length_bytes_bounds(2) [of ?len]
    by (auto simp: cbb_flush_child_def Let_def flush_asn1_eq [OF fit] add put_be_loop_eq length_memmove
        split: if_splits)
  then obtain b where b: "cbb_flush_child (cbb_alloc cbb) ?base c = (Some (), b)"
      "b_len b \<le> b_len ?base + 4" "b_cap b = b_cap ?base"
    by auto
  have "CBB_flush (Suc d) cbb = (Some (), cbb)"
    using ok assms(3) by (intro CBB_flush_clean) simp_all
  then have flush: "CBB_flush d cbb = (Some (), cbb\<lparr>cbb_base := b, cbb_children := cs\<rparr>)"
    using ok assms(3) b(1) nth_append_length [of cs c "[]"] by (simp add: CBB_flush.simps [of d] cbb_or_error_def cbb_on_base_def)
  show ?thesis
    using CBB_flush_cases [OF ok(1) flush] base b unfolding flush
    by (auto simp: succeeds_def ready_def)
qed

lemma asn1_uint64_write_loop_succeeds:
  "ready cs (length (uint64_out v started n) + k) cbb \<Longrightarrow> length cs = d \<Longrightarrow>
   succeeds cs k (asn1_uint64_write_loop d v started n cbb)"
proof (induction n arbitrary: started cbb)
  case 0
  then show ?case by (simp add: succeeds_return)
next
  case (Suc n)
  let ?b = "word_of_nat (unat v div 256 ^ n) :: byte"
  let ?rest = "length (uint64_out v True n) + k"
  show ?case
  proof (cases "\<not> started \<and> ?b = 0")
    case True
    with Suc show ?thesis by (simp add: value_byte Let_def)
  next
    case False
    have b: "succeeds cs k (chk (CBB_add_u8 d ?b c) (\<lambda>_ cbb. asn1_uint64_write_loop d v True n cbb))"
      if "ready cs (Suc ?rest) c" for c
      by (rule succeeds_chk [OF CBB_add_u8_succeeds [OF that Suc.prems(2)]]) (rule Suc.IH, simp_all add: Suc.prems)
    have pad: "succeeds cs (Suc ?rest) (if \<not> started \<and> ?b AND 0x80 \<noteq> 0 then CBB_add_u8 d 0 cbb else (Some (), cbb))"
      using Suc.prems False by (auto simp: Let_def intro: CBB_add_u8_succeeds succeeds_return)
    have eq: "asn1_uint64_write_loop d v started (Suc n) cbb =
        chk (if \<not> started \<and> ?b AND 0x80 \<noteq> 0 then CBB_add_u8 d 0 cbb else (Some (), cbb))
          (\<lambda>_ cbb. chk (CBB_add_u8 d ?b cbb) (\<lambda>_ cbb. asn1_uint64_write_loop d v True n cbb))"
      using False by (simp only: asn1_uint64_write_loop.simps value_byte Let_def if_False)
    show ?thesis
      unfolding eq by (rule succeeds_chk [OF pad]) (rule b)
  qed
qed

lemma int64_write_loop_succeeds:
  "ready cs (n + k) cbb \<Longrightarrow> length cs = d \<Longrightarrow> succeeds cs k (int64_write_loop d bs n cbb)"
proof (induction n arbitrary: cbb)
  case 0
  then show ?case by (simp add: succeeds_return)
next
  case (Suc n)
  have "succeeds cs (n + k) (CBB_add_u8 d (bs ! n) cbb)"
    using Suc.prems by (intro CBB_add_u8_succeeds) simp_all
  then show ?case
    unfolding int64_write_loop.simps by (rule succeeds_chk) (rule Suc.IH, simp_all add: Suc.prems)
qed

text \<open>A tag, \<open>n\<close> bytes of contents at most, and the length octets.\<close>

lemma asn1_element_succeeds:
  assumes "ready cs (length (der_tag tag) + 1 + (n + (4 + k))) cbb" "length cs = d"
    and w: "\<And>cs' c. ready cs' (n + (4 + k)) c \<Longrightarrow> length cs' = Suc d \<Longrightarrow> succeeds cs' (4 + k) (w c)"
  shows "\<exists>c. child_kind c = Der \<and> succeeds (cs @ [c]) (4 + k) (chk (CBB_add_asn1 d tag cbb) (\<lambda>_ cbb. w cbb))"
proof -
  from CBB_add_asn1_succeeds [OF assms(1,2)] obtain c where c: "child_kind c = Der"
    "succeeds (cs @ [c]) (n + (4 + k)) (CBB_add_asn1 d tag cbb)"
    by auto
  have "succeeds (cs @ [c]) (4 + k) (chk (CBB_add_asn1 d tag cbb) (\<lambda>_ cbb. w cbb))"
    by (rule succeeds_chk [OF c(2)]) (rule w, simp_all add: assms(2))
  with c(1) show ?thesis by blast
qed

lemma der_tag_integer_length [simp]:
  "length (der_tag CBS_ASN1_INTEGER) = 1" "length (der_tag CBS_ASN1_BOOLEAN) = 1"
  "length (der_tag CBS_ASN1_OCTETSTRING) = 1"
proof -
  have "CBS_ASN1_TAG_NUMBER_MASK = 0x1fffffff"
    by (simp add: CBS_ASN1_TAG_NUMBER_MASK_def CBS_ASN1_TAG_SHIFT_def)
  note defs = this der_tag_def Let_def CBS_ASN1_INTEGER_def CBS_ASN1_BOOLEAN_def CBS_ASN1_OCTETSTRING_def
  show "length (der_tag CBS_ASN1_INTEGER) = 1" "length (der_tag CBS_ASN1_BOOLEAN) = 1"
    "length (der_tag CBS_ASN1_OCTETSTRING) = 1"
    by (simp_all add: defs word_le_nat_alt)
qed

lemma CBB_add_asn1_uint64_succeeds:
  assumes "ready cs (15 + k) cbb" "length cs = d"
  shows "succeeds cs k (CBB_add_asn1_uint64 d v cbb)"
proof -
  let ?w = "\<lambda>cbb. chk (asn1_uint64_write_loop (Suc d) v False 8 cbb) (\<lambda>started cbb.
      if \<not> started then CBB_add_u8 (Suc d) 0 cbb else (Some (), cbb))"
  have out: "length (uint64_out v False 8) + (if uint64_out v False 8 = [] then 1 else 0) \<le> 9"
    using uint64_content(3) [of v] by (simp add: uint64_content_def Let_def split: if_splits)
  have w: "succeeds cs' (4 + k) (?w c)" if c: "ready cs' (9 + (4 + k)) c" "length cs' = Suc d" for cs' c
  proof (rule succeeds_chk)
    let ?pad = "if uint64_out v False 8 = [] then 1 else 0 :: nat"
    show loop: "succeeds cs' (?pad + (4 + k)) (asn1_uint64_write_loop (Suc d) v False 8 c)"
      by (rule asn1_uint64_write_loop_succeeds [OF ready_less [OF c(1)] c(2)]) (use out in simp)
    fix st c'
    assume *: "asn1_uint64_write_loop (Suc d) v False 8 c = (Some st, c')" "ready cs' (?pad + (4 + k)) c'"
    then have "st = (uint64_out v False 8 \<noteq> [])"
      using asn1_uint64_write_loop_started [of "Suc d" v False 8 c st] by simp
    with * c(2) show "succeeds cs' (4 + k) (if \<not> st then CBB_add_u8 (Suc d) 0 c' else (Some (), c'))"
      by (auto intro: CBB_add_u8_succeeds succeeds_return)
  qed
  obtain c where c: "child_kind c = Der" "succeeds (cs @ [c]) (4 + k) (chk (CBB_add_asn1 d CBS_ASN1_INTEGER cbb) (\<lambda>_ cbb. ?w cbb))"
    using asn1_element_succeeds [of cs CBS_ASN1_INTEGER 9 k cbb d ?w] assms w by auto
  show ?thesis
    unfolding CBB_add_asn1_uint64_def CBB_add_asn1_uint64_with_tag_def
    by (rule succeeds_chk [OF succeeds_or_error [OF c(2)]]) (rule CBB_flush_succeeds [OF _ c(1) assms(2)])
qed

lemma CBB_add_asn1_int64_succeeds:
  assumes "ready cs (15 + k) cbb" "length cs = d"
  shows "succeeds cs k (CBB_add_asn1_int64 d v cbb)"
proof (cases "0 \<le> sint v")
  case True
  with CBB_add_asn1_uint64_succeeds [OF assms, of v] show ?thesis
    by (simp add: CBB_add_asn1_int64_def CBB_add_asn1_int64_with_tag_def CBB_add_asn1_uint64_def)
next
  case False
  let ?bs = "rev (be_bytes 8 (unat v))"
  let ?n = "Suc (int64_start ?bs 7)"
  have "?n \<le> 9"
    using int64_start_le [of ?bs 7] by simp
  then have w: "succeeds cs' (4 + k) (int64_write_loop (Suc d) ?bs ?n c)"
    if "ready cs' (9 + (4 + k)) c" "length cs' = Suc d" for cs' c
    using that by (intro int64_write_loop_succeeds ready_less [OF that(1)]) simp_all
  obtain c where c: "child_kind c = Der"
      "succeeds (cs @ [c]) (4 + k) (chk (CBB_add_asn1 d CBS_ASN1_INTEGER cbb) (\<lambda>_ cbb. int64_write_loop (Suc d) ?bs ?n cbb))"
    using asn1_element_succeeds [of cs CBS_ASN1_INTEGER 9 k cbb d "int64_write_loop (Suc d) ?bs ?n"] assms w by auto
  have eq: "CBB_add_asn1_int64 d v cbb = chk (cbb_or_error d (chk (CBB_add_asn1 d CBS_ASN1_INTEGER cbb)
      (\<lambda>_ cbb. int64_write_loop (Suc d) ?bs ?n cbb))) (\<lambda>_ cbb. CBB_flush d cbb)"
    using False by (simp only: CBB_add_asn1_int64_def CBB_add_asn1_int64_with_tag_def Let_def if_False)
  show ?thesis
    unfolding eq by (rule succeeds_chk [OF succeeds_or_error [OF c(2)]]) (rule CBB_flush_succeeds [OF _ c(1) assms(2)])
qed

lemma CBB_finish_succeeds:
  assumes "ready [] k cbb"
  shows "CBB_finish 0 True True cbb =
    (Some (b_buf (cbb_base cbb), b_len (cbb_base cbb)), cbb\<lparr>cbb_base := (cbb_base cbb)\<lparr>b_buf := []\<rparr>\<rparr>)"
  using ready_flush [OF assms] by (simp add: CBB_finish_def)

section \<open>Properties\<close>

text \<open>
  C1: a flush that succeeds writes out every open length prefix below the handle: it leaves the
  invariant, keeps the children down to the handle open, and does to the contents what the abstract
  builder's flush does (each child's contents sealed behind its length inside its parent).
\<close>

theorem flush_refines_abstract_flush:
  assumes "cbb_ok cbb" "CBB_flush d cbb = (Some u, cbb')"
  shows "cbb_ok cbb' \<and> cbb_children cbb' = take d (cbb_children cbb) \<and>
    cbb_abs cbb' = a_flush d (cbb_abs cbb)"
  using CBB_flush_cases [OF assms] by simp

text \<open>A builder on a fixed buffer with an open ASN.1 child that holds two bytes.\<close>

definition example_cbb :: cbb where
  "example_cbb =
     \<lparr>cbb_base = \<lparr>b_buf = [4, 0, 7, 9, 0], b_len = 4, b_cap = 5, b_can_resize = False, b_error = False\<rparr>,
      cbb_children = [\<lparr>c_offset = 1, c_pending_len_len = 1, c_pending_is_asn1 = True\<rparr>],
      cbb_alloc = \<lparr>malloc_ok = (\<lambda>_. False), junk = (\<lambda>_. 0)\<rparr>\<rparr>"

lemma example_cbb_ok: "cbb_ok example_cbb"
  by (simp add: example_cbb_def cbb_ok_def buf_ok_def child_ok_def child_start_def SIZE_MOD_def)

definition example_flushed :: cbb where
  "example_flushed = example_cbb\<lparr>cbb_base := (cbb_base example_cbb)\<lparr>b_buf := [4, 2, 7, 9, 0]\<rparr>, cbb_children := []\<rparr>"

lemma example_flush: "CBB_flush 0 example_cbb = (Some (), example_flushed)"
  by (simp add: CBB_flush.simps example_cbb_def example_flushed_def cbb_flush_child_def cbb_flush_asn1_def
      cbb_on_base_def cbb_or_error_def Let_def size_add_def SIZE_MOD_def)

theorem flush_refines_abstract_flush_witness:
  "cbb_ok example_flushed \<and> cbb_children example_flushed = take 0 (cbb_children example_cbb) \<and>
   cbb_abs example_flushed = a_flush 0 (cbb_abs example_cbb)"
  using flush_refines_abstract_flush [OF example_cbb_ok example_flush] .


definition failed_cbb :: cbb where
  "failed_cbb = cbb_on_error 0 example_cbb"



definition full_cbb :: cbb where
  "full_cbb =
     \<lparr>cbb_base = \<lparr>b_buf = replicate 257 0, b_len = 257, b_cap = 257, b_can_resize = False, b_error = False\<rparr>,
      cbb_children = [\<lparr>c_offset = 0, c_pending_len_len = 1, c_pending_is_asn1 = False\<rparr>],
      cbb_alloc = \<lparr>malloc_ok = (\<lambda>_. False), junk = (\<lambda>_. 0)\<rparr>\<rparr>"


lemma unsigned_of_sint: "0 \<le> sint v \<Longrightarrow> sint (v :: u64) = int (unat v)"
proof -
  assume "0 \<le> sint v"
  then have "tc_val (be_bytes 8 (unat v)) = int (be_val (be_bytes 8 (unat v)))"
    using tc_val_be_bytes_8 [of v] by (intro tc_val_nonneg) simp
  moreover have "be_val (be_bytes 8 (unat v)) = unat v"
    using unat_u64_less [of v] by (intro be_val_be_bytes) simp
  ultimately show ?thesis
    using tc_val_be_bytes_8 [of v] by simp
qed

lemma minimal_int_length:
  assumes "minimal_int bs" "tc_fits n (tc_val bs)" "1 \<le> n"
  shows "length bs \<le> n"
proof (rule ccontr)
  assume "\<not> length bs \<le> n"
  then have "2 \<le> length bs" "n \<le> length bs - 1"
    using assms(3) by auto
  with assms tc_fits_mono [of n "length bs - 1" "tc_val bs"] show False
    by (simp add: minimal_int_def)
qed

lemma signed_content:
  "minimal_int (if 0 \<le> sint v then uint64_content v else int64_content v) \<and>
   tc_val (if 0 \<le> sint v then uint64_content v else int64_content v) = sint v \<and>
   length (if 0 \<le> sint v then uint64_content v else int64_content v) \<le> 8"
proof (cases "0 \<le> sint v")
  case True
  have "tc_fits 8 (sint v)"
    using tc_fits_length [of "be_bytes 8 (unat v)"] tc_val_be_bytes_8 [of v] by simp
  with True show ?thesis
    using uint64_content [of v] unsigned_of_sint [of v] minimal_int_length [of "uint64_content v" 8] by simp
next
  case False
  with int64_content [of v] show ?thesis by simp
qed

text \<open>Running a writer on a fresh fixed buffer and taking the result out.\<close>

lemma fixed_buffer_run:
  assumes buf: "15 \<le> length buf" "length buf \<le> 0xfffffffe"
    and succ: "\<And>c. ready [] 15 c \<Longrightarrow> succeeds [] 0 (f c)"
    and ref: "\<And>c. cbb_ok c \<Longrightarrow> refines (a_add 0 x) c (f c :: unit option \<times> cbb)"
  obtains cbb block len cbb' where "f (CBB_init_fixed al buf (length buf)) = (Some (), cbb)"
    "CBB_finish 0 True True cbb = (Some (block, len), cbb')" "take len block = x"
proof -
  let ?c = "CBB_init_fixed al buf (length buf)"
  have "length buf < SIZE_MOD"
    using buf(2) by (rule order.strict_trans1) (simp add: SIZE_MOD_def)
  note init = CBB_init_fixed_ok [OF this, of al]
  have "ready [] 15 ?c"
    using init buf by (simp add: ready_def) (simp add: CBB_init_fixed_def cbb_init_def)
  from succ [OF this] obtain c where c: "f ?c = (Some (), c)" "ready [] 0 c"
    by (auto simp: succeeds_def)
  have "cbb_ok c" "message (cbb_abs c) = x"
    using ref [OF init(1)] c init
    by (simp_all add: refines_def message_def) (simp add: a_add_def a_flush_def put_last_def)
  moreover note fin = CBB_finish_succeeds [OF c(2)]
  ultimately have "take (b_len (cbb_base c)) (b_buf (cbb_base c)) = x"
    using CBB_finish_Some(1) by metis
  with c fin that show thesis by blast
qed

text \<open>
  A 64-bit unsigned integer survives the round trip: written as an ASN.1 INTEGER into any fixed
  buffer of at least 15 bytes, \<open>CBB_add_asn1_uint64\<close> and \<open>CBB_finish\<close> succeed, and
  \<open>CBS_get_asn1_uint64\<close> on the bytes they produce returns the value and leaves nothing.
\<close>

theorem uint64_roundtrip:
  assumes "15 \<le> length buf" "length buf \<le> 0xfffffffe"
  shows "\<exists>cbb block len cbb'.
    CBB_add_asn1_uint64 0 v (CBB_init_fixed al buf (length buf)) = (Some (), cbb) \<and>
    CBB_finish 0 True True cbb = (Some (block, len), cbb') \<and>
    CBS_get_asn1_uint64 (take len block) = (Some v, [])"
proof -
  have "refines (a_add 0 (der_element CBS_ASN1_INTEGER (uint64_content v))) c (CBB_add_asn1_uint64 0 v c)"
    if "cbb_ok c" for c
    unfolding CBB_add_asn1_uint64_def by (rule CBB_add_asn1_uint64_refines [OF that]) simp
  from fixed_buffer_run [OF assms _ this] CBB_add_asn1_uint64_succeeds [of "[]" 0 _ 0 v]
  obtain cbb block len cbb' where run: "CBB_add_asn1_uint64 0 v (CBB_init_fixed al buf (length buf)) = (Some (), cbb)"
    "CBB_finish 0 True True cbb = (Some (block, len), cbb')"
    "take len block = der_element CBS_ASN1_INTEGER (uint64_content v)"
    by (metis add_0_right list.size(3))
  have "length (uint64_content v) < 2 ^ 32"
    using uint64_content(3) [of v] by (rule order.strict_trans1) simp
  with run uint64_content [of v] show ?thesis
    by (fastforce simp: CBS_get_asn1_uint64_Some)
qed

theorem uint64_roundtrip_witness:
  "\<exists>cbb block len cbb'.
    CBB_add_asn1_uint64 0 300 (CBB_init_fixed \<lparr>malloc_ok = (\<lambda>_. False), junk = (\<lambda>_. 0)\<rparr> (replicate 15 0) 15) = (Some (), cbb) \<and>
    CBB_finish 0 True True cbb = (Some (block, len), cbb') \<and>
    CBS_get_asn1_uint64 (take len block) = (Some 300, [])"
  by (rule uint64_roundtrip [of "replicate 15 0", unfolded length_replicate]) simp_all

text \<open>
  C29: the same for signed integers: \<open>CBB_add_asn1_int64\<close> into a fixed buffer of at least 15 bytes and
  \<open>CBS_get_asn1_int64\<close> on the result give every \<open>int64_t\<close> back.
\<close>

theorem int64_roundtrip:
  assumes "15 \<le> length buf" "length buf \<le> 0xfffffffe"
  shows "\<exists>cbb block len cbb'.
    CBB_add_asn1_int64 0 v (CBB_init_fixed al buf (length buf)) = (Some (), cbb) \<and>
    CBB_finish 0 True True cbb = (Some (block, len), cbb') \<and>
    CBS_get_asn1_int64 (take len block) = (Some v, [])"
proof -
  let ?x = "if 0 \<le> sint v then uint64_content v else int64_content v"
  have "refines (a_add 0 (der_element CBS_ASN1_INTEGER ?x)) c (CBB_add_asn1_int64 0 v c)"
    if "cbb_ok c" for c
    unfolding CBB_add_asn1_int64_def by (rule CBB_add_asn1_int64_refines [OF that]) simp
  from fixed_buffer_run [OF assms _ this] CBB_add_asn1_int64_succeeds [of "[]" 0 _ 0 v]
  obtain cbb block len cbb' where run: "CBB_add_asn1_int64 0 v (CBB_init_fixed al buf (length buf)) = (Some (), cbb)"
    "CBB_finish 0 True True cbb = (Some (block, len), cbb')"
    "take len block = der_element CBS_ASN1_INTEGER ?x"
    by (metis add_0_right list.size(3))
  then have "CBS_get_asn1_int64 (take len block) = (Some v, [])"
    using signed_content [of v] unfolding CBS_get_asn1_int64_Some by auto
  with run show ?thesis by blast
qed

theorem int64_roundtrip_witness:
  "\<exists>cbb block len cbb'.
    CBB_add_asn1_int64 0 (- 129) (CBB_init_fixed \<lparr>malloc_ok = (\<lambda>_. False), junk = (\<lambda>_. 0)\<rparr> (replicate 15 0) 15) = (Some (), cbb) \<and>
    CBB_finish 0 True True cbb = (Some (block, len), cbb') \<and>
    CBS_get_asn1_int64 (take len block) = (Some (- 129), [])"
  by (rule int64_roundtrip [of "replicate 15 0", unfolded length_replicate]) simp_all

text \<open>
  C30: the builder's and the reader's length-prefixed strings agree: if a child with an \<open>n\<close>-byte length
  prefix is opened, filled with \<open>data\<close> and closed by a flush of its parent, the parent has gained
  exactly \<open>data\<close> behind its length, which \<open>cbs_get_length_prefixed\<close> reads back whatever follows.
\<close>

theorem length_prefixed_roundtrip:
  assumes ok: "cbb_ok cbb" "d \<le> length (cbb_children cbb)" and n: "1 \<le> n" "n \<le> 3"
    and data: "length data < 256 ^ n"
    and run: "cbb_add_length_prefixed d n cbb = (Some u, c1)"
      "CBB_add_bytes (Suc d) data (length data) c1 = (Some v, c2)" "CBB_flush d c2 = (Some w, c3)"
  shows "cbb_ok c3 \<and> cbb_abs c3 = a_add d (prefixed n data) (cbb_abs cbb) \<and>
    cbs_get_length_prefixed (prefixed n data @ rest) n = (Some data, rest)"
proof -
  have size: "length data < SIZE_MOD"
  proof -
    have "(256 :: nat) ^ n \<le> 256 ^ 3"
      using n by (intro power_increasing) simp_all
    with data show ?thesis by (simp add: SIZE_MOD_def)
  qed
  have c1: "cbb_ok c1" "cbb_abs c1 = a_open d (Fixed n) (cbb_abs cbb)"
    using cbb_add_length_prefixed_refines [OF ok(1), of n d] run(1) n by (simp_all add: refines_def)
  have c2: "cbb_ok c2" "cbb_abs c2 = a_add (Suc d) data (cbb_abs c1)"
    using CBB_add_bytes_refines [OF c1(1) order_refl size, of "Suc d"] run(2) by (simp_all add: refines_def)
  have "cbb_ok c3" "cbb_abs c3 = a_flush d (cbb_abs c2)"
    using CBB_flush_refines [OF c2(1), of d] run(3) by (simp_all add: refines_def)
  moreover have "cbs_get_length_prefixed (prefixed n data @ rest) n = (Some data, rest)"
    by (rule codec.rd_enc [OF canonical_codec.axioms(1) [OF prefixed_codec]]) (use n data in simp_all)
  ultimately show ?thesis
    using c1 c2 a_open_add_flush(1) [of d "cbb_abs cbb" data "Fixed n"] ok by simp
qed

definition lp_cbb :: "bytes \<Rightarrow> nat \<Rightarrow> cbb_child list \<Rightarrow> cbb" where
  "lp_cbb buf len cs =
     \<lparr>cbb_base = \<lparr>b_buf = buf, b_len = len, b_cap = 3, b_can_resize = False, b_error = False\<rparr>,
      cbb_children = cs, cbb_alloc = \<lparr>malloc_ok = (\<lambda>_. False), junk = (\<lambda>_. 0)\<rparr>\<rparr>"

definition lp_child :: cbb_child where
  "lp_child = \<lparr>c_offset = 0, c_pending_len_len = 1, c_pending_is_asn1 = False\<rparr>"

lemmas lp_eval = lp_cbb_def lp_child_def CBB_flush.simps cbb_add_length_prefixed_def cbb_add_child_def
  CBB_add_bytes_def CBB_add_space_def cbb_on_base_def cbb_buffer_add_def cbb_buffer_reserve_def
  cbb_flush_child_def cbb_or_error_def cbb_write_def buf_write_def Let_def size_add_def SIZE_MOD_def

theorem length_prefixed_roundtrip_witness:
  "cbb_ok (lp_cbb [1, 7, 9] 2 []) \<and>
   cbb_abs (lp_cbb [1, 7, 9] 2 []) = a_add 0 (prefixed 1 [7]) (cbb_abs (lp_cbb [8, 8, 9] 0 [])) \<and>
   cbs_get_length_prefixed (prefixed 1 [7] @ [5]) 1 = (Some [7], [5])"
proof (rule length_prefixed_roundtrip)
  show "cbb_ok (lp_cbb [8, 8, 9] 0 [])"
    by (simp add: lp_cbb_def cbb_ok_def buf_ok_def SIZE_MOD_def)
  show "cbb_add_length_prefixed 0 1 (lp_cbb [8, 8, 9] 0 []) = (Some (), lp_cbb [0, 8, 9] 1 [lp_child])"
    by (simp add: lp_eval)
  show "CBB_add_bytes (Suc 0) [7] (length [7 :: byte]) (lp_cbb [0, 8, 9] 1 [lp_child]) =
      (Some (), lp_cbb [0, 7, 9] 2 [lp_child])"
    by (simp add: lp_eval)
  show "CBB_flush 0 (lp_cbb [0, 7, 9] 2 [lp_child]) = (Some (), lp_cbb [1, 7, 9] 2 [])"
    by (simp add: lp_eval)
qed simp_all

end
