(* ===== verification/Oid.thy ===== *)
theory Oid
  imports Cbb_Correct
begin

text \<open>
  Object identifiers as text: \<open>CBB_add_asn1_oid_from_text\<close> (\<open>cbb.c\<close>) and
  \<open>CBS_asn1_oid_to_text\<close> (\<open>cbs.c\<close>). Both loops consume their span and so terminate; the lemmas show
  what they accept and that each undoes the other.
\<close>

section \<open>From text\<close>

definition parse_dotted_decimal :: "u64 reader" where
  "parse_dotted_decimal cbs = chk (CBS_get_u64_decimal cbs) (\<lambda>out cbs.
     case CBS_get_u8 cbs of
       (None, cbs) \<Rightarrow> (Some out, cbs)
     | (Some dot, cbs) \<Rightarrow> if dot = 0x2e \<and> CBS_len cbs > 0 then (Some out, cbs) else (None, cbs))"

interpretation dotted: byte_reader parse_dotted_decimal
proof
  show "suffix s' s" if "parse_dotted_decimal s = (r, s')" for s s' r
  proof -
    obtain v t where v: "CBS_get_u64_decimal s = (v, t)"
      by (cases "CBS_get_u64_decimal s")
    have "suffix t s"
      by (rule decimal.rd_suffix [OF v])
    moreover have "suffix s' t"
      using that v by (cases v; cases t) (auto simp: parse_dotted_decimal_def suffix_ConsI split: if_splits)
    ultimately show ?thesis
      by (rule suffix_order.trans [rotated])
  qed
  show "length s' < length s" if "parse_dotted_decimal s = (Some x, s')" for s s' x
  proof -
    from that obtain v t where v: "CBS_get_u64_decimal s = (Some v, t)"
      by (auto simp: parse_dotted_decimal_def chk_Some_iff)
    have "length s' \<le> length t"
      using that v by (cases t) (auto simp: parse_dotted_decimal_def split: if_splits)
    with decimal.rd_progress [OF v] show ?thesis by simp
  qed
qed

text \<open>The loop \<open>while (CBS_len(&cbs) > 0)\<close>.\<close>

function oid_from_text_loop :: "nat \<Rightarrow> CBS \<Rightarrow> cbb \<Rightarrow> unit option \<times> cbb" where
  "oid_from_text_loop d cbs cbb =
     (if CBS_len cbs > 0
      then case parse_dotted_decimal cbs of
             (None, _) \<Rightarrow> (None, cbb)
           | (Some a, cbs') \<Rightarrow>
               chk (add_base128_integer d a cbb) (\<lambda>_ cbb. oid_from_text_loop d cbs' cbb)
      else (Some (), cbb))"
  by pat_completeness auto
termination
  by (relation "measure (\<lambda>(d, cbs, cbb). length cbs)") (auto dest!: dotted.rd_progress [OF sym])

declare oid_from_text_loop.simps [simp del]

definition CBB_add_asn1_oid_from_text :: "nat \<Rightarrow> bytes \<Rightarrow> nat \<Rightarrow> cbb \<Rightarrow> unit option \<times> cbb" where
  "CBB_add_asn1_oid_from_text d txt len cbb = chk (CBB_flush d cbb) (\<lambda>_ cbb.
     case parse_dotted_decimal (CBS_init txt len) of (None, _) \<Rightarrow> (None, cbb) | (Some a, cbs) \<Rightarrow>
     (case parse_dotted_decimal cbs of (None, _) \<Rightarrow> (None, cbb) | (Some b, cbs) \<Rightarrow>
      if a > 2 \<or> (a < 2 \<and> b > 39) \<or> b > - 1 - 80 then (None, cbb)
      else chk (add_base128_integer d (40 * a + b) cbb) (\<lambda>_ cbb. oid_from_text_loop d cbs cbb)))"

section \<open>To text\<close>

text \<open>\<open>snprintf("%" PRIu64, v)\<close> writes the decimal digits of \<open>v\<close>.\<close>

definition add_decimal :: "nat \<Rightarrow> u64 \<Rightarrow> cbb \<Rightarrow> unit option \<times> cbb" where
  "add_decimal d v cbb = (let buf = decimal_enc (unat v) in CBB_add_bytes d buf (length buf) cbb)"

function oid_to_text_loop :: "CBS \<Rightarrow> cbb \<Rightarrow> unit option \<times> cbb" where
  "oid_to_text_loop copy cbb =
     (if CBS_len copy \<noteq> 0
      then case parse_base128_integer copy of
             (None, _) \<Rightarrow> (None, cbb)
           | (Some v, copy') \<Rightarrow>
               chk (CBB_add_u8 0 0x2e cbb) (\<lambda>_ cbb.
               chk (add_decimal 0 v cbb) (\<lambda>_ cbb. oid_to_text_loop copy' cbb))
      else (Some (), cbb))"
  by pat_completeness auto
termination
  by (relation "measure (\<lambda>(copy, cbb). length copy)") (auto dest!: base128.rd_progress [OF sym])

declare oid_to_text_loop.simps [simp del]

text \<open>The block that is returned, or \<open>None\<close> for the null pointer.\<close>

definition CBS_asn1_oid_to_text :: "allocator \<Rightarrow> CBS \<Rightarrow> bytes option" where
  "CBS_asn1_oid_to_text al cbs =
     (case CBB_init al 32 of None \<Rightarrow> None | Some cbb \<Rightarrow>
      case parse_base128_integer cbs of (None, _) \<Rightarrow> None | (Some v, copy) \<Rightarrow>
        map_option fst (fst (
          chk (if v \<ge> 80
               then chk (CBB_add_bytes 0 [0x32, 0x2e] 2 cbb) (\<lambda>_ cbb. add_decimal 0 (v - 80) cbb)
               else chk (add_decimal 0 (v div 40) cbb) (\<lambda>_ cbb.
                    chk (CBB_add_u8 0 0x2e cbb) (\<lambda>_ cbb. add_decimal 0 (v mod 40) cbb))) (\<lambda>_ cbb.
          chk (oid_to_text_loop copy cbb) (\<lambda>_ cbb.
          chk (CBB_add_u8 0 0 cbb) (\<lambda>_ cbb. CBB_finish 0 True True cbb))))))"

section \<open>What the text of an object identifier is\<close>

fun dotted_text :: "u64 list \<Rightarrow> bytes" where
  "dotted_text [] = []"
| "dotted_text [a] = decimal_enc (unat a)"
| "dotted_text (a # b # as) = decimal_enc (unat a) @ 0x2e # dotted_text (b # as)"

text \<open>At least two arcs; the first at most 2, the second below 40 under the first two roots.\<close>

fun valid_arcs :: "u64 list \<Rightarrow> bool" where
  "valid_arcs (a # b # as) \<longleftrightarrow> unat a \<le> 2 \<and> (unat a < 2 \<longrightarrow> unat b \<le> 39) \<and> unat b \<le> 2 ^ 64 - 81"
| "valid_arcs as \<longleftrightarrow> False"

fun oid_enc :: "u64 list \<Rightarrow> bytes" where
  "oid_enc (a # b # as) = concat (map base128_enc ((40 * a + b) # as))"
| "oid_enc as = []"

lemma dot_not_digit [simp]: "\<not> is_digit 0x2e"
  by (simp add: is_digit_unat)

lemma dotted_text_eq_Nil [simp]: "dotted_text as = [] \<longleftrightarrow> as = []"
  by (cases as rule: dotted_text.cases) auto

lemma parse_dotted_decimal_iff:
  "parse_dotted_decimal s = (Some a, rest) \<longleftrightarrow>
   s = decimal_enc (unat a) @ (if rest = [] then [] else 0x2e # rest)"
proof
  assume *: "parse_dotted_decimal s = (Some a, rest)"
  then obtain v t where v: "CBS_get_u64_decimal s = (Some v, t)"
    unfolding parse_dotted_decimal_def chk_Some_iff by blast
  with * have "v = a" and t': "t = (if rest = [] then [] else 0x2e # rest)"
    by (cases t; auto simp: parse_dotted_decimal_def CBS_len_def split: if_splits)+
  with v have t: "CBS_get_u64_decimal s = (Some a, t)"
    by simp
  with t' CBS_get_u64_decimal_canonical [OF t] show "s = decimal_enc (unat a) @ (if rest = [] then [] else 0x2e # rest)"
    by simp
next
  let ?t = "if rest = [] then [] else 0x2e # rest :: bytes"
  assume s: "s = decimal_enc (unat a) @ ?t"
  have "CBS_get_u64_decimal s = (Some a, ?t)"
    unfolding s by (rule CBS_get_u64_decimal_enc) simp
  then show "parse_dotted_decimal s = (Some a, rest)"
    by (simp add: parse_dotted_decimal_def CBS_len_def)
qed

lemma parse_dotted_text:
  "parse_dotted_decimal (dotted_text (a # as)) = (Some a, dotted_text as)"
  unfolding parse_dotted_decimal_iff by (cases as) auto

lemma dotted_text_Cons:
  "s = decimal_enc (unat a) @ (if rest = [] then [] else 0x2e # rest) \<Longrightarrow> rest = dotted_text as \<Longrightarrow>
   s = dotted_text (a # as)"
  by (cases as) (auto split: if_splits)

section \<open>From text, correctly\<close>

lemma oid_from_text_loop_refines:
  "cbb_ok cbb \<Longrightarrow> \<not> b_error (cbb_base cbb) \<Longrightarrow> length (cbb_children cbb) = d \<Longrightarrow>
   refines (a_add d (concat (map base128_enc as))) cbb (oid_from_text_loop d (dotted_text as) cbb)"
proof (induction as arbitrary: cbb)
  case Nil
  then show ?case
    using a_add_Nil [of cbb d] by (simp add: oid_from_text_loop.simps CBS_len_def refines_def)
next
  case (Cons a as)
  note add = add_base128_integer_refines [OF Cons.prems, of a]
  have "refines (\<lambda>b. a_add d (concat (map base128_enc as)) (a_add d (base128_enc a) b)) cbb
      (chk (add_base128_integer d a cbb) (\<lambda>_ cbb. oid_from_text_loop d (dotted_text as) cbb))"
  proof (rule refines_chk [OF add])
    fix x c
    assume *: "add_base128_integer d a cbb = (Some x, c)" "cbb_ok c" "\<not> b_error (cbb_base c)"
    have "length (cbb_children c) = d"
      using Cons.prems(3) by (intro refines_add_length [OF add *(1)]) simp
    with Cons.IH * show "refines (a_add d (concat (map base128_enc as))) c (oid_from_text_loop d (dotted_text as) c)"
      by blast
  qed
  moreover have "oid_from_text_loop d (dotted_text (a # as)) cbb =
      chk (add_base128_integer d a cbb) (\<lambda>_ cbb. oid_from_text_loop d (dotted_text as) cbb)"
    by (subst oid_from_text_loop.simps) (simp add: CBS_len_def parse_dotted_text del: dotted_text.simps)
  ultimately show ?case by simp
qed

lemma oid_from_text_loop_accepts:
  "oid_from_text_loop d s cbb = (Some u, cbb') \<Longrightarrow> \<exists>as. s = dotted_text as"
proof (induction "length s" arbitrary: s cbb rule: less_induct)
  case less
  show ?case
  proof (cases "s = []")
    case True
    then show ?thesis by (intro exI [of _ "[]"]) simp
  next
    case False
    with less.prems obtain a t where a: "parse_dotted_decimal s = (Some a, t)"
      by (subst (asm) oid_from_text_loop.simps)
        (auto simp: CBS_len_def split: prod.splits option.splits)
    with False less.prems obtain c where "oid_from_text_loop d t c = (Some u, cbb')"
      by (subst (asm) oid_from_text_loop.simps) (auto simp: CBS_len_def chk_Some_iff)
    then obtain as where "t = dotted_text as"
      using less.hyps [OF dotted.rd_progress [OF a]] by blast
    with a have "s = dotted_text (a # as)"
      unfolding parse_dotted_decimal_iff by (rule dotted_text_Cons)
    then show ?thesis by blast
  qed
qed

lemma valid_first_arcs:
  "\<not> (a > 2 \<or> (a < 2 \<and> b > 39) \<or> b > - 1 - 80) \<longleftrightarrow> valid_arcs (a # b # as)"
proof -
  have "unat (- 1 - 80 :: u64) = 2 ^ 64 - 81"
    by simp
  then show ?thesis
    by (auto simp: word_less_nat_alt not_less)
qed

lemma CBB_add_asn1_oid_from_text_Some:
  assumes ok: "cbb_ok cbb" and add: "CBB_add_asn1_oid_from_text d txt len cbb = (Some u, cbb')"
  shows "\<exists>arcs. valid_arcs arcs \<and> take len txt = dotted_text arcs \<and>
    cbb_abs cbb' = a_add d (oid_enc arcs) (cbb_abs cbb) \<and> cbb_ok cbb'"
proof -
  let ?tail = "\<lambda>c. case parse_dotted_decimal (CBS_init txt len) of (None, _) \<Rightarrow> (None, c) | (Some a, cbs) \<Rightarrow>
     (case parse_dotted_decimal cbs of (None, _) \<Rightarrow> (None, c) | (Some b, cbs) \<Rightarrow>
      if a > 2 \<or> (a < 2 \<and> b > 39) \<or> b > - 1 - 80 then (None, c)
      else chk (add_base128_integer d (40 * a + b) c) (\<lambda>_ cbb. oid_from_text_loop d cbs cbb))"
  from add obtain x c where flush: "CBB_flush d cbb = (Some x, c)" and tail: "?tail c = (Some u, cbb')"
    unfolding CBB_add_asn1_oid_from_text_def chk_Some_iff by blast
  from tail obtain a s where a: "parse_dotted_decimal (CBS_init txt len) = (Some a, s)"
    by (cases "parse_dotted_decimal (CBS_init txt len)"; cases "fst (parse_dotted_decimal (CBS_init txt len))") auto
  with tail obtain b t where b: "parse_dotted_decimal s = (Some b, t)"
    by (cases "parse_dotted_decimal s"; cases "fst (parse_dotted_decimal s)") auto
  from tail a b have range: "\<not> (a > 2 \<or> (a < 2 \<and> b > 39) \<or> b > - 1 - 80)"
    and rest: "chk (add_base128_integer d (40 * a + b) c) (\<lambda>_ cbb. oid_from_text_loop d t cbb) = (Some u, cbb')"
    by (auto split: if_splits)
  from rest obtain y c' where first: "add_base128_integer d (40 * a + b) c = (Some y, c')"
    and loop: "oid_from_text_loop d t c' = (Some u, cbb')"
    by (auto simp: chk_Some_iff)
  obtain as where t: "t = dotted_text as"
    using oid_from_text_loop_accepts [OF loop] by auto
  have "s = dotted_text (b # as)"
    using b t unfolding parse_dotted_decimal_iff by (rule dotted_text_Cons)
  with a have text_eq: "take len txt = dotted_text (a # b # as)"
    unfolding parse_dotted_decimal_iff CBS_init_def by (rule dotted_text_Cons)
  note c = CBB_flush_Some [OF ok flush]
  note add1 = add_base128_integer_refines [OF c(3,5,2), of "40 * a + b"]
  have c': "cbb_ok c'" "\<not> b_error (cbb_base c')" "length (cbb_children c') = d"
    using add1 first c(2) refines_add_length [OF add1 first] by (auto simp: refines_def)
  have "cbb_abs cbb' = a_add d (concat (map base128_enc as)) (cbb_abs c')" "cbb_ok cbb'"
    using oid_from_text_loop_refines [OF c', of as] loop t by (simp_all add: refines_def)
  moreover have "cbb_abs c' = a_add d (base128_enc (40 * a + b)) (cbb_abs c)"
    using add1 first by (simp add: refines_def)
  moreover have "cbb_abs c = a_flush d (cbb_abs cbb)"
    using CBB_flush_refines [OF ok, of d] flush by (simp add: refines_def)
  ultimately show ?thesis
    using text_eq range by (intro exI [of _ "a # b # as"]) (simp add: valid_first_arcs [of a b as, symmetric] del: valid_arcs.simps)
qed

section \<open>To text, correctly\<close>

text \<open>
  \<open>appends cbb r x\<close>: the call that returned \<open>r\<close> on a builder with no open children has, if it
  succeeded, appended \<open>x\<close> and left no open children.
\<close>

definition flat :: "cbb \<Rightarrow> bool" where
  "flat cbb \<longleftrightarrow> cbb_ok cbb \<and> \<not> b_error (cbb_base cbb) \<and> cbb_children cbb = []"

definition appends :: "cbb \<Rightarrow> 'a option \<times> cbb \<Rightarrow> bytes \<Rightarrow> bool" where
  "appends cbb r x \<longleftrightarrow> (\<forall>y cbb'. r = (Some y, cbb') \<longrightarrow>
     flat cbb' \<and> contents (cbb_base cbb') = contents (cbb_base cbb) @ x)"

lemma appends_refines: "flat cbb \<Longrightarrow> refines (a_add 0 x) cbb r \<Longrightarrow> appends cbb r x"
proof -
  assume *: "flat cbb" "refines (a_add 0 x) cbb r"
  have "flat c \<and> contents (cbb_base c) = contents (cbb_base cbb) @ x" if r: "r = (Some y, c)" for y c
  proof -
    have "length (cbb_children c) = 0"
      by (rule refines_add_length [OF *(2) r]) simp
    then have "cbb_children c = []" by simp
    moreover have "cbb_abs c = a_add 0 x (cbb_abs cbb)"
      using * r by (simp add: refines_def)
    ultimately show ?thesis
      using * r by (simp add: flat_def refines_def cbb_abs_flat a_add_def put_last_def)
  qed
  then show "appends cbb r x"
    by (simp add: appends_def)
qed

lemma appends_chk:
  assumes "appends cbb r x" "\<And>y cbb'. r = (Some y, cbb') \<Longrightarrow> flat cbb' \<Longrightarrow> appends cbb' (f y cbb') z"
  shows "appends cbb (chk r f) (x @ z)"
  using assms by (fastforce simp: appends_def chk_Some_iff)

lemma appends_return: "flat cbb \<Longrightarrow> appends cbb (Some x, cbb) []"
  by (simp add: appends_def)

lemma appends_None: "appends cbb (None, c) x"
  by (simp add: appends_def)

lemma CBB_add_u8_appends: "flat cbb \<Longrightarrow> appends cbb (CBB_add_u8 0 v cbb) [v]"
  by (rule appends_refines, assumption, rule CBB_add_u8_refines) (simp add: flat_def)

lemma decimal_enc_length: "length (decimal_enc n) \<le> Suc n"
proof (induction n rule: decimal_enc.induct)
  case (1 n)
  show ?case
  proof (cases "n < 10")
    case False
    with 1 show ?thesis by (subst decimal_enc.simps) simp
  qed (simp add: decimal_enc.simps)
qed

lemma decimal_enc_u64_length: "length (decimal_enc (unat (v :: u64))) \<le> 20"
proof -
  have "n < 10 ^ Suc k \<Longrightarrow> length (decimal_enc n) \<le> Suc k" for n k
  proof (induction k arbitrary: n)
    case 0
    then show ?case by (simp add: decimal_enc.simps)
  next
    case (Suc k)
    then have "n div 10 < 10 ^ Suc k"
      by (simp add: less_mult_imp_div_less mult.commute)
    from Suc.IH [OF this] show ?case
      by (subst decimal_enc.simps) simp
  qed
  moreover have "unat v < 10 ^ Suc 19"
    using unat_u64_less [of v] by simp
  ultimately have "length (decimal_enc (unat v)) \<le> Suc 19" .
  then show ?thesis by simp
qed

lemma add_decimal_appends: "flat cbb \<Longrightarrow> appends cbb (add_decimal 0 v cbb) (decimal_enc (unat v))"
proof -
  assume *: "flat cbb"
  have "length (decimal_enc (unat v)) < SIZE_MOD"
    using decimal_enc_u64_length [of v] by (rule order.strict_trans1) (simp add: SIZE_MOD_def)
  with CBB_add_bytes_refines [of cbb "length (decimal_enc (unat v))" "decimal_enc (unat v)" 0] *
  have "refines (a_add 0 (decimal_enc (unat v))) cbb (add_decimal 0 v cbb)"
    by (simp add: add_decimal_def Let_def flat_def)
  with * show ?thesis by (rule appends_refines)
qed

fun dotted_rest :: "u64 list \<Rightarrow> bytes" where
  "dotted_rest [] = []"
| "dotted_rest (a # as) = 0x2e # decimal_enc (unat a) @ dotted_rest as"

lemma dotted_text_rest: "dotted_text (a # as) = decimal_enc (unat a) @ dotted_rest as"
  by (induction as arbitrary: a) auto

lemma oid_to_text_loop_appends:
  "flat cbb \<Longrightarrow> appends cbb (oid_to_text_loop (concat (map base128_enc vs)) cbb) (dotted_rest vs)"
proof (induction vs arbitrary: cbb)
  case Nil
  then show ?case by (simp add: oid_to_text_loop.simps CBS_len_def appends_return)
next
  case (Cons v vs)
  have "base128_enc v \<noteq> []"
    by (simp add: base128_enc_def)
  then have "oid_to_text_loop (concat (map base128_enc (v # vs))) cbb =
      chk (CBB_add_u8 0 0x2e cbb) (\<lambda>_ cbb. chk (add_decimal 0 v cbb)
        (\<lambda>_ cbb. oid_to_text_loop (concat (map base128_enc vs)) cbb))"
    by (subst oid_to_text_loop.simps) (simp add: CBS_len_def parse_base128_enc)
  moreover have "appends cbb \<dots> ([0x2e] @ decimal_enc (unat v) @ dotted_rest vs)"
    by (intro appends_chk CBB_add_u8_appends add_decimal_appends Cons)
  ultimately show ?case by simp
qed

lemma oid_to_text_loop_accepts:
  "oid_to_text_loop s cbb = (Some u, cbb') \<Longrightarrow> \<exists>vs. s = concat (map base128_enc vs)"
proof (induction "length s" arbitrary: s cbb rule: less_induct)
  case less
  show ?case
  proof (cases "s = []")
    case True
    then show ?thesis by (intro exI [of _ "[]"]) simp
  next
    case False
    with less.prems obtain v t where v: "parse_base128_integer s = (Some v, t)"
      by (subst (asm) oid_to_text_loop.simps)
        (auto simp: CBS_len_def split: prod.splits option.splits)
    with False less.prems obtain c where "oid_to_text_loop t c = (Some u, cbb')"
      by (subst (asm) oid_to_text_loop.simps) (auto simp: CBS_len_def chk_Some_iff)
    then obtain vs where "t = concat (map base128_enc vs)"
      using less.hyps [OF base128.rd_progress [OF v]] by blast
    then have "s = concat (map base128_enc (v # vs))"
      using base128.rd_canonical [OF v] by simp
    then show ?thesis by blast
  qed
qed

text \<open>The first two arcs, from the first integer.\<close>

definition first_arcs :: "u64 \<Rightarrow> u64 list" where
  "first_arcs v = (if v \<ge> 80 then [2, v - 80] else [v div 40, v mod 40])"

lemma first_arcs:
  "\<exists>a b. first_arcs v = [a, b] \<and> valid_arcs (a # b # as) \<and> 40 * a + b = v"
proof (cases "v \<ge> 80")
  case True
  then have "80 \<le> unat v"
    by (simp add: word_le_nat_alt)
  moreover have "unat (v - 80) = unat v - 80"
    using True by (simp add: unat_sub)
  ultimately show ?thesis
    using True unat_u64_less [of v] by (simp add: first_arcs_def)
next
  case False
  then have v: "unat v < 80"
    by (simp add: word_le_nat_alt)
  have "unat (v div 40) = unat v div 40" "unat (v mod 40) = unat v mod 40"
    by (simp_all add: unat_div unat_mod)
  moreover have "unat v div 40 \<le> 1" "unat v mod 40 \<le> 39"
    using v by auto
  moreover have "40 * (v div 40) + v mod 40 = v"
    by (metis mult.commute div_mult_mod_eq)
  ultimately show ?thesis
    using False by (simp add: first_arcs_def)
qed

lemma first_arcs_unique:
  assumes "valid_arcs (a # b # as)"
  shows "first_arcs (40 * a + b) = [a, b]"
proof -
  have ab: "unat a \<le> 2" "unat a < 2 \<longrightarrow> unat b \<le> 39" "unat b \<le> 2 ^ 64 - 81"
    using assms by simp_all
  have u: "unat (40 * a + b) = 40 * unat a + unat b"
  proof -
    have "unat (40 * a) = 40 * unat a"
      using ab by (simp add: unat_word_ariths)
    moreover have "40 * unat a + unat b < 2 ^ 64"
      using ab by auto
    ultimately show ?thesis by (simp add: unat_word_ariths)
  qed
  consider "unat a = 2" | "unat a < 2" using ab(1) by linarith
  then show ?thesis
  proof cases
    case 1
    then have a: "a = 2"
      by (simp add: word_unat_eq_iff)
    moreover have "80 \<le> 40 * a + b"
      using u 1 by (simp add: word_le_nat_alt)
    ultimately show ?thesis by (simp add: first_arcs_def)
  next
    case 2
    then have b: "unat b \<le> 39" using ab by simp
    have "\<not> 80 \<le> 40 * a + b"
      using u 2 b by (simp add: word_le_nat_alt)
    moreover have "(40 * a + b) div 40 = a" "(40 * a + b) mod 40 = b"
      using u b by (simp_all add: word_unat_eq_iff unat_div unat_mod)
    ultimately show ?thesis by (simp add: first_arcs_def)
  qed
qed

lemma base128_concat_inject:
  assumes "concat (map base128_enc vs) = concat (map base128_enc ws)"
  shows "vs = ws"
  using base128.read_all_iff [of "concat (map base128_enc ws)"] assms by (metis option.inject)

lemma oid_enc_first:
  assumes "valid_arcs arcs"
  obtains a b as where "arcs = a # b # as" "oid_enc arcs = base128_enc (40 * a + b) @ concat (map base128_enc as)"
    "arcs = first_arcs (40 * a + b) @ as"
  using assms first_arcs_unique by (cases arcs rule: valid_arcs.cases) auto

lemma oid_enc_inject:
  assumes "valid_arcs as" "valid_arcs bs" "oid_enc as = oid_enc bs"
  shows "as = bs"
proof -
  obtain a1 a2 as' where a: "oid_enc as = base128_enc (40 * a1 + a2) @ concat (map base128_enc as')"
    "as = first_arcs (40 * a1 + a2) @ as'"
    by (rule oid_enc_first [OF assms(1)])
  obtain b1 b2 bs' where b: "oid_enc bs = base128_enc (40 * b1 + b2) @ concat (map base128_enc bs')"
    "bs = first_arcs (40 * b1 + b2) @ bs'"
    by (rule oid_enc_first [OF assms(2)])
  have "(40 * a1 + a2) # as' = (40 * b1 + b2) # bs'"
    by (rule base128_concat_inject) (use a b assms in simp)
  with a b show ?thesis by simp
qed

lemma dotted_text_no_nul: "0 \<notin> set (dotted_text as)"
proof -
  have dec: "0 \<notin> set (decimal_enc n)" for n
  proof (induction n rule: decimal_enc.induct)
    case (1 n)
    have "(word_of_nat (48 + d) :: byte) \<noteq> 0" if "d < 10" for d
      using digit_byte [OF that] by (metis add_is_0 unat_0 zero_neq_numeral)
    from this [of n] this [of "n mod 10"] 1 show ?case
      by (subst decimal_enc.simps) (auto simp del: of_nat_add)
  qed
  show ?thesis
    by (induction as rule: dotted_text.induct) (simp_all add: dec)
qed

lemma CBB_init_flat:
  "CBB_init al 32 = Some cbb \<Longrightarrow> flat cbb \<and> contents (cbb_base cbb) = []"
  using CBB_init_ok [of al 32 cbb] by (simp add: flat_def SIZE_MOD_def cbb_abs_flat)

lemma map_fst_fst: "map_option fst (fst r) = Some t \<Longrightarrow> \<exists>len c. r = (Some (t, len), c)"
  by (cases r) auto

lemma CBS_asn1_oid_to_text_Some:
  assumes "CBS_asn1_oid_to_text al s = Some t"
  shows "\<exists>arcs. valid_arcs arcs \<and> s = oid_enc arcs \<and> cstr t = dotted_text arcs"
proof -
  from assms obtain cbb where init: "CBB_init al 32 = Some cbb"
    by (auto simp: CBS_asn1_oid_to_text_def split: option.splits)
  from assms init obtain v copy where v: "parse_base128_integer s = (Some v, copy)"
    by (auto simp: CBS_asn1_oid_to_text_def split: option.splits prod.splits)
  let ?first = "if v \<ge> 80
       then chk (CBB_add_bytes 0 [0x32, 0x2e] 2 cbb) (\<lambda>_ cbb. add_decimal 0 (v - 80) cbb)
       else chk (add_decimal 0 (v div 40) cbb) (\<lambda>_ cbb.
            chk (CBB_add_u8 0 0x2e cbb) (\<lambda>_ cbb. add_decimal 0 (v mod 40) cbb))"
  from assms init v have "map_option fst (fst (chk ?first (\<lambda>_ cbb. chk (oid_to_text_loop copy cbb) (\<lambda>_ cbb.
      chk (CBB_add_u8 0 0 cbb) (\<lambda>_ cbb. CBB_finish 0 True True cbb))))) = Some t"
    by (simp add: CBS_asn1_oid_to_text_def)
  from map_fst_fst [OF this] obtain len c where "chk ?first (\<lambda>_ cbb. chk (oid_to_text_loop copy cbb) (\<lambda>_ cbb.
      chk (CBB_add_u8 0 0 cbb) (\<lambda>_ cbb. CBB_finish 0 True True cbb))) = (Some (t, len), c)"
    by (elim exE)
  then obtain x1 c1 x2 c2 x3 c3 where c1: "?first = (Some x1, c1)" and c2: "oid_to_text_loop copy c1 = (Some x2, c2)"
    and c3: "CBB_add_u8 0 0 c2 = (Some x3, c3)" and fin: "CBB_finish 0 True True c3 = (Some (t, len), c)"
    unfolding chk_Some_iff by blast
  obtain vs where copy: "copy = concat (map base128_enc vs)"
    using oid_to_text_loop_accepts [OF c2] by auto
  obtain a b where ab: "first_arcs v = [a, b]" "valid_arcs (a # b # vs)" "40 * a + b = v"
    using first_arcs by blast
  note f0 = CBB_init_flat [OF init]
  have first: "appends cbb ?first (decimal_enc (unat a) @ [0x2e] @ decimal_enc (unat b))"
  proof (cases "v \<ge> 80")
    case True
    then have "a = 2" "b = v - 80"
      using ab(1) by (simp_all add: first_arcs_def)
    moreover have "decimal_enc 2 = [0x32]"
      by (simp add: decimal_enc.simps)
    moreover have "appends cbb (CBB_add_bytes 0 [0x32, 0x2e] 2 cbb) [0x32, 0x2e]"
      using f0 CBB_add_bytes_refines [of cbb 2 "[0x32, 0x2e]" 0]
      by (intro appends_refines) (simp_all add: flat_def SIZE_MOD_def)
    then have "appends cbb ?first ([0x32, 0x2e] @ decimal_enc (unat (v - 80)))"
      using True by simp (rule appends_chk [where x = "[0x32, 0x2e]", simplified], assumption, rule add_decimal_appends)
    ultimately show ?thesis by simp
  next
    case False
    with ab(1) have "a = v div 40" "b = v mod 40"
      by (simp_all add: first_arcs_def)
    with False f0 show ?thesis
      by (simp only: if_False) (intro appends_chk CBB_add_u8_appends add_decimal_appends; simp)
  qed
  then have flat1: "flat c1" "contents (cbb_base c1) = decimal_enc (unat a) @ [0x2e] @ decimal_enc (unat b)"
    using c1 f0 by (simp_all add: appends_def)
  have flat2: "flat c2" "contents (cbb_base c2) = contents (cbb_base c1) @ dotted_rest vs"
    using oid_to_text_loop_appends [OF flat1(1), of vs] c2 copy by (simp_all add: appends_def)
  have flat3: "flat c3" "contents (cbb_base c3) = contents (cbb_base c2) @ [0]"
    using CBB_add_u8_appends [OF flat2(1), of 0] c3 by (simp_all add: appends_def)
  have "contents (cbb_base c3) = dotted_text (a # b # vs) @ [0]"
    using flat1 flat2 flat3 by (simp add: dotted_text_rest)
  moreover have "message (cbb_abs c3) = contents (cbb_base c3)"
    using flat3 by (simp add: message_def flat_def cbb_abs_flat)
  ultimately have "take len t = dotted_text (a # b # vs) @ [0]"
    using CBB_finish_Some(1) [OF _ fin] flat3 by (simp add: flat_def)
  then obtain rest where "t = dotted_text (a # b # vs) @ 0 # rest"
    by (metis append.assoc append_Cons append_Nil append_take_drop_id)
  then have "cstr t = dotted_text (a # b # vs)"
    using dotted_text_no_nul [of "a # b # vs"] by (auto simp: cstr_def takeWhile_append)
  moreover have "s = oid_enc (a # b # vs)"
    using base128.rd_canonical [OF v] copy ab(3) by simp
  ultimately show ?thesis
    using ab(2) by blast
qed

section \<open>Properties\<close>

text \<open>
  C15: what \<open>CBB_add_asn1_oid_from_text\<close> accepts and writes: the text is the dotted decimal form of at
  least two arcs in the range ASN.1 allows, without leading zeros, signs or empty components, and
  what is added to the handle's frame is the DER contents of those arcs.
\<close>

theorem oid_from_text_meaning:
  assumes "cbb_ok cbb" "CBB_add_asn1_oid_from_text d txt len cbb = (Some u, cbb')"
  shows "\<exists>arcs. valid_arcs arcs \<and> take len txt = dotted_text arcs \<and>
    cbb_abs cbb' = a_add d (oid_enc arcs) (cbb_abs cbb) \<and> cbb_ok cbb'"
  by (rule CBB_add_asn1_oid_from_text_Some [OF assms])

definition oid_cbb :: "bytes \<Rightarrow> nat \<Rightarrow> cbb" where
  "oid_cbb buf len =
     \<lparr>cbb_base = \<lparr>b_buf = buf, b_len = len, b_cap = 2, b_can_resize = False, b_error = False\<rparr>,
      cbb_children = [], cbb_alloc = \<lparr>malloc_ok = (\<lambda>_. False), junk = (\<lambda>_. 0)\<rparr>\<rparr>"

lemma oid_cbb_ok: "len \<le> 2 \<Longrightarrow> length buf = 2 \<Longrightarrow> cbb_ok (oid_cbb buf len)"
  by (simp add: oid_cbb_def cbb_ok_def buf_ok_def SIZE_MOD_def)

text \<open>The text \<open>"1.2"\<close>.\<close>

lemma oid_example:
  "CBB_add_asn1_oid_from_text 0 [0x31, 0x2e, 0x32] 3 (oid_cbb [0, 0] 0) = (Some (), oid_cbb [42, 0] 1)"
proof -
  have a: "parse_dotted_decimal [0x31, 0x2e, 0x32] = (Some 1, [0x32])"
    "parse_dotted_decimal [0x32] = (Some 2, [])"
    unfolding parse_dotted_decimal_iff by (simp_all add: decimal_enc.simps)
  have "base128_len_loop 0 42 = 1"
    by (simp add: base128_len_loop.simps)
  then have add: "add_base128_integer 0 42 (oid_cbb [0, 0] 0) = (Some (), oid_cbb [42, 0] 1)"
    by (simp add: add_base128_integer_def oid_cbb_def CBB_add_u8_def cbb_add_u_def CBB_add_space_def
        CBB_flush.simps cbb_on_base_def cbb_buffer_add_def cbb_buffer_reserve_def size_add_def SIZE_MOD_def)
  show ?thesis
    using a add by (simp add: CBB_add_asn1_oid_from_text_def CBS_init_def CBS_len_def oid_from_text_loop.simps
        CBB_flush_clean oid_cbb_def)
qed

theorem oid_from_text_meaning_witness:
  "\<exists>arcs. valid_arcs arcs \<and> take 3 [0x31, 0x2e, 0x32] = dotted_text arcs \<and>
    cbb_abs (oid_cbb [42, 0] 1) = a_add 0 (oid_enc arcs) (cbb_abs (oid_cbb [0, 0] 0)) \<and> cbb_ok (oid_cbb [42, 0] 1)"
  by (rule oid_from_text_meaning [OF oid_cbb_ok oid_example]) simp_all

text \<open>
  C31: text to DER to text is the identity: if \<open>CBB_add_asn1_oid_from_text\<close> accepts a text on a builder
  with no contents and no open children, then whatever \<open>CBS_asn1_oid_to_text\<close> returns for the bytes it
  wrote is, as a C string, that text.
\<close>

theorem oid_text_roundtrip:
  assumes "cbb_ok cbb" "cbb_children cbb = []" "contents (cbb_base cbb) = []"
    and "CBB_add_asn1_oid_from_text 0 txt len cbb = (Some u, cbb')"
    and "CBS_asn1_oid_to_text al (message (cbb_abs cbb')) = Some t"
  shows "cstr t = take len txt"
proof -
  obtain arcs where arcs: "valid_arcs arcs" "take len txt = dotted_text arcs"
    "cbb_abs cbb' = a_add 0 (oid_enc arcs) (cbb_abs cbb)"
    using CBB_add_asn1_oid_from_text_Some [OF assms(1,4)] by auto
  then have "message (cbb_abs cbb') = oid_enc arcs"
    using assms(2,3) by (simp add: cbb_abs_flat message_def) (simp add: a_add_def a_flush_def put_last_def)
  with CBS_asn1_oid_to_text_Some [OF assms(5)] arcs show ?thesis
    using oid_enc_inject by metis
qed

lemma oid_example_text:
  "\<exists>t. CBS_asn1_oid_to_text \<lparr>malloc_ok = (\<lambda>_. True), junk = (\<lambda>_. 0)\<rparr> [42] = Some t"
proof -
  have v: "parse_base128_integer [42] = (Some 42, [])"
    by (simp add: parse_base128_integer_def)
  have d: "decimal_enc 1 = [0x31]" "decimal_enc 2 = [0x32]"
    by (simp_all add: decimal_enc.simps)
  define init where "init = cbb_init \<lparr>malloc_ok = (\<lambda>_. True), junk = (\<lambda>_. 0)\<rparr> (replicate 32 0) 32 True"
  have i: "CBB_init \<lparr>malloc_ok = (\<lambda>_. True), junk = (\<lambda>_. 0)\<rparr> 32 = Some init"
    by (simp add: CBB_init_def OPENSSL_malloc_def size_add_def SIZE_MOD_def OPENSSL_MALLOC_PREFIX_def
        init_def map_replicate_const)
  have ready: "ready [] (0 + 32) init"
    by (simp add: init_def cbb_init_def ready_def cbb_ok_def buf_ok_def SIZE_MOD_def)
  have "succeeds [] 31 (add_decimal 0 1 init)"
    unfolding add_decimal_def Let_def
    by (rule CBB_add_bytes_succeeds) (use ready d in \<open>simp_all add: ready_def\<close>)
  then obtain c1 where c1: "add_decimal 0 1 init = (Some (), c1)" "ready [] 31 c1"
    by (auto simp: succeeds_def)
  have "succeeds [] 30 (CBB_add_u8 0 0x2e c1)"
    by (rule CBB_add_u8_succeeds) (use c1 in simp_all)
  then obtain c2 where c2: "CBB_add_u8 0 0x2e c1 = (Some (), c2)" "ready [] 30 c2"
    by (auto simp: succeeds_def)
  have "succeeds [] 29 (add_decimal 0 2 c2)"
    unfolding add_decimal_def Let_def
    by (rule CBB_add_bytes_succeeds) (use c2 d in \<open>simp_all add: ready_def\<close>)
  then obtain c3 where c3: "add_decimal 0 2 c2 = (Some (), c3)" "ready [] 29 c3"
    by (auto simp: succeeds_def)
  have "succeeds [] 28 (CBB_add_u8 0 0 c3)"
    by (rule CBB_add_u8_succeeds) (use c3 in simp_all)
  then obtain c4 where c4: "CBB_add_u8 0 0 c3 = (Some (), c4)" "ready [] 28 c4"
    by (auto simp: succeeds_def)
  show ?thesis
    by (simp add: CBS_asn1_oid_to_text_def i v c1 c2 c3 c4 oid_to_text_loop.simps CBS_len_def
        CBB_finish_succeeds [OF c4(2)])
qed

theorem oid_text_roundtrip_witness:
  "\<exists>t. CBS_asn1_oid_to_text \<lparr>malloc_ok = (\<lambda>_. True), junk = (\<lambda>_. 0)\<rparr> [42] = Some t \<and>
    cstr t = take 3 [0x31, 0x2e, 0x32]"
proof -
  obtain t where t: "CBS_asn1_oid_to_text \<lparr>malloc_ok = (\<lambda>_. True), junk = (\<lambda>_. 0)\<rparr> [42] = Some t"
    using oid_example_text by auto
  have m: "message (cbb_abs (oid_cbb [42, 0] 1)) = [42]"
    by (simp add: cbb_abs_flat message_def oid_cbb_def contents_def a_flush_def)
  have "cstr t = take 3 [0x31, 0x2e, 0x32]"
  proof (rule oid_text_roundtrip [OF oid_cbb_ok _ _ oid_example])
    show "CBS_asn1_oid_to_text \<lparr>malloc_ok = (\<lambda>_. True), junk = (\<lambda>_. 0)\<rparr>
        (message (cbb_abs (oid_cbb [42, 0] 1))) = Some t"
      unfolding m by (rule t)
  qed (simp_all add: oid_cbb_def contents_def)
  with t show ?thesis by blast
qed

end
