(* ===== verification/Set_Of.thy ===== *)
theory Set_Of
  imports Cbb_Correct Comparison "HOL-Library.List_Lexorder"
begin

text \<open>
  \<open>CBB_flush_asn1_set_of\<close> (\<open>cbb.c\<close>): the elements of a SET OF, put into the order DER asks for. The
  comparison function is shown to be the lexicographic order of byte strings; \<open>qsort\<close> is the C
  library's and is a parameter, assumed to do what its documentation says.
\<close>

section \<open>Sorting\<close>

text \<open>What the C standard says of \<open>qsort\<close>: given a comparison function, a sorted permutation.\<close>

definition qsort_contract :: "(('a \<Rightarrow> 'a \<Rightarrow> int) \<Rightarrow> 'a list \<Rightarrow> 'a list) \<Rightarrow> bool" where
  "qsort_contract qsort \<longleftrightarrow> (\<forall>cmp xs. comparison cmp \<longrightarrow>
     mset (qsort cmp xs) = mset xs \<and> sorted_wrt (\<lambda>a b. cmp a b \<le> 0) (qsort cmp xs))"

section \<open>The order of encodings\<close>

text \<open>\<open>memcmp\<close>: the sign of the first difference among \<open>n\<close> bytes.\<close>

fun memcmp :: "bytes \<Rightarrow> bytes \<Rightarrow> nat \<Rightarrow> int" where
  "memcmp (x # a) (y # b) (Suc n) = (if x < y then - 1 else if y < x then 1 else memcmp a b n)"
| "memcmp a b n = 0"

definition OPENSSL_memcmp :: "bytes \<Rightarrow> bytes \<Rightarrow> nat \<Rightarrow> int" where
  "OPENSSL_memcmp s1 s2 n = (if n = 0 then 0 else memcmp s1 s2 n)"

definition compare_set_of_element :: "CBS \<Rightarrow> CBS \<Rightarrow> int" where
  "compare_set_of_element a b =
     (let a_len = CBS_len a; b_len = CBS_len b;
          min_len = (if a_len < b_len then a_len else b_len);
          ret = OPENSSL_memcmp (CBS_data a) (CBS_data b) min_len
      in if ret \<noteq> 0 then ret
      else if a_len = b_len then 0
      else if a_len < b_len then - 1 else 1)"

lemma compare_Cons:
  "compare_set_of_element (x # a) (y # b) =
   (if x < y then - 1 else if y < x then 1 else compare_set_of_element a b)"
  by (auto simp: compare_set_of_element_def CBS_len_def CBS_data_def OPENSSL_memcmp_def Let_def)

lemma compare_Nil [simp]:
  "compare_set_of_element [] [] = 0"
  "compare_set_of_element [] (y # b) = - 1"
  "compare_set_of_element (x # a) [] = 1"
  by (simp_all add: compare_set_of_element_def CBS_len_def CBS_data_def OPENSSL_memcmp_def Let_def)

lemma compare_set_of_element_less: "compare_set_of_element a b < 0 \<longleftrightarrow> a < b"
  by (induction a b rule: list_induct2') (auto simp: compare_Cons)

lemma compare_set_of_element_zero: "compare_set_of_element a b = 0 \<longleftrightarrow> a = b"
  by (induction a b rule: list_induct2') (auto simp: compare_Cons)

lemma compare_set_of_element_le: "compare_set_of_element a b \<le> 0 \<longleftrightarrow> a \<le> b"
  using compare_set_of_element_less [of a b] compare_set_of_element_zero [of a b] by (auto simp: less_le)

interpretation set_of: comparison compare_set_of_element
proof
  show "compare_set_of_element a b < 0 \<longleftrightarrow> 0 < compare_set_of_element b a" for a b
  proof -
    have "0 < compare_set_of_element b a \<longleftrightarrow> \<not> compare_set_of_element b a \<le> 0"
      by (simp add: not_le)
    then show ?thesis
      by (simp only: compare_set_of_element_le compare_set_of_element_less not_le)
  qed
  show "compare_set_of_element a b \<le> 0 \<Longrightarrow> compare_set_of_element b c \<le> 0 \<Longrightarrow> compare_set_of_element a c \<le> 0"
    for a b c
    by (auto simp: compare_set_of_element_le)
qed

section \<open>Flushing a SET OF\<close>

interpretation any_element: byte_reader CBS_get_any_asn1_element
proof
  show "suffix s' s" if "CBS_get_any_asn1_element s = (r, s')" for s s' r
    using that by (rule element_suffix)
  show "length s' < length s" if "CBS_get_any_asn1_element s = (Some x, s')" for s s' x
  proof -
    from der_element_canonical [OF that] obtain body where
      "s = der_element (elt_tag x) body @ s'"
      by auto
    then show ?thesis by (simp add: der_element_def)
  qed
qed

text \<open>
  The loop that reads the children and fails at the first that is not an element; \<open>16\<close> is
  \<open>sizeof(CBS)\<close>. The second pass reads the copy \<open>buf\<close> of the contents.
\<close>

definition CBB_flush_asn1_set_of ::
    "((CBS \<Rightarrow> CBS \<Rightarrow> int) \<Rightarrow> CBS list \<Rightarrow> CBS list) \<Rightarrow> nat \<Rightarrow> cbb \<Rightarrow> unit option \<times> cbb" where
  "CBB_flush_asn1_set_of qsort d cbb = chk (CBB_flush d cbb) (\<lambda>_ cbb.
     let cbs = CBS_init (CBB_data d cbb) (CBB_len d cbb)
     in case read_all CBS_get_any_asn1_element (CBS_len cbs) cbs of None \<Rightarrow> (None, cbb) | Some elements \<Rightarrow>
     let num_children = length elements
     in if num_children < 2 then (Some (), cbb)
     else
       let buf_len = CBB_len d cbb
       in case (OPENSSL_memdup (cbb_alloc cbb) (CBB_data d cbb) buf_len,
                OPENSSL_calloc (cbb_alloc cbb) num_children 16) of
            (Some buf, Some _) \<Rightarrow>
              (case read_all CBS_get_any_asn1_element buf_len (CBS_init buf buf_len) of
                 None \<Rightarrow> (None, cbb)
               | Some elements \<Rightarrow>
                   let children = qsort compare_set_of_element (map elt_out elements)
                   in (Some (), cbb_write (CBB_start d cbb) (concat (map CBS_data children)) cbb))
          | _ \<Rightarrow> (None, cbb))"

section \<open>The contents of the handle's own frame\<close>

fun last_start :: "nat \<Rightarrow> cbb_child list \<Rightarrow> nat" where
  "last_start start [] = start"
| "last_start start (c # cs) = last_start (child_start c) cs"

lemma last_start_bounds:
  "children_ok start cs len \<Longrightarrow> start \<le> last_start start cs \<and> last_start start cs \<le> len"
proof (induction cs arbitrary: start)
  case (Cons c cs)
  then have "child_start c \<le> last_start (child_start c) cs \<and> last_start (child_start c) cs \<le> len"
    by simp
  moreover have "start \<le> child_start c"
    using Cons.prems by (simp add: child_start_def)
  ultimately show ?case by simp
qed simp

lemma last_segments: "List.last (segments start cs bs) = drop (last_start start cs) bs"
  by (induction cs arbitrary: start) simp_all

lemma segments_replace_last:
  "children_ok start cs (length bs) \<Longrightarrow>
   segments start cs (take (last_start start cs) bs @ data) = butlast (segments start cs bs) @ [data]"
proof (induction cs arbitrary: start)
  case Nil
  then show ?case by simp
next
  case (Cons c cs)
  have k: "child_start c \<le> last_start (child_start c) cs" "last_start (child_start c) cs \<le> length bs"
    using Cons.prems last_start_bounds [of "child_start c" cs "length bs"] by simp_all
  then have "c_offset c \<le> length (take (last_start (child_start c) cs) bs)"
    by (simp add: child_start_def)
  with k Cons show ?case
    by (simp add: min_absorb2 min_absorb1 child_start_def)
qed

lemma CBB_start_last:
  assumes "length (cbb_children cbb) = d"
  shows "CBB_start d cbb = last_start 0 (cbb_children cbb)"
proof -
  have *: "last_start start (cs @ [c]) = child_start c" for start cs c
    by (induction cs arbitrary: start) simp_all
  show ?thesis
  proof (cases "cbb_children cbb" rule: rev_cases)
    case Nil
    with assms show ?thesis by (simp add: CBB_start_def)
  next
    case (snoc cs c)
    with assms have "CBB_start d cbb = child_start c"
      by (auto simp: CBB_start_def child_start_def)
    with snoc * show ?thesis by simp
  qed
qed

lemma own_contents:
  assumes "cbb_ok cbb" "length (cbb_children cbb) = d"
  shows "take (CBB_len d cbb) (CBB_data d cbb) = List.last (snd (cbb_abs cbb))"
    and "CBB_len d cbb = length (List.last (snd (cbb_abs cbb)))"
proof -
  have "List.last (snd (cbb_abs cbb)) = drop (CBB_start d cbb) (contents (cbb_base cbb))"
    using assms by (simp add: cbb_abs_def builder_of_def last_segments CBB_start_last)
  with assms show "take (CBB_len d cbb) (CBB_data d cbb) = List.last (snd (cbb_abs cbb))"
    "CBB_len d cbb = length (List.last (snd (cbb_abs cbb)))"
    by (auto simp: CBB_len_def CBB_data_def contents_def cbb_ok_def buf_ok_def drop_take min_def)
qed

lemma rewrite_own_contents:
  assumes ok: "cbb_ok cbb" "length (cbb_children cbb) = d" and data: "length data = CBB_len d cbb"
  shows "cbb_ok (cbb_write (CBB_start d cbb) data cbb)"
    and "cbb_abs (cbb_write (CBB_start d cbb) data cbb) =
      (fst (cbb_abs cbb), butlast (snd (cbb_abs cbb)) @ [data])"
proof -
  let ?base = "cbb_base cbb" and ?k = "CBB_start d cbb"
  have base: "buf_ok ?base" "children_ok 0 (cbb_children cbb) (b_len ?base)"
    using ok(1) by (simp_all add: cbb_ok_def)
  have k: "?k \<le> b_len ?base" "?k = last_start 0 (cbb_children cbb)"
    using last_start_bounds [OF base(2)] CBB_start_last [OF ok(2)] by simp_all
  have len: "?k + length data = b_len ?base"
    using data k by (simp add: CBB_len_def)
  then have room: "?k + length data \<le> length (b_buf ?base)"
    using base(1) by (simp add: buf_ok_def)
  have "take (b_len ?base) (buf_write (b_buf ?base) ?k data) = take ?k (b_buf ?base) @ data"
    using take_buf_write [OF room] len by simp
  then have cont: "contents (cbb_base (cbb_write ?k data cbb)) = take ?k (contents ?base) @ data"
    using k(1) by (simp add: contents_def cbb_write_def min_absorb1)
  show "cbb_ok (cbb_write ?k data cbb)"
    using base room by (simp add: cbb_ok_def cbb_write_def buf_ok_def)
  have "cbb_abs (cbb_write ?k data cbb) =
      builder_of (cbb_children cbb) (take (last_start 0 (cbb_children cbb)) (contents ?base) @ data)"
    using k(2) cont by (simp add: cbb_abs_def cbb_write_def)
  then show "cbb_abs (cbb_write ?k data cbb) = (fst (cbb_abs cbb), butlast (snd (cbb_abs cbb)) @ [data])"
    using base by (simp add: builder_of_def segments_replace_last cbb_abs_def)
qed

section \<open>The elements in DER order\<close>

lemma read_elements_concat:
  "read_all CBS_get_any_asn1_element fuel s = Some es \<Longrightarrow> s = concat (map elt_out es)"
proof (induction fuel arbitrary: s es)
  case 0
  then show ?case by (auto split: if_splits)
next
  case (Suc fuel)
  show ?case
  proof (cases "s = []")
    case True
    with Suc.prems show ?thesis by simp
  next
    case False
    with Suc.prems obtain e s' es' where e: "CBS_get_any_asn1_element s = (Some e, s')"
      "read_all CBS_get_any_asn1_element fuel s' = Some es'" "es = e # es'"
      by (auto split: prod.splits option.splits)
    with Suc.IH [OF e(2)] der_element_canonical [OF e(1)] show ?thesis by auto
  qed
qed

lemma mset_length_concat: "mset xs = mset ys \<Longrightarrow> length (concat xs) = length (concat ys)"
proof -
  assume "mset xs = mset ys"
  then have "sum_mset (image_mset length (mset xs)) = sum_mset (image_mset length (mset ys))"
    by simp
  then show ?thesis
    by (simp add: length_concat sum_mset_sum_list flip: mset_map)
qed

lemma sorted_short: "length xs < 2 \<Longrightarrow> sorted xs"
  by (cases xs; cases "tl xs") auto

lemma CBB_flush_asn1_set_of_Some:
  assumes ok: "cbb_ok cbb" and q: "qsort_contract qsort"
    and flush: "CBB_flush_asn1_set_of qsort d cbb = (Some u, cbb')"
  shows "\<exists>es xs. List.last (snd (a_flush d (cbb_abs cbb))) = concat (map elt_out es) \<and>
    read_all CBS_get_any_asn1_element (length (concat (map elt_out es))) (concat (map elt_out es)) = Some es \<and>
    mset xs = mset (map elt_out es) \<and> sorted xs \<and> cbb_ok cbb' \<and>
    cbb_abs cbb' = (fst (a_flush d (cbb_abs cbb)), butlast (snd (a_flush d (cbb_abs cbb))) @ [concat xs])"
proof -
  from flush obtain v c where f: "CBB_flush d cbb = (Some v, c)"
    by (auto simp: CBB_flush_asn1_set_of_def chk_Some_iff)
  have c: "cbb_ok c" "length (cbb_children c) = d" "cbb_abs c = a_flush d (cbb_abs cbb)"
    using CBB_flush_Some [OF ok f] CBB_flush_cases [OF ok f] by auto
  let ?x = "List.last (snd (cbb_abs c))"
  note own = own_contents [OF c(1,2)]
  define rest where "rest = (\<lambda>elements :: asn1_element list.
     if length elements < 2 then (Some (), c)
     else case (OPENSSL_memdup (cbb_alloc c) (CBB_data d c) (CBB_len d c),
                OPENSSL_calloc (cbb_alloc c) (length elements) 16) of
            (Some buf, Some _) \<Rightarrow>
              (case read_all CBS_get_any_asn1_element (CBB_len d c) (CBS_init buf (CBB_len d c)) of
                 None \<Rightarrow> (None, c)
               | Some elements \<Rightarrow> (Some (), cbb_write (CBB_start d c)
                   (concat (map CBS_data (qsort compare_set_of_element (map elt_out elements)))) c))
          | _ \<Rightarrow> (None, c))"
  have init: "CBS_init (CBB_data d c) (CBB_len d c) = ?x"
    by (simp add: CBS_init_def own(1))
  have "(case read_all CBS_get_any_asn1_element (length ?x) ?x of None \<Rightarrow> (None, c) | Some es \<Rightarrow> rest es) =
      (Some u, cbb')"
    using flush f by (simp only: CBB_flush_asn1_set_of_def chk_simps Let_def init CBS_len_def rest_def)
  then obtain es where es: "read_all CBS_get_any_asn1_element (length ?x) ?x = Some es"
    and rest: "rest es = (Some u, cbb')"
    by (auto split: option.splits)
  have x: "?x = concat (map elt_out es)"
    by (rule read_elements_concat [OF es])
  have ne: "snd (cbb_abs c) \<noteq> []"
    by (simp add: cbb_abs_def builder_of_def)
  show ?thesis
  proof (cases "length es < 2")
    case True
    with rest have "cbb' = c"
      by (simp add: rest_def)
    moreover have "cbb_abs c = (fst (cbb_abs c), butlast (snd (cbb_abs c)) @ [concat (map elt_out es)])"
      using append_butlast_last_id [OF ne] x by (simp add: prod_eq_iff)
    ultimately show ?thesis
      using True x c es by (intro exI [of _ es] exI [of _ "map elt_out es"]) (auto intro: sorted_short)
  next
    case False
    obtain buf where buf: "OPENSSL_memdup (cbb_alloc c) (CBB_data d c) (CBB_len d c) = Some buf"
      using rest False by (auto simp: rest_def split: option.splits)
    have "buf = ?x"
      using buf own(1) by (auto simp: OPENSSL_memdup_def split: if_splits option.splits)
    then have again: "read_all CBS_get_any_asn1_element (CBB_len d c) (CBS_init buf (CBB_len d c)) = Some es"
      using es own(2) by (simp add: CBS_init_def)
    let ?xs = "qsort compare_set_of_element (map elt_out es)"
    from again rest False buf have "cbb' = cbb_write (CBB_start d c) (concat ?xs) c"
      by (auto simp: rest_def CBS_data_def [abs_def] split: option.splits)
    moreover have xs: "mset ?xs = mset (map elt_out es)" "sorted ?xs"
      using q set_of.comparison_axioms by (auto simp: qsort_contract_def compare_set_of_element_le)
    moreover have "length (concat ?xs) = CBB_len d c"
      using mset_length_concat [OF xs(1)] x own(2) by simp
    ultimately show ?thesis
      using rewrite_own_contents [OF c(1,2), of "concat ?xs"] x es c
      by (intro exI [of _ es] exI [of _ ?xs]) simp
  qed
qed

section \<open>Properties\<close>

text \<open>
  C32: the comparison that \<open>CBB_flush_asn1_set_of\<close> hands to \<open>qsort\<close> is the lexicographic order of the
  encodings as unsigned bytes, a shorter one before its extensions, and calls two equal only when they
  are identical.
\<close>

theorem set_of_order_is_lexicographic:
  "(compare_set_of_element a b < 0) = (a < b) \<and> (compare_set_of_element a b = 0) = (a = b) \<and>
   (0 < compare_set_of_element a b) = (b < a)"
  using compare_set_of_element_less [of a b] compare_set_of_element_zero [of a b]
    compare_set_of_element_less [of b a] set_of.cmp_swap [of b a] by simp

text \<open>
  C18: given a \<open>qsort\<close> that meets its specification, a successful \<open>CBB_flush_asn1_set_of\<close> replaces
  the contents of the handle's frame, which were a sequence of DER elements, by a permutation of the
  same elements in ascending lexicographic order, and changes no other frame.
\<close>

theorem set_of_is_sorted:
  assumes "cbb_ok cbb" "qsort_contract qsort" "CBB_flush_asn1_set_of qsort d cbb = (Some u, cbb')"
  shows "\<exists>es xs. List.last (snd (a_flush d (cbb_abs cbb))) = concat (map elt_out es) \<and>
    read_all CBS_get_any_asn1_element (length (concat (map elt_out es))) (concat (map elt_out es)) = Some es \<and>
    mset xs = mset (map elt_out es) \<and> sorted xs \<and> cbb_ok cbb' \<and>
    cbb_abs cbb' = (fst (a_flush d (cbb_abs cbb)), butlast (snd (a_flush d (cbb_abs cbb))) @ [concat xs])"
  by (rule CBB_flush_asn1_set_of_Some [OF assms])

text \<open>A \<open>qsort\<close>: insertion sort.\<close>

fun insert_by :: "('a \<Rightarrow> 'a \<Rightarrow> int) \<Rightarrow> 'a \<Rightarrow> 'a list \<Rightarrow> 'a list" where
  "insert_by cmp x [] = [x]"
| "insert_by cmp x (y # ys) = (if cmp x y \<le> 0 then x # y # ys else y # insert_by cmp x ys)"

definition insertion_sort :: "('a \<Rightarrow> 'a \<Rightarrow> int) \<Rightarrow> 'a list \<Rightarrow> 'a list" where
  "insertion_sort cmp xs = foldr (insert_by cmp) xs []"

lemma insertion_sort_contract: "qsort_contract insertion_sort"
proof -
  have mset_insert: "mset (insert_by cmp x ys) = add_mset x (mset ys)" for cmp and x :: 'a and ys
    by (induction ys) auto
  have "mset (insertion_sort cmp xs) = mset xs" for cmp and xs :: "'a list"
    by (induction xs) (simp_all add: insertion_sort_def mset_insert)
  moreover have "sorted_wrt (\<lambda>a b. cmp a b \<le> 0) (insertion_sort cmp xs)"
    if cmp: "comparison cmp" for cmp and xs :: "'a list"
  proof -
    have "sorted_wrt (\<lambda>a b. cmp a b \<le> 0) (insert_by cmp x ys)"
      if "sorted_wrt (\<lambda>a b. cmp a b \<le> 0) ys" for x ys
      using that
    proof (induction ys)
      case (Cons y ys)
      have "set (insert_by cmp x ys) = insert x (set ys)"
        using mset_insert [of cmp x ys] by (metis set_mset_mset set_mset_add_mset_insert)
      with Cons comparison.cmp_total [OF cmp, of x y] comparison.cmp_trans [OF cmp] show ?case
        by auto
    qed simp
    then show ?thesis
      by (induction xs) (simp_all add: insertion_sort_def)
  qed
  ultimately show ?thesis by (simp add: qsort_contract_def)
qed

text \<open>The elements \<open>02 01 05\<close> and \<open>01 01 ff\<close>, in the wrong order.\<close>

definition set_cbb :: "bytes \<Rightarrow> cbb" where
  "set_cbb buf =
     \<lparr>cbb_base = \<lparr>b_buf = buf, b_len = 6, b_cap = 6, b_can_resize = False, b_error = False\<rparr>,
      cbb_children = [], cbb_alloc = \<lparr>malloc_ok = (\<lambda>_. True), junk = (\<lambda>_. 0)\<rparr>\<rparr>"

lemma set_example:
  "CBB_flush_asn1_set_of insertion_sort 0 (set_cbb [2, 1, 5, 1, 1, 0xff]) = (Some (), set_cbb [1, 1, 0xff, 2, 1, 5])"
proof -
  let ?x = "[2, 1, 5] :: bytes" and ?y = "[1, 1, 0xff] :: bytes"
  have mask: "CBS_ASN1_TAG_NUMBER_MASK = 0x1fffffff"
    by (simp add: CBS_ASN1_TAG_NUMBER_MASK_def CBS_ASN1_TAG_SHIFT_def)
  have "der_element 2 [5] = ?x" "der_element 1 [0xff] = ?y"
    by (simp_all add: der_element_def der_tag_def der_length_def Let_def mask word_le_nat_alt CBS_ASN1_TAG_SHIFT_def)
  moreover have "valid_tag 2" "valid_tag 1"
    using valid_universal_tags by (simp_all add: CBS_ASN1_INTEGER_def CBS_ASN1_BOOLEAN_def)
  ultimately obtain e f where e: "CBS_get_any_asn1_element (?x @ ?y) = (Some e, ?y)" "elt_out e = ?x"
    and f: "CBS_get_any_asn1_element ?y = (Some f, [])" "elt_out f = ?y"
    using der_element_read [of 2 "[5]" ?y] der_element_read [of 1 "[0xff]" "[]"] by auto
  then have all: "read_all CBS_get_any_asn1_element 6 [2, 1, 5, 1, 1, 0xff] = Some [e, f]"
    by (simp add: eval_nat_numeral)
  have sort: "insertion_sort compare_set_of_element [elt_out e, elt_out f] = [?y, ?x]"
    using e f by (simp add: insertion_sort_def compare_Cons)
  let ?c = "set_cbb [2, 1, 5, 1, 1, 0xff]"
  have data: "CBB_data 0 ?c = [2, 1, 5, 1, 1, 0xff]" "CBB_len 0 ?c = 6" "CBB_start 0 ?c = 0"
    by (simp_all add: CBB_data_def CBB_len_def CBB_start_def set_cbb_def)
  have flush: "CBB_flush 0 ?c = (Some (), ?c)"
    by (simp add: CBB_flush.simps set_cbb_def)
  have mem: "OPENSSL_memdup (cbb_alloc ?c) [2, 1, 5, 1, 1, 0xff] 6 = Some [2, 1, 5, 1, 1, 0xff]"
    "OPENSSL_calloc (cbb_alloc ?c) 2 16 = Some (replicate 32 0)"
    by (simp_all add: OPENSSL_memdup_def OPENSSL_malloc_def OPENSSL_calloc_def OPENSSL_zalloc_def
        size_add_def SIZE_MOD_def OPENSSL_MALLOC_PREFIX_def set_cbb_def)
  have init: "CBS_init [2, 1, 5, 1, 1, 0xff] 6 = [2, 1, 5, 1, 1, 0xff]" "CBS_len [2, 1, 5, 1, 1, 0xff] = 6"
    by (simp_all add: CBS_init_def CBS_len_def)
  have two: "length [e, f] = 2" "\<not> (2 :: nat) < 2"
    by simp_all
  have "CBB_flush_asn1_set_of insertion_sort 0 ?c =
      (Some (), cbb_write 0 (concat (map CBS_data (insertion_sort compare_set_of_element (map elt_out [e, f])))) ?c)"
    unfolding CBB_flush_asn1_set_of_def flush chk_simps data init Let_def all option.case two mem prod.case two by simp
  also have "\<dots> = (Some (), set_cbb [1, 1, 0xff, 2, 1, 5])"
    using sort by (simp add: CBS_data_def cbb_write_def buf_write_def set_cbb_def)
  finally show ?thesis .
qed

theorem set_of_is_sorted_witness:
  "\<exists>es xs. List.last (snd (a_flush 0 (cbb_abs (set_cbb [2, 1, 5, 1, 1, 0xff])))) = concat (map elt_out es) \<and>
    read_all CBS_get_any_asn1_element (length (concat (map elt_out es))) (concat (map elt_out es)) = Some es \<and>
    mset xs = mset (map elt_out es) \<and> sorted xs \<and> cbb_ok (set_cbb [1, 1, 0xff, 2, 1, 5]) \<and>
    cbb_abs (set_cbb [1, 1, 0xff, 2, 1, 5]) =
      (fst (a_flush 0 (cbb_abs (set_cbb [2, 1, 5, 1, 1, 0xff]))),
       butlast (snd (a_flush 0 (cbb_abs (set_cbb [2, 1, 5, 1, 1, 0xff])))) @ [concat xs])"
  by (rule set_of_is_sorted [OF _ insertion_sort_contract set_example])
    (simp add: set_cbb_def cbb_ok_def buf_ok_def SIZE_MOD_def)

end
