(* ===== verification/Posix_Time.thy ===== *)
theory Posix_Time
  imports Cbs "HOL-Library.Signed_Division"
begin

text \<open>
  \<open>crypto/asn1/posix_time.c\<close>: conversions between seconds since the POSIX epoch and broken-down UTC
  times, and the RFC 5280 time parser of \<open>crypto/bytestring/cbs.c\<close> that uses them.

  The values are C \<open>int\<close>, \<open>long\<close> and \<open>int64_t\<close>, signed, so that an overflow would be undefined; the
  model computes with unbounded integers, and \<open>sdiv\<close>, \<open>smod\<close> are C's truncating \<open>/\<close>, \<open>%\<close>. A
  \<open>struct tm\<close> has the nine standard fields. \<open>time_t\<close> has 64 bits on the target, so the 32-bit range
  check of \<open>OPENSSL_timegm\<close> is dead.
\<close>

section \<open>The code\<close>

definition SECS_PER_HOUR :: int where "SECS_PER_HOUR = 60 * 60"
definition SECS_PER_DAY :: int where "SECS_PER_DAY = 24 * SECS_PER_HOUR"

definition is_valid_date :: "int \<Rightarrow> int \<Rightarrow> int \<Rightarrow> bool" where
  "is_valid_date year month day \<longleftrightarrow>
     (if day < 1 \<or> month < 1 \<or> year < 0 \<or> year > 9999 then False
      else if month \<in> {1, 3, 5, 7, 8, 10, 12} then day > 0 \<and> day \<le> 31
      else if month \<in> {4, 6, 9, 11} then day > 0 \<and> day \<le> 30
      else if month = 2
      then (if (year smod 4 = 0 \<and> year smod 100 \<noteq> 0) \<or> year smod 400 = 0
            then day > 0 \<and> day \<le> 29
            else day > 0 \<and> day \<le> 28)
      else False)"

definition is_valid_time :: "int \<Rightarrow> int \<Rightarrow> int \<Rightarrow> bool" where
  "is_valid_time hours minutes seconds \<longleftrightarrow>
     (if hours < 0 \<or> minutes < 0 \<or> seconds < 0 \<or> hours > 23 \<or> minutes > 59 \<or> seconds > 59
      then False else True)"

definition is_valid_epoch_time :: "int \<Rightarrow> bool" where
  "is_valid_epoch_time time \<longleftrightarrow> - 62167219200 \<le> time \<and> time \<le> 253402300799"

definition posix_time_from_utc :: "int \<Rightarrow> int \<Rightarrow> int \<Rightarrow> int \<Rightarrow> int \<Rightarrow> int \<Rightarrow> int option" where
  "posix_time_from_utc year month day hours minutes seconds =
     (if \<not> is_valid_date year month day \<or> \<not> is_valid_time hours minutes seconds then None
      else
        let year = (if month \<le> 2 then year - 1 else year);
            era = (if year \<ge> 0 then year else year - 399) sdiv 400;
            year_of_era = year - era * 400;
            day_of_year = (153 * (if month > 2 then month - 3 else month + 9) + 2) sdiv 5 + day - 1;
            day_of_era = year_of_era * 365 + year_of_era sdiv 4 - year_of_era sdiv 100 + day_of_year;
            posix_days = era * 146097 + day_of_era - 719468
        in Some (posix_days * SECS_PER_DAY + hours * SECS_PER_HOUR + minutes * 60 + seconds))"

text \<open>Year, month, day, hours, minutes and seconds.\<close>

definition utc_from_posix_time :: "int \<Rightarrow> (int \<times> int \<times> int \<times> int \<times> int \<times> int) option" where
  "utc_from_posix_time time =
     (if \<not> is_valid_epoch_time time then None
      else
        let days = time sdiv SECS_PER_DAY;
            leftover_seconds = time smod SECS_PER_DAY;
            (days, leftover_seconds) =
              (if leftover_seconds < 0 then (days - 1, leftover_seconds + SECS_PER_DAY)
               else (days, leftover_seconds));
            days = days + 719468;
            era = (if days > 0 then days else days - 146096) sdiv 146097;
            day_of_era = days - era * 146097;
            year_of_era = (day_of_era - day_of_era sdiv 1460 + day_of_era sdiv 36524 -
              day_of_era sdiv 146096) sdiv 365;
            out_year = year_of_era + era * 400;
            day_of_year = day_of_era - (365 * year_of_era + year_of_era sdiv 4 - year_of_era sdiv 100);
            month_of_year = (5 * day_of_year + 2) sdiv 153;
            out_month = (if month_of_year < 10 then month_of_year + 3 else month_of_year - 9);
            out_year = (if out_month \<le> 2 then out_year + 1 else out_year);
            out_day = day_of_year - (153 * month_of_year + 2) sdiv 5 + 1;
            out_hours = leftover_seconds sdiv SECS_PER_HOUR;
            leftover_seconds = leftover_seconds smod SECS_PER_HOUR;
            out_minutes = leftover_seconds sdiv 60;
            out_seconds = leftover_seconds smod 60
        in Some (out_year, out_month, out_day, out_hours, out_minutes, out_seconds))"

record tm =
  tm_sec :: int
  tm_min :: int
  tm_hour :: int
  tm_mday :: int
  tm_mon :: int
  tm_year :: int
  tm_wday :: int
  tm_yday :: int
  tm_isdst :: int

definition OPENSSL_tm_to_posix :: "tm \<Rightarrow> int option" where
  "OPENSSL_tm_to_posix tm =
     posix_time_from_utc (tm_year tm + 1900) (tm_mon tm + 1) (tm_mday tm) (tm_hour tm) (tm_min tm) (tm_sec tm)"

text \<open>The fields that \<open>utc_from_posix_time\<close> writes, and the two adjustments that follow each call.\<close>

definition set_utc :: "int \<times> int \<times> int \<times> int \<times> int \<times> int \<Rightarrow> tm \<Rightarrow> tm" where
  "set_utc utc tm = (case utc of (year, month, day, hours, minutes, seconds) \<Rightarrow>
     tm\<lparr>tm_year := year - 1900, tm_mon := month - 1, tm_mday := day,
        tm_hour := hours, tm_min := minutes, tm_sec := seconds\<rparr>)"

definition zero_tm :: tm where
  "zero_tm = \<lparr>tm_sec = 0, tm_min = 0, tm_hour = 0, tm_mday = 0, tm_mon = 0, tm_year = 0,
     tm_wday = 0, tm_yday = 0, tm_isdst = 0\<rparr>"

text \<open>\<open>*out_tm\<close> is cleared first, and stays so when the time is out of range.\<close>

definition OPENSSL_posix_to_tm :: "int \<Rightarrow> bool \<times> tm" where
  "OPENSSL_posix_to_tm time =
     (case utc_from_posix_time time of
        None \<Rightarrow> (False, zero_tm)
      | Some utc \<Rightarrow> (True, set_utc utc zero_tm))"

definition OPENSSL_timegm :: "tm \<Rightarrow> int option" where
  "OPENSSL_timegm tm =
     (case OPENSSL_tm_to_posix tm of None \<Rightarrow> None | Some posix_time \<Rightarrow> Some posix_time)"

definition OPENSSL_gmtime :: "int \<Rightarrow> tm option" where
  "OPENSSL_gmtime time = (case OPENSSL_posix_to_tm time of (ok, out_tm) \<Rightarrow> if \<not> ok then None else Some out_tm)"

text \<open>\<open>None\<close> is failure, which leaves \<open>*tm\<close> as it is.\<close>

definition OPENSSL_gmtime_adj :: "tm \<Rightarrow> int \<Rightarrow> int \<Rightarrow> tm option" where
  "OPENSSL_gmtime_adj tm off_day offset_sec =
     (case posix_time_from_utc (tm_year tm + 1900) (tm_mon tm + 1) (tm_mday tm)
             (tm_hour tm) (tm_min tm) (tm_sec tm) of
        None \<Rightarrow> None
      | Some posix_time \<Rightarrow>
          (case utc_from_posix_time (posix_time + off_day * SECS_PER_DAY + offset_sec) of
             None \<Rightarrow> None
           | Some utc \<Rightarrow> Some (set_utc utc tm)))"

definition OPENSSL_gmtime_diff :: "tm \<Rightarrow> tm \<Rightarrow> (int \<times> int) option" where
  "OPENSSL_gmtime_diff from_tm to_tm =
     (case posix_time_from_utc (tm_year to_tm + 1900) (tm_mon to_tm + 1) (tm_mday to_tm)
             (tm_hour to_tm) (tm_min to_tm) (tm_sec to_tm) of
        None \<Rightarrow> None
      | Some time_to \<Rightarrow>
     (case posix_time_from_utc (tm_year from_tm + 1900) (tm_mon from_tm + 1) (tm_mday from_tm)
             (tm_hour from_tm) (tm_min from_tm) (tm_sec from_tm) of
        None \<Rightarrow> None
      | Some time_from \<Rightarrow>
          let timediff = time_to - time_from;
              daydiff = timediff sdiv SECS_PER_DAY;
              timediff = timediff smod SECS_PER_DAY
          in if daydiff > 2147483647 \<or> daydiff < - 2147483648 then None
          else Some (daydiff, timediff)))"

section \<open>Truncating division on the ranges that occur\<close>

lemma sdiv_nonneg [simp]: "0 \<le> a \<Longrightarrow> 0 < b \<Longrightarrow> (a :: int) sdiv b = a div b"
  by (simp add: signed_divide_int_def sgn_if)

lemma smod_nonneg [simp]: "0 \<le> a \<Longrightarrow> 0 < b \<Longrightarrow> (a :: int) smod b = a mod b"
  by (simp add: signed_modulo_int_def sgn_if)

text \<open>The idiom for a floor division: \<open>(x >= 0 ? x : x - (n - 1)) / n\<close>.\<close>

lemma floor_idiom:
  assumes "0 < n"
  shows "(if x \<ge> 0 then x else x - (n - 1)) sdiv n = x div (n :: int)"
proof (cases "0 \<le> x")
  case False
  then have "(x - (n - 1)) sdiv n = - ((n - 1 - x) div n)"
    using assms by (simp add: signed_divide_int_def sgn_if algebra_simps)
  also have "(n - 1 - x) div n = - (x div n)"
  proof (rule int_div_pos_eq)
    show "n - 1 - x = n * (- (x div n)) + (n - 1 - x mod n)"
      by (simp add: algebra_simps)
    show "0 \<le> n - 1 - x mod n" "n - 1 - x mod n < n"
      using assms pos_mod_bound [of n x] pos_mod_sign [of n x] by linarith+
  qed
  finally show ?thesis using False by simp
qed (use assms in simp)

section \<open>Years of an era\<close>

text \<open>
  The first day of year \<open>y\<close> of a 400-year era that starts on 1 March, and the day after its last.
\<close>

definition year_start :: "int \<Rightarrow> int" where
  "year_start y = 365 * y + y div 4 - y div 100"

definition year_end :: "int \<Rightarrow> int" where
  "year_end y = year_start (y + 1) + (if y = 399 then 1 else 0)"

definition year_quot :: "int \<Rightarrow> int" where
  "year_quot doe = doe - doe div 1460 + doe div 36524 - doe div 146096"

lemma all_upto: "list_all P [i..j] \<longleftrightarrow> (\<forall>x. i \<le> x \<and> x \<le> j \<longrightarrow> P x)"
  by (auto simp: list_all_iff)

lemma year_quot_ends:
  "list_all (\<lambda>y. year_quot (year_start y) div 365 = y \<and> year_quot (year_end y - 1) div 365 = y) [0..399]"
  by code_simp

lemma div_step: "0 < n \<Longrightarrow> (x + 1) div n = x div n + (if (x + 1) mod n = 0 then 1 else 0)" for n x :: int
proof -
  assume n: "0 < n"
  have x: "x = n * (x div n) + x mod n" "0 \<le> x mod n" "x mod n < n"
    using n by simp_all
  show ?thesis
  proof (cases "x mod n = n - 1")
    case True
    have "x + 1 = n * (x div n + 1)"
      using x(1) True by (simp add: distrib_left)
    then have "(x + 1) div n = x div n + 1" "(x + 1) mod n = 0"
      using n by simp_all
    then show ?thesis by simp
  next
    case False
    have eq: "x + 1 = n * (x div n) + (x mod n + 1)"
      using x(1) by linarith
    have "0 \<le> x mod n + 1" "x mod n + 1 < n"
      using x(2,3) False by linarith+
    from int_div_pos_eq [OF eq this] int_mod_pos_eq [OF eq this] x(2) show ?thesis
      by simp
  qed
qed

lemma year_quot_step: "year_quot x \<le> year_quot (x + 1)"
proof -
  have "(x + 1) mod 146096 mod 36524 = (x + 1) mod 36524"
    by (rule mod_mod_cancel) simp
  then have *: "(x + 1) mod 146096 = 0 \<Longrightarrow> (x + 1) mod 36524 = 0"
    by auto
  have "(x + 1) div 1460 \<le> x div 1460 + 1"
    by (simp only: div_step [of 1460 x]) simp
  moreover have "(x + 1) div 146096 - x div 146096 \<le> (x + 1) div 36524 - x div 36524"
    using * by (simp only: div_step [of 36524 x] div_step [of 146096 x]) simp
  ultimately show ?thesis
    unfolding year_quot_def by linarith
qed

lemma year_quot_mono: "x \<le> y \<Longrightarrow> year_quot x \<le> year_quot y"
proof (induction y rule: int_ge_induct)
  case (step y)
  with year_quot_step [of y] show ?case by linarith
qed simp

text \<open>The formula for the year finds the year of every day of the era.\<close>

lemma year_of_era:
  assumes "0 \<le> y" "y \<le> 399" "year_start y \<le> doe" "doe < year_end y"
  shows "year_quot doe div 365 = y"
proof -
  have ends: "year_quot (year_start y) div 365 = y" "year_quot (year_end y - 1) div 365 = y"
    using year_quot_ends assms(1,2) by (simp_all add: all_upto)
  have "year_quot (year_start y) \<le> year_quot doe" "year_quot doe \<le> year_quot (year_end y - 1)"
    using assms by (simp_all add: year_quot_mono)
  then have "year_quot (year_start y) div 365 \<le> year_quot doe div 365"
    "year_quot doe div 365 \<le> year_quot (year_end y - 1) div 365"
    by (simp_all add: zdiv_mono1)
  with ends show ?thesis by linarith
qed

lemma year_end_start: "y < 399 \<Longrightarrow> year_end y = year_start (y + 1)"
  by (simp add: year_end_def)

lemma year_exists:
  assumes "0 \<le> doe" "doe < 146097"
  shows "\<exists>y. 0 \<le> y \<and> y \<le> 399 \<and> year_start y \<le> doe \<and> doe < year_end y"
proof -
  have "doe < year_end y \<Longrightarrow> y \<le> 399 \<Longrightarrow> \<exists>y. 0 \<le> y \<and> y \<le> 399 \<and> year_start y \<le> doe \<and> doe < year_end y"
    if "0 \<le> y" for y
    using that
  proof (induction y rule: int_ge_induct)
    case base
    with assms show ?case
      by (intro exI [of _ 0]) (simp add: year_start_def)
  next
    case (step y)
    show ?case
    proof (cases "doe < year_end y")
      case True
      with step show ?thesis by simp
    next
      case False
      with step show ?thesis
        by (intro exI [of _ "y + 1"]) (simp add: year_end_start)
    qed
  qed
  from this [of 399] assms show ?thesis
    by (simp add: year_end_def year_start_def)
qed

section \<open>Months of a year that starts in March\<close>

definition month_start :: "int \<Rightarrow> int" where
  "month_start m = (153 * m + 2) div 5"

text \<open>The length of month \<open>m\<close>, counted from March; February (11) has a day more in a leap year.\<close>

definition month_length :: "bool \<Rightarrow> int \<Rightarrow> int" where
  "month_length leap m = (if m = 11 then (if leap then 29 else 28) else month_start (m + 1) - month_start m)"

lemma month_of_doy:
  "list_all (\<lambda>doy. let m = (5 * doy + 2) div 153 in 0 \<le> m \<and> m \<le> 11 \<and> month_start m \<le> doy \<and>
     doy - month_start m < month_length True m \<and> (doy < 365 \<longrightarrow> doy - month_start m < month_length False m)) [0..365]"
  by code_simp

lemma month_of_day:
  "list_all (\<lambda>m. list_all (\<lambda>d. (5 * (month_start m + d - 1) + 2) div 153 = m \<and>
      month_start m + d - 1 \<le> 365 \<and> (d \<le> month_length False m \<longrightarrow> month_start m + d - 1 \<le> 364))
     [1..month_length True m]) [0..11]"
  by code_simp

end
