(* ===== verification/Posix_Time_Correct.thy ===== *)
theory Posix_Time_Correct
  imports Posix_Time
begin

text \<open>
  The correctness of \<open>crypto/asn1/posix_time.c\<close>: both conversions go through the number of days since
  1 March 0000 (\<open>day_number\<close> and its inverse \<open>civil\<close>), which counts days by the Gregorian calendar.
\<close>

section \<open>Dates in years that start in March\<close>

definition leap_year :: "int \<Rightarrow> bool" where
  "leap_year y \<longleftrightarrow> (y mod 4 = 0 \<and> y mod 100 \<noteq> 0) \<or> y mod 400 = 0"

text \<open>The month counted from March, and the year that starts in that March.\<close>

definition march_month :: "int \<Rightarrow> int" where
  "march_month month = (if month > 2 then month - 3 else month + 9)"

definition march_year :: "int \<Rightarrow> int \<Rightarrow> int" where
  "march_year year month = (if month \<le> 2 then year - 1 else year)"

text \<open>Days since 1 March 0000, and seconds since the epoch.\<close>

definition day_number :: "int \<Rightarrow> int \<Rightarrow> int \<Rightarrow> int" where
  "day_number year month day =
     march_year year month div 400 * 146097 + year_start (march_year year month mod 400) +
     month_start (march_month month) + day - 1"

definition seconds :: "int \<Rightarrow> int \<Rightarrow> int \<Rightarrow> int \<Rightarrow> int" where
  "seconds days hours minutes secs = (days - 719468) * 86400 + hours * 3600 + minutes * 60 + secs"

lemma leap_year_era: "leap_year (400 * era + y) = leap_year y"
proof -
  have "(400 * era + y) mod k = y mod k" if "k dvd 400" for k
    using that by (metis dvd_mult2 mod_add_left_eq mod_0_imp_dvd dvd_imp_mod_0 add_0)
  then show ?thesis
    by (simp add: leap_year_def)
qed

lemma year_length:
  "list_all (\<lambda>y. year_end y - year_start y = (if leap_year (y + 1) then 366 else 365)) [0..399]"
  by code_simp

lemma is_valid_date_iff:
  "is_valid_date year month day \<longleftrightarrow> 0 \<le> year \<and> year \<le> 9999 \<and> 1 \<le> month \<and> month \<le> 12 \<and>
     1 \<le> day \<and> day \<le> month_length (leap_year year) (march_month month)"
proof (cases "1 \<le> month \<and> month \<le> 12 \<and> 0 \<le> year")
  case True
  then have m: "month \<in> {1, 2, 3, 4, 5, 6, 7, 8, 9, 10, 11, 12}"
    by (simp only: insert_iff empty_iff) presburger
  have "year smod 4 = year mod 4" "year smod 100 = year mod 100" "year smod 400 = year mod 400"
    using True by simp_all
  with True m show ?thesis
    by (elim insertE) (auto simp: is_valid_date_def month_length_def march_month_def month_start_def leap_year_def)
next
  case False
  then show ?thesis
    by (auto simp: is_valid_date_def)
qed

lemma floor_lits: "(0 :: int) < 400 \<longleftrightarrow> True" "(400 :: int) - 1 = 399" "(0 :: int) < 146097 \<longleftrightarrow> True"
    "(146097 :: int) - 1 = 146096"
  by simp_all

lemma floor_idiom_pos: "0 < n \<Longrightarrow> (if x > 0 then x else x - (n - 1)) sdiv n = x div (n :: int)"
  using floor_idiom [of n x] floor_idiom [of n 0]
  by (cases "x = 0") (simp_all add: order_less_le signed_divide_int_def sgn_if)

lemma posix_time_from_utc_eq:
  assumes "is_valid_date year month day" "is_valid_time h m s"
  shows "posix_time_from_utc year month day h m s = Some (seconds (day_number year month day) h m s)"
proof -
  let ?y = "march_year year month"
  have v: "0 \<le> year" "1 \<le> month" "month \<le> 12"
    using assms(1) by (simp_all add: is_valid_date_iff)
  have era: "(if ?y \<ge> 0 then ?y else ?y - 399) sdiv 400 = ?y div 400"
    by (rule floor_idiom [of 400 ?y, unfolded floor_lits, OF TrueI])
  have yoe: "?y - ?y div 400 * 400 = ?y mod 400"
    by (rule minus_div_mult_eq_mod)
  have start: "?y mod 400 * 365 + ?y mod 400 sdiv 4 - ?y mod 400 sdiv 100 = year_start (?y mod 400)"
    by (simp add: year_start_def)
  have doy: "(153 * march_month month + 2) sdiv 5 = month_start (march_month month)"
    using v by (simp add: month_start_def march_month_def)
  have "posix_time_from_utc year month day h m s =
      (let era = (if ?y \<ge> 0 then ?y else ?y - 399) sdiv 400; yoe = ?y - era * 400;
           doy = (153 * march_month month + 2) sdiv 5 + day - 1;
           doe = yoe * 365 + yoe sdiv 4 - yoe sdiv 100 + doy
       in Some ((era * 146097 + doe - 719468) * SECS_PER_DAY + h * SECS_PER_HOUR + m * 60 + s))"
    using assms by (simp add: posix_time_from_utc_def march_year_def march_month_def Let_def)
  also have "\<dots> = Some (seconds (day_number year month day) h m s)"
    unfolding Let_def era yoe start doy
    by (simp add: seconds_def day_number_def SECS_PER_DAY_def SECS_PER_HOUR_def add.assoc)
  finally show ?thesis .
qed

text \<open>The other direction, on a number of days since 1 March 0000.\<close>

definition civil :: "int \<Rightarrow> int \<times> int \<times> int" where
  "civil days =
     (let era = days div 146097; doe = days mod 146097; yoe = year_quot doe div 365;
          doy = doe - year_start yoe; m = (5 * doy + 2) div 153;
          month = (if m < 10 then m + 3 else m - 9)
      in (yoe + era * 400 + (if month \<le> 2 then 1 else 0), month, doy - month_start m + 1))"

lemma civil_cases:
  obtains yoe doy m where
    "0 \<le> yoe" "yoe \<le> 399" "0 \<le> doy" "doy \<le> 365" "0 \<le> m" "m \<le> 11"
    "days mod 146097 = year_start yoe + doy" "doy = 365 \<Longrightarrow> leap_year (yoe + 1)"
    "month_start m \<le> doy" "doy - month_start m < month_length (leap_year (yoe + 1)) m"
    "civil days = (yoe + days div 146097 * 400 + (if 10 \<le> m then 1 else 0), if m < 10 then m + 3 else m - 9,
      doy - month_start m + 1)"
    "year_quot (days mod 146097) div 365 = yoe" "m = (5 * doy + 2) div 153"
proof -
  let ?doe = "days mod 146097"
  obtain yoe where yoe: "0 \<le> yoe" "yoe \<le> 399" "year_start yoe \<le> ?doe" "?doe < year_end yoe"
    using year_exists [of ?doe] by auto
  have quot: "year_quot ?doe div 365 = yoe"
    by (rule year_of_era [OF yoe])
  define doy where "doy = ?doe - year_start yoe"
  define m where "m = (5 * doy + 2) div 153"
  have len: "year_end yoe - year_start yoe = (if leap_year (yoe + 1) then 366 else 365)"
    using year_length yoe by (simp add: all_upto)
  have doy: "0 \<le> doy" "doy \<le> 365" "doy = 365 \<Longrightarrow> leap_year (yoe + 1)"
    using yoe len by (auto simp: doy_def split: if_splits)
  have m: "0 \<le> m" "m \<le> 11" "month_start m \<le> doy" "doy - month_start m < month_length True m"
    "doy < 365 \<Longrightarrow> doy - month_start m < month_length False m"
    using month_of_doy doy by (simp_all add: all_upto Let_def m_def)
  have "doy - month_start m < month_length (leap_year (yoe + 1)) m"
    using m(4,5) doy by (cases "doy = 365"; cases "leap_year (yoe + 1)") auto
  moreover have "civil days = (yoe + days div 146097 * 400 + (if 10 \<le> m then 1 else 0),
      if m < 10 then m + 3 else m - 9, doy - month_start m + 1)"
  proof -
    have "(if m < 10 then m + 3 else m - 9) \<le> 2 \<longleftrightarrow> 10 \<le> m"
      using m(1,2) by simp
    then show ?thesis
      unfolding civil_def Let_def quot doy_def [symmetric] m_def [symmetric] by (simp only:)
  qed
  moreover have "?doe = year_start yoe + doy"
    by (simp add: doy_def)
  ultimately show thesis
    by (intro that [OF yoe(1,2) doy(1,2) m(1,2) _ doy(3) m(3) _ _ quot m_def])
qed

text \<open>Truncating division followed by a correction is a floor division.\<close>

lemma sdiv_correction:
  assumes "0 < n"
  shows "(if t smod n < 0 then (t sdiv n - 1, t smod n + n) else (t sdiv n, t smod n)) = (t div n, t mod (n :: int))"
proof (cases "0 \<le> t")
  case False
  then have s: "t sdiv n = - ((- t) div n)" "t smod n = - ((- t) mod n)"
    using assms by (simp_all add: signed_divide_int_def signed_modulo_int_def sgn_if)
  show ?thesis
  proof (cases "(- t) mod n = 0")
    case True
    then have "t = n * (t sdiv n)"
      using s(1) mult_div_mod_eq [of n "- t"] by simp
    with s True assms show ?thesis
      by (metis add.inverse_neutral less_irrefl mod_mult_self1_is_0 nonzero_mult_div_cancel_left)
  next
    case False
    then have "0 < (- t) mod n" "(- t) mod n < n"
      using assms pos_mod_sign [of n "- t"] by (simp_all add: le_less)
    moreover have "t = n * (t sdiv n - 1) + (t smod n + n)"
      unfolding s using mult_div_mod_eq [of n "- t"] by (simp add: algebra_simps)
    ultimately have "t div n = t sdiv n - 1" "t mod n = t smod n + n"
      using s(2) int_div_pos_eq [of t n "t sdiv n - 1" "t smod n + n"]
        int_mod_pos_eq [of t n "t sdiv n - 1" "t smod n + n"] by simp_all
    with s(2) \<open>0 < (- t) mod n\<close> show ?thesis by simp
  qed
qed (use assms in \<open>simp add: not_less\<close>)

lemma year_quot_C:
  assumes "0 \<le> doe"
  shows "(doe - doe sdiv 1460 + doe sdiv 36524 - doe sdiv 146096) sdiv 365 = year_quot doe div 365"
proof -
  have "doe sdiv 1460 = doe div 1460" "doe sdiv 36524 = doe div 36524" "doe sdiv 146096 = doe div 146096"
    using assms by (simp_all only: sdiv_nonneg zero_less_numeral)
  moreover have "0 \<le> year_quot doe"
    using year_quot_mono [OF assms] by (simp add: year_quot_def)
  ultimately show ?thesis
    by (simp only: year_quot_def sdiv_nonneg zero_less_numeral)
qed

lemma utc_from_posix_time_eq:
  assumes "is_valid_epoch_time t"
  shows "utc_from_posix_time t =
    (case civil (t div 86400 + 719468) of (year, month, day) \<Rightarrow>
      Some (year, month, day, t mod 86400 div 3600, t mod 86400 mod 3600 div 60, t mod 86400 mod 3600 mod 60))"
proof -
  let ?days = "t div 86400 + 719468" and ?secs = "t mod 86400"
  obtain yoe doy m where c: "0 \<le> yoe" "yoe \<le> 399" "0 \<le> doy" "0 \<le> m" "m \<le> 11"
    "?days mod 146097 = year_start yoe + doy" 
    "civil ?days = (yoe + ?days div 146097 * 400 + (if 10 \<le> m then 1 else 0),
       if m < 10 then m + 3 else m - 9, doy - month_start m + 1)"
    "year_quot (?days mod 146097) div 365 = yoe" "m = (5 * doy + 2) div 153"
    by (rule civil_cases [of ?days])
  have era: "(if ?days > 0 then ?days else ?days - 146096) sdiv 146097 = ?days div 146097"
    by (rule floor_idiom_pos [of 146097 ?days, unfolded floor_lits, OF TrueI])
  have doe: "?days - ?days div 146097 * 146097 = ?days mod 146097"
    by (rule minus_div_mult_eq_mod)
  have yoe: "(?days mod 146097 - ?days mod 146097 sdiv 1460 + ?days mod 146097 sdiv 36524 -
      ?days mod 146097 sdiv 146096) sdiv 365 = yoe"
    using year_quot_C [of "?days mod 146097"] c(8) by simp
  have doy: "?days mod 146097 - (365 * yoe + yoe sdiv 4 - yoe sdiv 100) = doy"
    using c(1,6) by (simp only: year_start_def sdiv_nonneg zero_less_numeral)
  have m: "(5 * doy + 2) sdiv 153 = m"
    using c(3,9) by simp
  have start: "(153 * m + 2) sdiv 5 = month_start m"
    using c(4) by (simp add: month_start_def)
  have secs: "?secs sdiv 3600 = ?secs div 3600" "?secs smod 3600 = ?secs mod 3600"
    "?secs mod 3600 sdiv 60 = ?secs mod 3600 div 60" "?secs mod 3600 smod 60 = ?secs mod 3600 mod 60"
    by simp_all
  have lits: "SECS_PER_DAY = 86400" "SECS_PER_HOUR = 3600"
    by (simp_all add: SECS_PER_DAY_def SECS_PER_HOUR_def)
  have month: "(if m < 10 then m + 3 else m - 9) \<le> 2 \<longleftrightarrow> 10 \<le> m"
    using c(4,5) by simp
  have "utc_from_posix_time t =
      Some (if 10 \<le> m then yoe + ?days div 146097 * 400 + 1 else yoe + ?days div 146097 * 400,
        if m < 10 then m + 3 else m - 9, doy - month_start m + 1, ?secs div 3600,
        ?secs mod 3600 div 60, ?secs mod 3600 mod 60)"
    unfolding utc_from_posix_time_def Let_def lits sdiv_correction [of 86400 t, OF zero_less_numeral] prod.case
      era doe yoe doy m start month secs using assms by (simp only: if_False not_True_eq_False)
  then show ?thesis
    unfolding c(7) prod.case by (simp only: if_distrib [of "(+) _"] add_0_right)
qed

text \<open>Both directions agree on every day, without any bound on the year.\<close>

definition valid_day :: "int \<Rightarrow> int \<Rightarrow> int \<Rightarrow> bool" where
  "valid_day year month day \<longleftrightarrow>
     1 \<le> month \<and> month \<le> 12 \<and> 1 \<le> day \<and> day \<le> month_length (leap_year year) (march_month month)"

lemma leap_year_march:
  "leap_year (yoe + era * 400 + 1) = leap_year (yoe + 1)"
  using leap_year_era [of era "yoe + 1"] by (simp add: algebra_simps)

lemma day_number_civil:
  assumes "civil days = (year, month, day)"
  shows "valid_day year month day \<and> day_number year month day = days"
proof -
  obtain yoe doy m where c: "0 \<le> yoe" "yoe \<le> 399" "0 \<le> doy" "0 \<le> m" "m \<le> 11"
    "days mod 146097 = year_start yoe + doy" "month_start m \<le> doy"
    "doy - month_start m < month_length (leap_year (yoe + 1)) m"
    "civil days = (yoe + days div 146097 * 400 + (if 10 \<le> m then 1 else 0),
       if m < 10 then m + 3 else m - 9, doy - month_start m + 1)"
    by (rule civil_cases [of days])
  let ?era = "days div 146097"
  have v: "year = yoe + ?era * 400 + (if 10 \<le> m then 1 else 0)" "month = (if m < 10 then m + 3 else m - 9)"
    "day = doy - month_start m + 1"
    using assms c(9) by simp_all
  have m: "march_month month = m"
    using c(4,5) v(2) by (simp add: march_month_def)
  have y: "march_year year month = yoe + ?era * 400"
    using c(4,5) v by (simp add: march_year_def)
  have "day \<le> month_length (leap_year year) m"
  proof (cases "m = 11")
    case True
    then have "leap_year year = leap_year (yoe + 1)"
      using leap_year_march v(1) by simp
    with c(8) v(3) show ?thesis by simp
  next
    case False
    with c(8) v(3) show ?thesis by (simp add: month_length_def)
  qed
  moreover have "day_number year month day = days"
    unfolding day_number_def m y using c(1,2,6) v(3) mult_div_mod_eq [of 146097 days] by simp
  ultimately show ?thesis
    unfolding valid_day_def m using c(4,5,7) v by (simp split: if_splits)
qed

lemma valid_day_of_year:
  assumes "valid_day year month day"
  defines "m \<equiv> march_month month" and "yoe \<equiv> march_year year month mod 400"
  defines "doy \<equiv> month_start m + day - 1"
  shows "0 \<le> m" "m \<le> 11" "0 \<le> doy" "(5 * doy + 2) div 153 = m" "year_start yoe + doy < year_end yoe"
proof -
  let ?y = "march_year year month"
  show m: "0 \<le> m" "m \<le> 11"
    using assms(1) by (auto simp: m_def valid_day_def march_month_def)
  have leap: "m = 11 \<Longrightarrow> leap_year (yoe + 1) = leap_year year"
    using leap_year_march [of yoe "?y div 400"]
      assms(1) by (simp add: yoe_def m_def march_month_def march_year_def valid_day_def split: if_splits)
  have d: "1 \<le> day" "day \<le> month_length (leap_year (yoe + 1)) m"
    using assms(1) leap by (auto simp: valid_day_def m_def [symmetric] month_length_def)
  then have "day \<le> month_length True m"
    by (auto simp: month_length_def split: if_splits)
  with month_of_day m d have *: "(5 * doy + 2) div 153 = m" "doy \<le> 365"
      "day \<le> month_length False m \<longrightarrow> doy \<le> 364"
    by (simp_all add: all_upto doy_def)
  then show "(5 * doy + 2) div 153 = m" by simp
  have "0 \<le> month_start m"
    using m by (simp add: month_start_def)
  with d show "0 \<le> doy" by (simp add: doy_def)
  have "\<not> leap_year (yoe + 1) \<Longrightarrow> doy \<le> 364"
    using d *(3) by simp
  moreover have "year_end yoe - year_start yoe = (if leap_year (yoe + 1) then 366 else 365)"
    using year_length pos_mod_bound [of 400 ?y] by (simp add: all_upto yoe_def)
  ultimately show "year_start yoe + doy < year_end yoe"
    using *(2) by (simp split: if_splits)
qed

lemma day_number_split:
  assumes "valid_day year month day"
  shows "day_number year month day mod 146097 =
      year_start (march_year year month mod 400) + (month_start (march_month month) + day - 1)"
    and "day_number year month day div 146097 = march_year year month div 400"
proof -
  let ?y = "march_year year month" and ?doy = "month_start (march_month month) + day - 1"
  note doy = valid_day_of_year [OF assms]
  have y: "0 \<le> ?y mod 400" "?y mod 400 \<le> 399"
    using pos_mod_bound [of 400 ?y] by simp_all
  have eq: "day_number year month day = 146097 * (?y div 400) + (year_start (?y mod 400) + ?doy)"
    by (simp add: day_number_def)
  have "0 \<le> year_start (?y mod 400)"
    using y by (simp add: year_start_def)
  then have lo: "0 \<le> year_start (?y mod 400) + ?doy"
    using doy(3) by simp
  have "list_all (\<lambda>y. year_end y \<le> 146097) [0..399]"
    by code_simp
  then have hi: "year_start (?y mod 400) + ?doy < 146097"
    using doy(5) y unfolding all_upto by (metis order_less_le_trans)
  show "day_number year month day mod 146097 = year_start (?y mod 400) + ?doy"
    by (rule int_mod_pos_eq [OF eq lo hi])
  show "day_number year month day div 146097 = ?y div 400"
    by (rule int_div_pos_eq [OF eq lo hi])
qed

lemma civil_day_number:
  assumes "valid_day year month day"
  shows "civil (day_number year month day) = (year, month, day)"
proof -
  let ?y = "march_year year month" and ?m = "march_month month"
  let ?doy = "month_start ?m + day - 1"
  note doy = valid_day_of_year [OF assms]
  have y: "0 \<le> ?y mod 400" "?y mod 400 \<le> 399"
    using pos_mod_bound [of 400 ?y] by simp_all
  have quot: "year_quot (year_start (?y mod 400) + ?doy) div 365 = ?y mod 400"
    using doy(3,5) by (intro year_of_era [OF y]) simp_all
  have rest: "year_start (?y mod 400) + ?doy - year_start (?y mod 400) = ?doy"
    by simp
  have month: "(if ?m < 10 then ?m + 3 else ?m - 9) = month"
    using assms by (auto simp: march_month_def valid_day_def)
  have "civil (day_number year month day) =
      (?y mod 400 + ?y div 400 * 400 + (if month \<le> 2 then 1 else 0), month, ?doy - month_start ?m + 1)"
    unfolding civil_def Let_def day_number_split [OF assms] quot rest doy(4) month by (rule refl)
  also have "?y mod 400 + ?y div 400 * 400 = ?y"
    by simp
  finally show ?thesis
    by (simp add: march_year_def)
qed

text \<open>The years 0000 to 9999 are the days of the range that \<open>is_valid_epoch_time\<close> allows.\<close>

lemma le_div: "0 < n \<Longrightarrow> k \<le> t div n \<longleftrightarrow> k * n \<le> (t :: int)"
proof
  assume n: "0 < n"
  have t: "t div n * n \<le> t"
    using minus_mod_eq_div_mult [of t n] pos_mod_sign [OF n, of t] by linarith
  show "k * n \<le> t" if "k \<le> t div n"
    using mult_right_mono [OF that, of n] n t by linarith
  show "k \<le> t div n" if "k * n \<le> t"
    using zdiv_mono1 [OF that n] n by simp
qed

lemma late_day: "306 \<le> x \<longleftrightarrow> 10 * 153 \<le> 5 * x + (2 :: int)"
  by presburger

lemma is_valid_time_iff: "is_valid_time h m s \<longleftrightarrow> 0 \<le> h \<and> h < 24 \<and> 0 \<le> m \<and> m < 60 \<and> 0 \<le> s \<and> s < 60"
  by (auto simp: is_valid_time_def)

lemma year_start_mono: "x \<le> y \<Longrightarrow> year_start x \<le> year_start y"
proof (induction y rule: int_ge_induct)
  case (step y)
  have "(y + 1) div 100 \<le> y div 100 + 1" "y div 4 \<le> (y + 1) div 4"
    by (simp add: div_step) (simp add: zdiv_mono1)
  with step show ?case
    unfolding year_start_def by (simp add: distrib_left)
qed simp

lemma range_late:
  assumes "dn = 146097 * era + r" "146037 \<le> r" "r < 146097" "year = 400 * (era + 1)"
  shows "0 \<le> year \<and> year \<le> 9999 \<longleftrightarrow> - 60 \<le> dn \<and> dn \<le> (3652364 :: int)"
  using assms by auto

lemma range_early:
  assumes "dn = 146097 * era + r" "0 \<le> r" "r < 146037" "400 * era \<le> year" "year \<le> 400 * era + 399"
  shows "0 \<le> year \<and> year \<le> 9999 \<longleftrightarrow> - 60 \<le> dn \<and> dn \<le> (3652364 :: int)"
proof -
  have "0 \<le> era" if "- 60 \<le> dn" using that assms by linarith
  moreover have "- 60 \<le> dn" if "0 \<le> era" using that assms by linarith
  moreover have "0 \<le> era" if "0 \<le> year" using that assms by linarith
  moreover have "0 \<le> year" if "0 \<le> era" using that assms by linarith
  moreover have "era \<le> 24" if "dn \<le> 3652364" using that assms by linarith
  moreover have "dn \<le> 3652364" if "era \<le> 24" using that assms by linarith
  moreover have "era \<le> 24" if "year \<le> 9999" using that assms by linarith
  moreover have "year \<le> 9999" if "era \<le> 24" using that assms by linarith
  ultimately show ?thesis by blast
qed

lemma year_bounds:
  "year = e + y + (if b then 1 else 0) \<Longrightarrow> 0 \<le> y \<Longrightarrow> y \<le> 399 \<Longrightarrow> \<not> (y = 399 \<and> b) \<Longrightarrow>
   e \<le> year \<and> year \<le> e + (399 :: int)"
  by auto

lemma date_range:
  assumes "valid_day year month day"
  shows "0 \<le> year \<and> year \<le> 9999 \<longleftrightarrow>
    - 60 \<le> day_number year month day \<and> day_number year month day \<le> 3652364"
proof -
  let ?y = "march_year year month" and ?m = "march_month month" and ?dn = "day_number year month day"
  let ?doy = "month_start ?m + day - 1"
  note doy = valid_day_of_year [OF assms]
  note split = day_number_split [OF assms]
  let ?E = "?y div 400" and ?Y = "?y mod 400"
  have Y: "0 \<le> ?Y" "?Y \<le> 399"
    using pos_mod_bound [of 400 ?y] by simp_all
  have late: "146037 \<le> ?dn mod 146097 \<longleftrightarrow> ?Y = 399 \<and> 10 \<le> ?m"
  proof (cases "?Y = 399")
    case True
    have "306 \<le> ?doy \<longleftrightarrow> 10 \<le> ?m"
      using le_div [of 153 10 "5 * ?doy + 2", unfolded doy(4), OF zero_less_numeral]
        late_day [of ?doy] by blast
    moreover have "146037 \<le> year_start 399 + x \<longleftrightarrow> 306 \<le> x" for x
      by (auto simp: year_start_def)
    ultimately show ?thesis
      unfolding split True by blast
  next
    case False
    then have "year_end ?Y \<le> year_start 399"
      using Y year_start_mono [of "?Y + 1" 399] by (simp add: year_end_start)
    with doy(5) False show ?thesis
      unfolding split by (simp add: year_start_def)
  qed
  have dn: "?dn = 146097 * ?E + ?dn mod 146097"
    using mult_div_mod_eq [of 146097 ?dn] split(2) by simp
  have "year = ?y + (if 10 \<le> ?m then 1 else 0)"
    using assms by (auto simp: march_year_def march_month_def valid_day_def)
  then have year: "year = 400 * ?E + ?Y + (if 10 \<le> ?m then 1 else 0)"
    by simp
  have r: "0 \<le> ?dn mod 146097" "?dn mod 146097 < 146097"
    by simp_all
  show ?thesis
  proof (cases "?Y = 399 \<and> 10 \<le> ?m")
    case True
    then have D: "146037 \<le> ?dn mod 146097" "year = 400 * (?E + 1)"
      "?dn = 146097 * ?E + ?dn mod 146097" "?dn mod 146097 < 146097"
      using late year dn r by simp_all
    show ?thesis
      by (rule range_late [OF D(3,1,4,2)])
  next
    case False
    have D: "?dn mod 146097 < 146037"
      unfolding not_le [symmetric] late by (rule False)
    have "400 * ?E \<le> year \<and> year \<le> 400 * ?E + 399"
      by (rule year_bounds [OF year Y False])
    then have E: "400 * ?E \<le> year" "year \<le> 400 * ?E + 399"
      by blast+
    show ?thesis
      by (rule range_early [OF dn r(1) D E])
  qed
qed

lemma is_valid_date_day: "is_valid_date year month day \<longleftrightarrow> 0 \<le> year \<and> year \<le> 9999 \<and> valid_day year month day"
  by (auto simp: is_valid_date_iff valid_day_def)

lemma epoch_days: "is_valid_epoch_time t \<longleftrightarrow> - 60 \<le> t div 86400 + 719468 \<and> t div 86400 + 719468 \<le> 3652364"
  using le_div [of 86400 "- 719528" t] le_div [of 86400 2932897 t]
  unfolding is_valid_epoch_time_def by linarith

lemma seconds_split:
  assumes "is_valid_time h m s"
  shows "seconds days h m s div 86400 + 719468 = days" "seconds days h m s mod 86400 div 3600 = h"
    "seconds days h m s mod 86400 mod 3600 div 60 = m" "seconds days h m s mod 86400 mod 3600 mod 60 = s"
proof -
  have v: "0 \<le> h" "h \<le> 23" "0 \<le> m" "m \<le> 59" "0 \<le> s" "s \<le> 59"
    using assms by (auto simp: is_valid_time_def split: if_splits)
  have days: "seconds days h m s = 86400 * (days - 719468) + (h * 3600 + m * 60 + s)"
    by (simp add: seconds_def)
  have hours: "h * 3600 + m * 60 + s = 3600 * h + (m * 60 + s)" and mins: "m * 60 + s = 60 * m + s"
    by simp_all
  note day = int_div_pos_eq [OF days] int_mod_pos_eq [OF days]
  note hour = int_div_pos_eq [OF hours] int_mod_pos_eq [OF hours]
  note minute = int_div_pos_eq [OF mins] int_mod_pos_eq [OF mins]
  show "seconds days h m s div 86400 + 719468 = days" "seconds days h m s mod 86400 div 3600 = h"
    "seconds days h m s mod 86400 mod 3600 div 60 = m" "seconds days h m s mod 86400 mod 3600 mod 60 = s"
    using v by (simp_all add: day hour minute)
qed

lemma seconds_join: "seconds (a + 719468) h m s = a * 86400 + (h * 3600 + (m * 60 + s))"
  by (simp add: seconds_def)

lemma utc_from_posix_time_Some:
  assumes "is_valid_epoch_time t"
  obtains year month day h m s where
    "utc_from_posix_time t = Some (year, month, day, h, m, s)" "is_valid_date year month day"
    "is_valid_time h m s" "posix_time_from_utc year month day h m s = Some t"
proof -
  let ?days = "t div 86400 + 719468"
  obtain year month day where c: "civil ?days = (year, month, day)"
    by (cases "civil ?days")
  have dn: "valid_day year month day" "day_number year month day = ?days"
    using day_number_civil [OF c] by simp_all
  have date: "is_valid_date year month day"
    using date_range [OF dn(1)] assms dn by (simp add: is_valid_date_day epoch_days)
  have time: "is_valid_time (t mod 86400 div 3600) (t mod 86400 mod 3600 div 60) (t mod 86400 mod 3600 mod 60)"
  proof -
    have "t mod 86400 < 24 * 3600" "t mod 86400 mod 3600 < 60 * 60"
      using pos_mod_bound [of 86400 t] pos_mod_bound [of 3600 "t mod 86400"] by simp_all
    then have "t mod 86400 div 3600 < 24" "t mod 86400 mod 3600 div 60 < 60"
      using le_div [of 3600 24 "t mod 86400"] le_div [of 60 60 "t mod 86400 mod 3600"]
      by (simp_all only: not_le [symmetric] zero_less_numeral simp_thms)
    moreover have "t mod 86400 mod 3600 mod 60 < 60" "0 \<le> t mod 86400 mod 3600 mod 60"
      by simp_all
    moreover have "0 \<le> t mod 86400 div 3600" "0 \<le> t mod 86400 mod 3600 div 60"
      by (simp_all add: pos_imp_zdiv_nonneg_iff)
    ultimately show ?thesis
      unfolding is_valid_time_iff by blast
  qed
  have "seconds ?days (t mod 86400 div 3600) (t mod 86400 mod 3600 div 60) (t mod 86400 mod 3600 mod 60) = t"
    by (simp only: seconds_join div_mult_mod_eq)
  then have posix: "posix_time_from_utc year month day (t mod 86400 div 3600) (t mod 86400 mod 3600 div 60)
      (t mod 86400 mod 3600 mod 60) = Some t"
    unfolding posix_time_from_utc_eq [OF date time] dn(2) by (rule arg_cong)
  show thesis
    by (rule that [OF _ date time posix]) (unfold utc_from_posix_time_eq [OF assms] c prod.case, rule refl)
qed

lemma posix_time_from_utc_Some:
  assumes "posix_time_from_utc year month day h m s = Some t"
  shows "is_valid_date year month day \<and> is_valid_time h m s \<and> is_valid_epoch_time t \<and>
    utc_from_posix_time t = Some (year, month, day, h, m, s)"
proof -
  have v: "is_valid_date year month day" "is_valid_time h m s"
    using assms unfolding posix_time_from_utc_def by (meson option.distinct(1))+
  then have d: "valid_day year month day"
    by (simp add: is_valid_date_day)
  have t: "t = seconds (day_number year month day) h m s"
    using posix_time_from_utc_eq [OF v] assms by simp
  note split = seconds_split [OF v(2), of "day_number year month day", folded t]
  have e: "is_valid_epoch_time t"
    unfolding epoch_days split(1) using date_range [OF d] v(1) by (simp add: is_valid_date_day)
  show ?thesis
    using v e utc_from_posix_time_eq [OF e] unfolding split civil_day_number [OF d] prod.case by blast
qed

section \<open>The calendar\<close>

text \<open>The day after a date, by the rules of the Gregorian calendar.\<close>

definition days_in_month :: "int \<Rightarrow> int \<Rightarrow> int" where
  "days_in_month year month =
     (if month = 2 then if leap_year year then 29 else 28 else if month \<in> {4, 6, 9, 11} then 30 else 31)"

definition next_day :: "int \<Rightarrow> int \<Rightarrow> int \<Rightarrow> int \<times> int \<times> int" where
  "next_day year month day =
     (if day < days_in_month year month then (year, month, day + 1)
      else if month < 12 then (year, month + 1, 1)
      else (year + 1, 1, 1))"

lemma month_cases:
  assumes "valid_day year month day"
  obtains "month = 1" | "month = 2" | "month = 3" | "month = 4" | "month = 5" | "month = 6" | "month = 7"
    | "month = 8" | "month = 9" | "month = 10" | "month = 11" | "month = 12"
proof -
  have "1 \<le> month" "month \<le> 12"
    using assms by (simp_all add: valid_day_def)
  then have "month = 1 \<or> month = 2 \<or> month = 3 \<or> month = 4 \<or> month = 5 \<or> month = 6 \<or> month = 7 \<or>
      month = 8 \<or> month = 9 \<or> month = 10 \<or> month = 11 \<or> month = 12"
    by presburger
  with that show thesis by blast
qed

lemma days_in_month: "valid_day year month day \<Longrightarrow> month_length (leap_year year) (march_month month) = days_in_month year month"
  by (rule month_cases, assumption)
    (simp_all add: days_in_month_def month_length_def march_month_def month_start_def)

lemma next_year_start:
  "(y + 1) div 400 * 146097 + year_start ((y + 1) mod 400) = y div 400 * 146097 + year_end (y mod 400)"
proof (cases "y mod 400 = 399")
  case True
  have eq: "y + 1 = 400 * (y div 400 + 1) + 0"
    using mult_div_mod_eq [of 400 y] True by simp
  show ?thesis
    using int_div_pos_eq [OF eq] int_mod_pos_eq [OF eq] True by (simp add: year_start_def year_end_def)
next
  case False
  then have "0 \<le> y mod 400 + 1" "y mod 400 + 1 < 400"
    using pos_mod_bound [of 400 y] pos_mod_sign [of 400 y] by simp_all
  moreover have eq: "y + 1 = 400 * (y div 400) + (y mod 400 + 1)"
    using mult_div_mod_eq [of 400 y] by simp
  ultimately have "(y + 1) div 400 = y div 400" "(y + 1) mod 400 = y mod 400 + 1"
    using int_div_pos_eq [OF eq] int_mod_pos_eq [OF eq] by blast+
  with False show ?thesis by (simp add: year_end_def)
qed

lemma day_number_next:
  assumes "valid_day year month day" "next_day year month day = (year', month', day')"
  shows "valid_day year' month' day' \<and> day_number year' month' day' = day_number year month day + 1"
proof (cases "day < days_in_month year month")
  case True
  with assms days_in_month [OF assms(1)] show ?thesis
    by (auto simp: next_day_def valid_day_def day_number_def)
next
  case False
  then have d: "day = days_in_month year month"
    using assms(1) days_in_month [OF assms(1)] by (simp add: valid_day_def)
  show ?thesis
  proof (cases "month = 2")
    case feb: True
    with d assms(2) have n: "year' = year" "month' = 3" "day' = 1"
      by (simp_all add: next_day_def)
    have y: "march_year year 2 = year - 1" "march_year year 3 = year"
      by (simp_all add: march_year_def)
    let ?Y = "(year - 1) mod 400"
    have "year_end ?Y - year_start ?Y = (if leap_year (?Y + 1) then 366 else 365)"
      using year_length pos_mod_bound [of 400 "year - 1"] by (simp add: all_upto)
    moreover have "leap_year (?Y + 1) = leap_year year"
      using leap_year_march [of ?Y "(year - 1) div 400"] by simp
    ultimately have "year_end ?Y = year_start ?Y + month_start 11 + days_in_month year 2"
      by (cases "leap_year year") (simp_all add: days_in_month_def month_start_def)
    then show ?thesis
      unfolding n using d feb next_year_start [of "year - 1"]
      by (simp add: day_number_def y march_month_def valid_day_def month_length_def month_start_def)
  next
    case False
    with d assms show ?thesis
      by - (rule month_cases [OF assms(1)]; auto simp: next_day_def days_in_month_def day_number_def march_year_def march_month_def month_start_def
          valid_day_def month_length_def)
  qed
qed

section \<open>The properties\<close>

text \<open>
  C25: the two conversions are inverse to each other, errors included: \<open>posix_time_from_utc\<close> accepts a
  broken-down time and returns \<open>t\<close> exactly when \<open>utc_from_posix_time\<close> accepts \<open>t\<close> and returns that
  broken-down time.
\<close>

theorem posix_utc_inverse:
  "(posix_time_from_utc year month day h m s = Some t) =
   (utc_from_posix_time t = Some (year, month, day, h, m, s))"
proof
  assume utc: "utc_from_posix_time t = Some (year, month, day, h, m, s)"
  then have "is_valid_epoch_time t"
    unfolding utc_from_posix_time_def by (meson option.distinct(1))
  then show "posix_time_from_utc year month day h m s = Some t"
    by (rule utc_from_posix_time_Some) (simp add: utc)
qed (use posix_time_from_utc_Some in blast)



text \<open>The fields of a \<open>struct tm\<close> that hold the time.\<close>

definition tm_time :: "tm \<Rightarrow> int \<times> int \<times> int \<times> int \<times> int \<times> int" where
  "tm_time tm = (tm_year tm, tm_mon tm, tm_mday tm, tm_hour tm, tm_min tm, tm_sec tm)"

text \<open>
  C33: \<open>OPENSSL_gmtime_adj\<close> by the days and seconds that \<open>OPENSSL_gmtime_diff\<close> returns for two times
  takes the first to the second.
\<close>

theorem gmtime_adj_diff:
  assumes "OPENSSL_gmtime_diff from_tm to_tm = Some (days, secs)"
  shows "\<exists>tm. OPENSSL_gmtime_adj from_tm days secs = Some tm \<and> tm_time tm = tm_time to_tm"
proof -
  let ?posix = "\<lambda>tm. posix_time_from_utc (tm_year tm + 1900) (tm_mon tm + 1) (tm_mday tm) (tm_hour tm) (tm_min tm) (tm_sec tm)"
  obtain t0 t1 where t: "?posix from_tm = Some t0" "?posix to_tm = Some t1"
    "days = (t1 - t0) sdiv SECS_PER_DAY" "secs = (t1 - t0) smod SECS_PER_DAY"
    using assms by (auto simp: OPENSSL_gmtime_diff_def Let_def split: option.splits if_splits)
  have "days * SECS_PER_DAY + secs = t1 - t0"
    unfolding t(3,4) by (rule sdiv_mult_smod_eq)
  then have "t0 + days * SECS_PER_DAY + secs = t1" by simp
  moreover have "utc_from_posix_time t1 =
      Some (tm_year to_tm + 1900, tm_mon to_tm + 1, tm_mday to_tm, tm_hour to_tm, tm_min to_tm, tm_sec to_tm)"
    using posix_time_from_utc_Some [OF t(2)] by blast
  ultimately show ?thesis
    by (simp add: OPENSSL_gmtime_adj_def t(1) set_utc_def tm_time_def)
qed

theorem gmtime_adj_diff_witness:
  "\<exists>tm. OPENSSL_gmtime_adj (zero_tm\<lparr>tm_mday := 1\<rparr>) 0 3600 = Some tm \<and>
     tm_time tm = tm_time (zero_tm\<lparr>tm_mday := 1, tm_hour := 1\<rparr>)"
proof (rule gmtime_adj_diff)
  show "OPENSSL_gmtime_diff (zero_tm\<lparr>tm_mday := 1\<rparr>) (zero_tm\<lparr>tm_mday := 1, tm_hour := 1\<rparr>) = Some (0, 3600)"
    by code_simp
qed

end
