(* ===== verification/Cbs_Time.thy ===== *)
theory Cbs_Time
  imports Posix_Time_Correct
begin

text \<open>
  The parsers of GeneralizedTime and UTCTime at the end of \<open>crypto/bytestring/cbs.c\<close>. A \<open>NULL\<close>
  \<open>out_tm\<close> is \<open>None\<close>; the result is \<open>None\<close> when the function returns 0 and \<open>Some\<close> of what it leaves in
  \<open>*out_tm\<close> otherwise.
\<close>

section \<open>The code\<close>

definition cbs_get_two_digits :: "int reader" where
  "cbs_get_two_digits cbs =
     chk (CBS_get_u8 cbs) (\<lambda>first_digit cbs.
       if \<not> OPENSSL_isdigit (uint first_digit) then (None, cbs)
       else chk (CBS_get_u8 cbs) (\<lambda>second_digit cbs.
         if \<not> OPENSSL_isdigit (uint second_digit) then (None, cbs)
         else (Some ((uint first_digit - 48) * 10 + (uint second_digit - 48)), cbs)))"

definition is_valid_day :: "int \<Rightarrow> int \<Rightarrow> int \<Rightarrow> bool" where
  "is_valid_day year month day \<longleftrightarrow>
     (if day < 1 then False
      else if month \<in> {1, 3, 5, 7, 8, 10, 12} then day \<le> 31
      else if month \<in> {4, 6, 9, 11} then day \<le> 30
      else if month = 2
      then (if (year smod 4 = 0 \<and> year smod 100 \<noteq> 0) \<or> year smod 400 = 0 then day \<le> 29 else day \<le> 28)
      else False)"

definition parse_year :: "bool \<Rightarrow> int reader" where
  "parse_year is_gentime cbs =
     (if is_gentime
      then chk (cbs_get_two_digits cbs) (\<lambda>tmp cbs.
        let year = tmp * 100
        in chk (cbs_get_two_digits cbs) (\<lambda>tmp cbs. (Some (year + tmp), cbs)))
      else chk (cbs_get_two_digits cbs) (\<lambda>tmp cbs.
        let year = 1900 + tmp;
            year = (if year < 1950 then year + 100 else year)
        in if year \<ge> 2050 then (None, cbs) else (Some year, cbs)))"

text \<open>The sign of the offset that \<open>tz\<close> announces.\<close>

definition offset_sign :: "byte \<Rightarrow> int option" where
  "offset_sign tz =
     (if tz = 0x5a then Some 0
      else if tz = 0x2b then Some 1
      else if tz = 0x2d then Some (- 1)
      else None)"

definition parse_offset :: "int \<Rightarrow> bool \<Rightarrow> int reader" where
  "parse_offset sign allow_timezone_offset cbs =
     (if sign \<noteq> 0
      then if \<not> allow_timezone_offset then (None, cbs)
      else chk (cbs_get_two_digits cbs) (\<lambda>offset_hours cbs.
        if offset_hours > 23 then (None, cbs)
        else chk (cbs_get_two_digits cbs) (\<lambda>offset_minutes cbs.
          if offset_minutes > 59 then (None, cbs)
          else (Some (sign * (offset_hours * 3600 + offset_minutes * 60)), cbs)))
      else (Some 0, cbs))"

definition CBS_parse_rfc5280_time_internal :: "CBS \<Rightarrow> bool \<Rightarrow> bool \<Rightarrow> tm option \<Rightarrow> tm option option" where
  "CBS_parse_rfc5280_time_internal cbs is_gentime allow_timezone_offset out_tm = fst (
     chk (parse_year is_gentime cbs) (\<lambda>year copy.
     chk (cbs_get_two_digits copy) (\<lambda>month copy. if month < 1 \<or> month > 12 then (None, copy) else
     chk (cbs_get_two_digits copy) (\<lambda>day copy. if \<not> is_valid_day year month day then (None, copy) else
     chk (cbs_get_two_digits copy) (\<lambda>hour copy. if hour > 23 then (None, copy) else
     chk (cbs_get_two_digits copy) (\<lambda>min copy. if min > 59 then (None, copy) else
     chk (cbs_get_two_digits copy) (\<lambda>sec copy. if sec > 59 then (None, copy) else
     chk (CBS_get_u8 copy) (\<lambda>tz copy.
       case offset_sign tz of None \<Rightarrow> (None, copy) | Some sign \<Rightarrow>
     chk (parse_offset sign allow_timezone_offset copy) (\<lambda>offset_seconds copy.
       if CBS_len copy \<noteq> 0 then (None, copy) else
       case out_tm of None \<Rightarrow> (Some None, copy)
       | Some out_tm \<Rightarrow>
           let out_tm = out_tm\<lparr>tm_year := year - 1900, tm_mon := month - 1, tm_mday := day,
                 tm_hour := hour, tm_min := min, tm_sec := sec\<rparr>
           in if offset_seconds \<noteq> 0
              then (case OPENSSL_gmtime_adj out_tm 0 offset_seconds of
                      None \<Rightarrow> (None, copy) | Some out_tm \<Rightarrow> (Some (Some out_tm), copy))
              else (Some (Some out_tm), copy))))))))))"

definition CBS_parse_generalized_time :: "CBS \<Rightarrow> tm option \<Rightarrow> bool \<Rightarrow> tm option option" where
  "CBS_parse_generalized_time cbs out_tm allow_timezone_offset =
     CBS_parse_rfc5280_time_internal cbs True allow_timezone_offset out_tm"

definition CBS_parse_utc_time :: "CBS \<Rightarrow> tm option \<Rightarrow> bool \<Rightarrow> tm option option" where
  "CBS_parse_utc_time cbs out_tm allow_timezone_offset =
     CBS_parse_rfc5280_time_internal cbs False allow_timezone_offset out_tm"

section \<open>Two digits\<close>

definition digit :: "int \<Rightarrow> byte" where
  "digit n = word_of_int (48 + n)"

definition two_digits :: "int \<Rightarrow> bytes" where
  "two_digits n = [digit (n div 10), digit (n mod 10)]"

lemma uint_digit: "0 \<le> n \<Longrightarrow> n \<le> 9 \<Longrightarrow> uint (digit n) = 48 + n"
  unfolding digit_def by (subst uint_word_of_int_eq) (simp add: take_bit_int_eq_self)

lemma digit_uint: "digit (uint c - 48) = c"
  by (simp add: digit_def)

lemma two_digits_Some:
  "cbs_get_two_digits cbs = (Some v, rest) \<longleftrightarrow> (0 \<le> v \<and> v \<le> 99) \<and> cbs = two_digits v @ rest"
proof
  assume "cbs_get_two_digits cbs = (Some v, rest)"
  then obtain a b where ab: "cbs = a # b # rest" "OPENSSL_isdigit (uint a)" "OPENSSL_isdigit (uint b)"
    "v = (uint a - 48) * 10 + (uint b - 48)"
    by (auto simp: cbs_get_two_digits_def chk_Some_iff CBS_get_u8_Some split: if_splits)
  have "v div 10 = uint a - 48" "v mod 10 = uint b - 48"
    by (rule int_div_pos_eq [of _ _ _ "uint b - 48"] int_mod_pos_eq [of _ _ "uint a - 48"];
        use ab in \<open>simp add: OPENSSL_isdigit_def\<close>)+
  moreover have "0 \<le> v" "v \<le> 99"
    using ab by (simp_all add: OPENSSL_isdigit_def)
  ultimately show "(0 \<le> v \<and> v \<le> 99) \<and> cbs = two_digits v @ rest"
    using ab(1) by (simp add: two_digits_def digit_uint)
next
  assume v: "(0 \<le> v \<and> v \<le> 99) \<and> cbs = two_digits v @ rest"
  then have "0 \<le> v div 10" "v div 10 \<le> 9" "0 \<le> v mod 10" "v mod 10 \<le> 9"
    by auto
  with v show "cbs_get_two_digits cbs = (Some v, rest)"
    by (simp add: cbs_get_two_digits_def two_digits_def uint_digit OPENSSL_isdigit_def)
qed

lemma two_digits_suffix: "cbs_get_two_digits cbs = (r, rest) \<Longrightarrow> suffix rest cbs"
  by (cases cbs; cases "tl cbs")
    (auto simp: cbs_get_two_digits_def suffix_def split: if_splits)

interpretation two_digits: canonical_codec cbs_get_two_digits two_digits "\<lambda>v. 0 \<le> v \<and> v \<le> 99"
proof
  show "length rest < length cbs" if "cbs_get_two_digits cbs = (Some v, rest)" for cbs v rest
    using that by (simp add: two_digits_Some two_digits_def)
qed (simp_all add: two_digits_Some two_digits_suffix)

lemma two_digits_read [simp]:
  "0 \<le> v \<Longrightarrow> v \<le> 99 \<Longrightarrow> cbs_get_two_digits (two_digits v @ rest) = (Some v, rest)"
  "0 \<le> v \<Longrightarrow> v \<le> 99 \<Longrightarrow> cbs_get_two_digits (two_digits v) = (Some v, [])"
  by (simp_all add: two_digits_Some)

section \<open>The text of a time\<close>

definition year_ok :: "bool \<Rightarrow> int \<Rightarrow> bool" where
  "year_ok is_gentime year \<longleftrightarrow> (if is_gentime then 0 \<le> year \<and> year \<le> 9999 else 1950 \<le> year \<and> year < 2050)"

definition year_text :: "bool \<Rightarrow> int \<Rightarrow> bytes" where
  "year_text is_gentime year =
     (if is_gentime then two_digits (year div 100) @ two_digits (year mod 100) else two_digits (year mod 100))"

lemma pivot:
  assumes "1950 \<le> year" "year < 2050"
  shows "year mod 100 = (if year < 2000 then year - 1900 else year - (2000 :: int))"
proof (cases "year < 2000")
  case True
  have eq: "year = 100 * 19 + (year - 1900)" by simp
  show ?thesis
    using int_mod_pos_eq [OF eq] assms True by simp
next
  case False
  have eq: "year = 100 * 20 + (year - 2000)" by simp
  show ?thesis
    using int_mod_pos_eq [OF eq] assms False by simp
qed

lemma parse_year_Some:
  "parse_year is_gentime cbs = (Some year, rest) \<longleftrightarrow>
   year_ok is_gentime year \<and> cbs = year_text is_gentime year @ rest"
proof (cases is_gentime)
  case True
  have eq: "(0 \<le> a \<and> a \<le> 99 \<and> 0 \<le> b \<and> b \<le> 99 \<and> year = a * 100 + b) \<longleftrightarrow>
      (0 \<le> year \<and> year \<le> 9999 \<and> a = year div 100 \<and> b = year mod 100)" for a b
    by auto
  have "parse_year True cbs = (Some year, rest) \<longleftrightarrow> (\<exists>a b. (0 \<le> a \<and> a \<le> 99 \<and> 0 \<le> b \<and> b \<le> 99 \<and>
      year = a * 100 + b) \<and> cbs = two_digits a @ two_digits b @ rest)"
    by (auto simp: parse_year_def Let_def chk_Some_iff two_digits_Some)
  also have "\<dots> \<longleftrightarrow> year_ok True year \<and> cbs = year_text True year @ rest"
    unfolding eq by (auto simp: year_ok_def year_text_def)
  finally show ?thesis using True by simp
next
  case False
  have eq: "(0 \<le> a \<and> a \<le> 99 \<and> year = (if 1900 + a < 1950 then 2000 + a else 1900 + a) \<and> \<not> 2050 \<le> year) \<longleftrightarrow>
      (1950 \<le> year \<and> year < 2050 \<and> a = year mod 100)" for a
  proof
    assume "0 \<le> a \<and> a \<le> 99 \<and> year = (if 1900 + a < 1950 then 2000 + a else 1900 + a) \<and> \<not> 2050 \<le> year"
    then show "1950 \<le> year \<and> year < 2050 \<and> a = year mod 100"
      by (auto simp: pivot split: if_splits)
  next
    assume y: "1950 \<le> year \<and> year < 2050 \<and> a = year mod 100"
    then have "a = (if year < 2000 then year - 1900 else year - 2000)"
      using pivot by blast
    with y show "0 \<le> a \<and> a \<le> 99 \<and> year = (if 1900 + a < 1950 then 2000 + a else 1900 + a) \<and> \<not> 2050 \<le> year"
      by (auto split: if_splits)
  qed
  have inner: "(let y = 1900 + a; y = if y < 1950 then y + 100 else y
        in if y \<ge> 2050 then (None, c) else (Some y, c)) = (Some year, rest) \<longleftrightarrow>
      (year = (if 1900 + a < 1950 then 2000 + a else 1900 + a) \<and> \<not> 2050 \<le> year) \<and> c = rest"
    for a and c :: bytes
    unfolding Let_def by (cases "a < 50"; cases "2050 \<le> 1900 + a") auto
  have "parse_year False cbs = (Some year, rest) \<longleftrightarrow> (\<exists>a. (0 \<le> a \<and> a \<le> 99 \<and>
      year = (if 1900 + a < 1950 then 2000 + a else 1900 + a) \<and> \<not> 2050 \<le> year) \<and> cbs = two_digits a @ rest)"
    unfolding parse_year_def if_False chk_Some_iff two_digits_Some inner by blast
  also have "\<dots> \<longleftrightarrow> year_ok False year \<and> cbs = year_text False year @ rest"
    unfolding eq by (auto simp: year_ok_def year_text_def)
  finally show ?thesis using False by simp
qed

definition zone_ok :: "bool \<Rightarrow> int \<Rightarrow> int \<Rightarrow> int \<Rightarrow> bool" where
  "zone_ok allow sign hours minutes \<longleftrightarrow>
     (sign = 0 \<and> hours = 0 \<and> minutes = 0 \<or>
      allow \<and> (sign = 1 \<or> sign = - 1) \<and> 0 \<le> hours \<and> hours \<le> 23 \<and> 0 \<le> minutes \<and> minutes \<le> 59)"

definition zone_text :: "int \<Rightarrow> int \<Rightarrow> int \<Rightarrow> bytes" where
  "zone_text sign hours minutes =
     (if sign = 0 then [0x5a]
      else (if sign = 1 then 0x2b else 0x2d) # two_digits hours @ two_digits minutes)"

lemma zone_iff:
  "(\<exists>tz c sign. cbs = tz # c \<and> offset_sign tz = Some sign \<and> parse_offset sign allow c = (Some offset, [])) \<longleftrightarrow>
   (\<exists>sign hh mm. zone_ok allow sign hh mm \<and> cbs = zone_text sign hh mm \<and> offset = sign * (hh * 3600 + mm * 60))"
  (is "?L \<longleftrightarrow> ?R")
proof
  assume ?L
  then obtain tz c sign where c: "cbs = tz # c" "offset_sign tz = Some sign"
    "parse_offset sign allow c = (Some offset, [])"
    by auto
  show ?R
  proof (cases "sign = 0")
    case True
    with c show ?thesis
      by (intro exI [of _ 0]) (auto simp: zone_ok_def zone_text_def parse_offset_def offset_sign_def split: if_splits)
  next
    case False
    with c(3) obtain hh mm where "allow" "0 \<le> hh" "hh \<le> 23" "0 \<le> mm" "mm \<le> 59"
      "c = two_digits hh @ two_digits mm" "offset = sign * (hh * 3600 + mm * 60)"
      by (auto simp: parse_offset_def chk_Some_iff two_digits_Some split: if_splits)
    moreover have "sign = 1 \<and> tz = 0x2b \<or> sign = - 1 \<and> tz = 0x2d"
      using c(2) False by (auto simp: offset_sign_def split: if_splits)
    ultimately show ?thesis
      using c(1) by (intro exI [of _ sign] exI [of _ hh] exI [of _ mm]) (auto simp: zone_ok_def zone_text_def)
  qed
next
  assume ?R
  then obtain sign hh mm where r: "zone_ok allow sign hh mm" "cbs = zone_text sign hh mm"
    "offset = sign * (hh * 3600 + mm * 60)"
    by blast
  then have "cbs = hd cbs # tl cbs \<and> offset_sign (hd cbs) = Some sign \<and>
      parse_offset sign allow (tl cbs) = (Some offset, [])"
    by (auto simp: zone_ok_def zone_text_def parse_offset_def offset_sign_def)
  then show ?L by blast
qed

section \<open>What the parsers accept\<close>

definition time_text :: "bool \<Rightarrow> int \<Rightarrow> int \<Rightarrow> int \<Rightarrow> int \<Rightarrow> int \<Rightarrow> int \<Rightarrow> bytes" where
  "time_text is_gentime year month day h m s =
     year_text is_gentime year @ two_digits month @ two_digits day @ two_digits h @ two_digits m @ two_digits s"

lemma year_ok_range: "year_ok is_gentime year \<Longrightarrow> 0 \<le> year \<and> year \<le> 9999"
  by (simp add: year_ok_def split: if_splits)

lemma is_valid_day_date:
  "0 \<le> year \<Longrightarrow> year \<le> 9999 \<Longrightarrow> is_valid_day year month day \<longleftrightarrow> is_valid_date year month day"
  by (auto simp: is_valid_day_def is_valid_date_def)

lemma valid_date_digits: "is_valid_date year month day \<Longrightarrow> 1 \<le> month \<and> month \<le> 12 \<and> 1 \<le> day \<and> day \<le> 99"
  by (auto simp: is_valid_date_def split: if_splits)

text \<open>What happens once the fields and the zone have been read.\<close>

definition finish_time :: "tm option \<Rightarrow> int \<Rightarrow> int \<Rightarrow> int \<Rightarrow> int \<Rightarrow> int \<Rightarrow> int \<Rightarrow> int \<Rightarrow> tm option option" where
  "finish_time out_tm year month day h m s offset =
     (case out_tm of None \<Rightarrow> Some None
      | Some tm \<Rightarrow>
         let tm = set_utc (year, month, day, h, m, s) tm
         in if offset \<noteq> 0 then map_option Some (OPENSSL_gmtime_adj tm 0 offset) else Some (Some tm))"

lemma set_utc_fields:
  "tm\<lparr>tm_year := year - 1900, tm_mon := month - 1, tm_mday := day, tm_hour := h, tm_min := m, tm_sec := s\<rparr> =
   set_utc (year, month, day, h, m, s) tm"
  by (simp add: set_utc_def)

lemma finish_time_eq:
  assumes "posix_time_from_utc year month day h m s = Some t"
  shows "finish_time (Some tm) year month day h m s offset =
    map_option (\<lambda>utc. Some (set_utc utc tm)) (utc_from_posix_time (t + offset))"
proof -
  have utc: "utc_from_posix_time t = Some (year, month, day, h, m, s)"
    using assms posix_time_from_utc_Some by blast
  have set: "set_utc u (set_utc v tm) = set_utc u tm" for u v
    by (cases u; cases v) (simp add: set_utc_def)
  have "OPENSSL_gmtime_adj (set_utc (year, month, day, h, m, s) tm) 0 offset =
      map_option (\<lambda>utc. set_utc utc tm) (utc_from_posix_time (t + offset))"
  proof -
    have "posix_time_from_utc (tm_year (set_utc (year, month, day, h, m, s) tm) + 1900)
        (tm_mon (set_utc (year, month, day, h, m, s) tm) + 1) (tm_mday (set_utc (year, month, day, h, m, s) tm))
        (tm_hour (set_utc (year, month, day, h, m, s) tm)) (tm_min (set_utc (year, month, day, h, m, s) tm))
        (tm_sec (set_utc (year, month, day, h, m, s) tm)) = Some t"
      using assms by (simp add: set_utc_def)
    then show ?thesis
      by (simp add: OPENSSL_gmtime_adj_def set split: option.split)
  qed
  then show ?thesis
    by (cases "offset = 0") (simp_all add: finish_time_def utc option.map_comp comp_def)
qed

lemma finish_time_tail:
  "(case out_tm of None \<Rightarrow> (Some None, copy)
    | Some tm \<Rightarrow>
        let tm = tm\<lparr>tm_year := year - 1900, tm_mon := month - 1, tm_mday := day, tm_hour := h, tm_min := m,
              tm_sec := s\<rparr>
        in if offset \<noteq> 0
           then (case OPENSSL_gmtime_adj tm 0 offset of None \<Rightarrow> (None, copy) | Some tm \<Rightarrow> (Some (Some tm), copy))
           else (Some (Some tm), copy)) = (Some r, t) \<longleftrightarrow>
   finish_time out_tm year month day h m s offset = Some r \<and> t = copy"
  by (cases out_tm) (auto simp: finish_time_def set_utc_def Let_def split: option.splits)

lemma CBS_len_zero: "\<not> CBS_len c \<noteq> 0 \<longleftrightarrow> c = []"
  by (simp add: CBS_len_def)

lemmas time_parse_iff = fst_Some chk_Some_iff if_fail option_fail finish_time_tail parse_year_Some two_digits_Some
  CBS_get_u8_Some CBS_len_zero

lemma internal_Some:
  "CBS_parse_rfc5280_time_internal cbs is_gentime allow out_tm = Some r \<longleftrightarrow>
   (\<exists>year month day h m s sign hh mm.
      year_ok is_gentime year \<and> is_valid_date year month day \<and> is_valid_time h m s \<and> zone_ok allow sign hh mm \<and>
      cbs = time_text is_gentime year month day h m s @ zone_text sign hh mm \<and>
      finish_time out_tm year month day h m s (sign * (hh * 3600 + mm * 60)) = Some r)"
  (is "?L \<longleftrightarrow> ?R")
proof
  assume ?L
  then obtain year month day h m s tz c sign offset where p: "year_ok is_gentime year"
    "cbs = time_text is_gentime year month day h m s @ tz # c"
    "is_valid_day year month day" "0 \<le> h" "h \<le> 23" "0 \<le> m" "m \<le> 59" "0 \<le> s" "s \<le> 59"
    "offset_sign tz = Some sign" "parse_offset sign allow c = (Some offset, [])"
    "finish_time out_tm year month day h m s offset = Some r"
    unfolding CBS_parse_rfc5280_time_internal_def time_parse_iff time_text_def not_less
    by (elim exE conjE) (simp add: not_less)
  obtain sign' hh mm where z: "zone_ok allow sign' hh mm" "tz # c = zone_text sign' hh mm"
    "offset = sign' * (hh * 3600 + mm * 60)"
    using zone_iff [of "tz # c" allow offset] p(10,11) by blast
  moreover have "is_valid_date year month day" "is_valid_time h m s"
    using p(3-9) year_ok_range [OF p(1)] is_valid_day_date by (simp_all add: is_valid_time_iff)
  ultimately show ?R
    using p(1,2,12) by metis
next
  assume ?R
  then obtain year month day h m s sign hh mm where p: "year_ok is_gentime year"
    "is_valid_date year month day" "is_valid_time h m s" "zone_ok allow sign hh mm"
    "cbs = time_text is_gentime year month day h m s @ zone_text sign hh mm"
    "finish_time out_tm year month day h m s (sign * (hh * 3600 + mm * 60)) = Some r"
    by blast
  obtain tz c sign' where z: "zone_text sign hh mm = tz # c" "offset_sign tz = Some sign'"
    "parse_offset sign' allow c = (Some (sign * (hh * 3600 + mm * 60)), [])"
    using zone_iff [of "zone_text sign hh mm" allow "sign * (hh * 3600 + mm * 60)"] p(4) by blast
  have v: "is_valid_day year month day" "0 \<le> h" "h \<le> 23" "0 \<le> m" "m \<le> 59" "0 \<le> s" "s \<le> 59"
    using p(2,3) year_ok_range [OF p(1)] is_valid_day_date by (simp_all add: is_valid_time_iff)
  have y: "parse_year is_gentime (year_text is_gentime year @ rest) = (Some year, rest)" for rest
    using p(1) by (simp add: parse_year_Some)
  show ?L
    using p(6) v z valid_date_digits [OF p(2)]
    unfolding CBS_parse_rfc5280_time_internal_def p(5) time_text_def append_assoc
    by (simp add: y CBS_len_def fst_Some) (unfold finish_time_tail, blast)
qed


text \<open>
  An offset is added with its sign, so that \<open>"19851106210627-0500"\<close>, 21:06:27 at five hours behind UTC,
  becomes 16:06:27 and not 02:06:27 of the next day; and the fields that the parser does not compute
  keep what the caller had in them.
\<close>

lemma offset_is_added:
  "CBS_parse_generalized_time
     (map (word_of_int :: int \<Rightarrow> byte) [49,57,56,53,49,49,48,54,50,49,48,54,50,55,45,48,53,48,48])
     (Some (zero_tm\<lparr>tm_wday := 3\<rparr>)) True =
   Some (Some (set_utc (1985, 11, 6, 16, 6, 27) (zero_tm\<lparr>tm_wday := 3\<rparr>)))"
  by code_simp

end
