(* ===== verification/Unicode.thy ===== *)
theory Unicode
  imports Cbb_Correct
begin

text \<open>
  \<open>crypto/bytestring/unicode.c\<close>: reading and writing code points in UTF-8, Latin-1, UCS-2 and UTF-32.
  Every encoding is an instance of \<open>canonical_codec\<close>: its reader accepts exactly the encodings of the
  code points it can hold, and its writer appends that encoding.
\<close>

section \<open>The code\<close>

definition is_valid_code_point :: "u32 \<Rightarrow> bool" where
  "is_valid_code_point v \<longleftrightarrow>
     (if v > 0x10ffff \<or>
         v AND 0xfffe = 0xfffe \<or>
         (v \<ge> 0xfdd0 \<and> v \<le> 0xfdef) \<or>
         (v \<ge> 0xd800 \<and> v \<le> 0xdfff)
      then False else True)"

definition BOTTOM_BITS :: "nat \<Rightarrow> byte" where
  "BOTTOM_BITS n = ucast (push_bit n (1 :: u32) - 1)"

definition TOP_BITS :: "nat \<Rightarrow> byte" where
  "TOP_BITS n = NOT (BOTTOM_BITS (8 - n))"

text \<open>The continuation bytes.\<close>

fun utf8_loop :: "nat \<Rightarrow> u32 \<Rightarrow> u32 reader" where
  "utf8_loop 0 v cbs = (Some v, cbs)"
| "utf8_loop (Suc len) v cbs = chk (CBS_get_u8 cbs) (\<lambda>c cbs.
     if c AND TOP_BITS 2 \<noteq> TOP_BITS 1 then (None, cbs)
     else utf8_loop len (push_bit 6 v OR ucast (c AND BOTTOM_BITS 6)) cbs)"

definition CBS_get_utf8 :: "u32 reader" where
  "CBS_get_utf8 cbs = chk (CBS_get_u8 cbs) (\<lambda>c cbs.
     if c \<le> 0x7f then (Some (ucast c), cbs)
     else
       let multi = (\<lambda>v len lower_bound.
         chk (utf8_loop len v cbs) (\<lambda>v cbs.
           if \<not> is_valid_code_point v \<or> v < lower_bound then (None, cbs) else (Some v, cbs)))
       in if c AND TOP_BITS 3 = TOP_BITS 2 then multi (ucast (c AND BOTTOM_BITS 5)) 1 0x80
       else if c AND TOP_BITS 4 = TOP_BITS 3 then multi (ucast (c AND BOTTOM_BITS 4)) 2 0x800
       else if c AND TOP_BITS 5 = TOP_BITS 4 then multi (ucast (c AND BOTTOM_BITS 3)) 3 0x10000
       else (None, cbs))"

definition CBS_get_latin1 :: "u32 reader" where
  "CBS_get_latin1 cbs = chk (CBS_get_u8 cbs) (\<lambda>c cbs. (Some (ucast c), cbs))"

definition CBS_get_ucs2_be :: "u32 reader" where
  "CBS_get_ucs2_be cbs = chk (CBS_get_u16 cbs) (\<lambda>c cbs.
     if \<not> is_valid_code_point (ucast c) then (None, cbs) else (Some (ucast c), cbs))"

definition CBS_get_utf32_be :: "u32 reader" where
  "CBS_get_utf32_be cbs = chk (CBS_get_u32 cbs) (\<lambda>out cbs.
     if is_valid_code_point out then (Some out, cbs) else (None, cbs))"

definition CBB_get_utf8_len :: "u32 \<Rightarrow> nat" where
  "CBB_get_utf8_len u = (if u \<le> 0x7f then 1 else if u \<le> 0x7ff then 2 else if u \<le> 0xffff then 3 else 4)"

definition CBB_add_utf8 :: "nat \<Rightarrow> u32 \<Rightarrow> cbb \<Rightarrow> unit option \<times> cbb" where
  "CBB_add_utf8 d u cbb =
     (if \<not> is_valid_code_point u then (None, cbb)
      else if u \<le> 0x7f then CBB_add_u8 d (ucast u) cbb
      else if u \<le> 0x7ff
      then chk (CBB_add_u8 d (ucast (ucast (TOP_BITS 2) OR drop_bit 6 u)) cbb) (\<lambda>_ cbb.
           CBB_add_u8 d (ucast (ucast (TOP_BITS 1) OR (u AND ucast (BOTTOM_BITS 6)))) cbb)
      else if u \<le> 0xffff
      then chk (CBB_add_u8 d (ucast (ucast (TOP_BITS 3) OR drop_bit 12 u)) cbb) (\<lambda>_ cbb.
           chk (CBB_add_u8 d (ucast (ucast (TOP_BITS 1) OR (drop_bit 6 u AND ucast (BOTTOM_BITS 6)))) cbb) (\<lambda>_ cbb.
           CBB_add_u8 d (ucast (ucast (TOP_BITS 1) OR (u AND ucast (BOTTOM_BITS 6)))) cbb))
      else if u \<le> 0x10ffff
      then chk (CBB_add_u8 d (ucast (ucast (TOP_BITS 4) OR drop_bit 18 u)) cbb) (\<lambda>_ cbb.
           chk (CBB_add_u8 d (ucast (ucast (TOP_BITS 1) OR (drop_bit 12 u AND ucast (BOTTOM_BITS 6)))) cbb) (\<lambda>_ cbb.
           chk (CBB_add_u8 d (ucast (ucast (TOP_BITS 1) OR (drop_bit 6 u AND ucast (BOTTOM_BITS 6)))) cbb) (\<lambda>_ cbb.
           CBB_add_u8 d (ucast (ucast (TOP_BITS 1) OR (u AND ucast (BOTTOM_BITS 6)))) cbb)))
      else (None, cbb))"

definition CBB_add_latin1 :: "nat \<Rightarrow> u32 \<Rightarrow> cbb \<Rightarrow> unit option \<times> cbb" where
  "CBB_add_latin1 d u cbb = (if u \<le> 0xff then CBB_add_u8 d (ucast u) cbb else (None, cbb))"

definition CBB_add_ucs2_be :: "nat \<Rightarrow> u32 \<Rightarrow> cbb \<Rightarrow> unit option \<times> cbb" where
  "CBB_add_ucs2_be d u cbb =
     (if u \<le> 0xffff \<and> is_valid_code_point u then CBB_add_u16 d (ucast u) cbb else (None, cbb))"

definition CBB_add_utf32_be :: "nat \<Rightarrow> u32 \<Rightarrow> cbb \<Rightarrow> unit option \<times> cbb" where
  "CBB_add_utf32_be d u cbb = (if is_valid_code_point u then CBB_add_u32 d u cbb else (None, cbb))"

section \<open>Bits of bytes\<close>

lemma bits_literals:
  "BOTTOM_BITS 3 = mask 3" "BOTTOM_BITS 4 = mask 4" "BOTTOM_BITS 5 = mask 5" "BOTTOM_BITS 6 = mask 6"
  "TOP_BITS 1 = NOT (mask 7)" "TOP_BITS 2 = NOT (mask 6)" "TOP_BITS 3 = NOT (mask 5)" "TOP_BITS 4 = NOT (mask 4)"
  "TOP_BITS 5 = NOT (mask 3)"
  by (simp_all add: BOTTOM_BITS_def TOP_BITS_def mask_eq_exp_minus_1)

lemma unat_top_bits: "unat (c AND NOT (mask n)) = unat (c :: byte) div 2 ^ n * 2 ^ n"
proof -
  have "c AND NOT (mask n) = push_bit n (drop_bit n c)"
    by (rule bit_word_eqI) (auto simp: bit_simps)
  moreover have "unat c div 2 ^ n * 2 ^ n < 2 ^ LENGTH(8)"
    using le_less_trans [OF div_times_less_eq_dividend unat_byte_less] by simp
  moreover have "unat (push_bit n (drop_bit n c)) = take_bit LENGTH(8) (unat c div 2 ^ n * 2 ^ n)"
    unfolding unsigned_push_bit_eq unsigned_drop_bit_eq
    unfolding push_bit_eq_mult drop_bit_eq_div using unat_byte_less [of c] by (simp add: take_bit_nat_eq_self)
  ultimately show ?thesis
    by (simp only: take_bit_nat_eq_self)
qed

lemma byte_classes:
  "(c AND TOP_BITS 3 = TOP_BITS 2) = (192 \<le> unat c \<and> unat c < 224)"
  "(c AND TOP_BITS 4 = TOP_BITS 3) = (224 \<le> unat c \<and> unat c < 240)"
  "(c AND TOP_BITS 5 = TOP_BITS 4) = (240 \<le> unat c \<and> unat c < 248)"
  "(c AND TOP_BITS 2 = TOP_BITS 1) = (128 \<le> unat c \<and> unat c < 192)"
proof -
  have lits: "unat (NOT (mask 6) :: byte) = 192" "unat (NOT (mask 5) :: byte) = 224"
    "unat (NOT (mask 4) :: byte) = 240" "unat (NOT (mask 7) :: byte) = 128"
    by (simp_all add: mask_eq_exp_minus_1)
  show "(c AND TOP_BITS 3 = TOP_BITS 2) = (192 \<le> unat c \<and> unat c < 224)"
    "(c AND TOP_BITS 4 = TOP_BITS 3) = (224 \<le> unat c \<and> unat c < 240)"
    "(c AND TOP_BITS 5 = TOP_BITS 4) = (240 \<le> unat c \<and> unat c < 248)"
    "(c AND TOP_BITS 2 = TOP_BITS 1) = (128 \<le> unat c \<and> unat c < 192)"
    unfolding bits_literals word_unat_eq_iff unat_top_bits lits by auto
qed

lemma unat_and_mask: "unat (c AND mask n) = unat (c :: 'a :: len word) mod 2 ^ n"
  unfolding take_bit_eq_mask [symmetric] unsigned_take_bit_eq by (rule take_bit_eq_mod)

lemma byte_payload:
  "unat (c AND BOTTOM_BITS 5) = unat c mod 32" "unat (c AND BOTTOM_BITS 4) = unat c mod 16"
  "unat (c AND BOTTOM_BITS 3) = unat c mod 8" "unat (c AND BOTTOM_BITS 6) = unat c mod 64"
  unfolding bits_literals unat_and_mask by simp_all

section \<open>UTF-8\<close>

definition cont :: "nat \<Rightarrow> byte" where
  "cont d = word_of_nat (128 + d mod 64)"

definition utf8_enc :: "u32 \<Rightarrow> bytes" where
  "utf8_enc u =
     (let n = unat u
      in if n < 0x80 then [word_of_nat n]
      else if n < 0x800 then [word_of_nat (192 + n div 64), cont n]
      else if n < 0x10000 then [word_of_nat (224 + n div 4096), cont (n div 64), cont n]
      else [word_of_nat (240 + n div 262144), cont (n div 4096), cont (n div 64), cont n])"

lemma unat_cont [simp]: "unat (cont d) = 128 + d mod 64"
proof -
  have "d mod 64 < 64" by simp
  then show ?thesis
    unfolding cont_def by (intro unat_word_of_nat_small) simp
qed

lemma cont_arith: "128 \<le> n \<and> n < 192 \<longleftrightarrow> n = 128 + n mod (64 :: nat)"
proof
  assume n: "128 \<le> n \<and> n < 192"
  then have "n = n - 128 + 64 * 2" by simp
  then have "n mod 64 = (n - 128) mod 64"
    by (metis mod_mult_self1 mult.commute)
  moreover have "(n - 128) mod 64 = n - 128"
    using n by (intro mod_less) linarith
  ultimately show "n = 128 + n mod 64"
    using n by simp
next
  assume "n = 128 + n mod 64"
  moreover have "n mod 64 < 64" by simp
  ultimately show "128 \<le> n \<and> n < 192" by linarith
qed

lemma cont_iff: "128 \<le> unat c \<and> unat c < 192 \<longleftrightarrow> c = cont (unat c)"
proof -
  have "c = cont (unat c) \<longleftrightarrow> unat c = 128 + unat c mod 64"
    by (simp add: word_unat_eq_iff)
  then show ?thesis
    using cont_arith [of "unat c"] by simp
qed

lemma shift6_or:
  assumes "unat v < 2 ^ 26"
  shows "unat (push_bit 6 v OR ucast (c AND BOTTOM_BITS 6) :: u32) = unat v * 64 + unat (c :: byte) mod 64"
proof -
  have "push_bit 6 v AND ucast (c AND BOTTOM_BITS 6) = 0"
    unfolding bits_literals by (rule bit_word_eqI) (auto simp: bit_simps)
  then have "push_bit 6 v OR ucast (c AND BOTTOM_BITS 6) = push_bit 6 v + ucast (c AND BOTTOM_BITS 6)"
    by (rule disjunctive_add_eq_or [symmetric])
  moreover have "unat (push_bit 6 v) = unat v * 64"
    using assms by (simp add: push_bit_eq_mult unat_word_ariths)
  moreover have "unat (ucast (c AND BOTTOM_BITS 6) :: u32) = unat c mod 64"
    by (simp add: unat_ucast_up byte_payload)
  moreover have "unat v * 64 + unat c mod 64 < 2 ^ 32"
  proof -
    have "unat c mod 64 < 64" by simp
    with assms show ?thesis by simp
  qed
  ultimately show ?thesis
    by (simp add: unat_word_ariths)
qed

lemma utf8_loop_Some:
  "(unat v + 1) * 64 ^ len \<le> 2 ^ 32 \<Longrightarrow>
   utf8_loop len v cbs = (Some u, rest) \<longleftrightarrow>
   (\<exists>ds. length ds = len \<and> (\<forall>d\<in>set ds. d < 64) \<and> cbs = map cont ds @ rest \<and>
      unat u = foldl (\<lambda>a d. a * 64 + d) (unat v) ds)"
proof (induction len arbitrary: v cbs)
  case 0
  then show ?case by (auto simp: word_unat_eq_iff)
next
  case (Suc len)
  let ?v = "\<lambda>c. push_bit 6 v OR ucast (c AND BOTTOM_BITS 6) :: u32"
  have "(unat v + 1) * 64 * 1 \<le> (unat v + 1) * 64 * 64 ^ len"
    by (intro mult_le_mono2) simp
  also have "\<dots> = (unat v + 1) * 64 ^ Suc len"
    by (simp only: power_Suc mult.assoc)
  finally have v: "unat v < 2 ^ 26"
    using Suc.prems by simp
  note val = shift6_or [OF v]
  have bound: "(unat (?v c) + 1) * 64 ^ len \<le> 2 ^ 32" for c
  proof -
    have "unat c mod 64 < 64" by simp
    then have "unat (?v c) + 1 \<le> (unat v + 1) * 64"
      unfolding val by simp
    then have "(unat (?v c) + 1) * 64 ^ len \<le> (unat v + 1) * 64 * 64 ^ len"
      by (rule mult_le_mono1)
    with Suc.prems show ?thesis
      by (simp only: power_Suc mult.assoc)
  qed
  have "utf8_loop (Suc len) v cbs = (Some u, rest) \<longleftrightarrow>
      (\<exists>c cbs'. cbs = c # cbs' \<and> (128 \<le> unat c \<and> unat c < 192) \<and> utf8_loop len (?v c) cbs' = (Some u, rest))"
    unfolding utf8_loop.simps chk_Some_iff CBS_get_u8_Some byte_classes by auto
  also have "\<dots> \<longleftrightarrow> (\<exists>c ds. (128 \<le> unat c \<and> unat c < 192) \<and> length ds = len \<and> (\<forall>d\<in>set ds. d < 64) \<and>
      cbs = c # map cont ds @ rest \<and> unat u = foldl (\<lambda>a d. a * 64 + d) (unat v * 64 + unat c mod 64) ds)"
    unfolding Suc.IH [OF bound] val by blast
  also have "\<dots> \<longleftrightarrow> (\<exists>d ds. d < 64 \<and> length ds = len \<and> (\<forall>d\<in>set ds. d < 64) \<and>
      cbs = cont d # map cont ds @ rest \<and> unat u = foldl (\<lambda>a d. a * 64 + d) (unat v * 64 + d) ds)"
    (is "?A \<longleftrightarrow> ?B")
  proof
    assume ?A
    then obtain c ds where "c = cont (unat c)" "length ds = len" "\<forall>d\<in>set ds. d < 64"
      "cbs = c # map cont ds @ rest" "unat u = foldl (\<lambda>a d. a * 64 + d) (unat v * 64 + unat c mod 64) ds"
      unfolding cont_iff by blast
    moreover from this(1) have "c = cont (unat c mod 64)"
      by (simp add: cont_def)
    moreover have "unat c mod 64 < 64" by simp
    ultimately show ?B by metis
  next
    assume ?B
    then obtain d ds where "d < 64" "length ds = len" "\<forall>d\<in>set ds. d < 64"
      "cbs = cont d # map cont ds @ rest" "unat u = foldl (\<lambda>a d. a * 64 + d) (unat v * 64 + d) ds"
      by blast
    moreover from this(1) have "(128 + d) mod 64 = d"
      using mod_add_eq [of 128 64 d] by simp
    ultimately show ?A
      by (intro exI [of _ "cont d"] exI [of _ ds]) simp
  qed
  also have "\<dots> \<longleftrightarrow> (\<exists>ds. length ds = Suc len \<and> (\<forall>d\<in>set ds. d < 64) \<and> cbs = map cont ds @ rest \<and>
      unat u = foldl (\<lambda>a d. a * 64 + d) (unat v) ds)"
  proof
    assume "\<exists>d ds. d < 64 \<and> length ds = len \<and> (\<forall>d\<in>set ds. d < 64) \<and>
      cbs = cont d # map cont ds @ rest \<and> unat u = foldl (\<lambda>a d. a * 64 + d) (unat v * 64 + d) ds"
    then obtain d ds where "d < 64" "length ds = len" "\<forall>d\<in>set ds. d < 64"
      "cbs = cont d # map cont ds @ rest" "unat u = foldl (\<lambda>a d. a * 64 + d) (unat v * 64 + d) ds"
      by blast
    then show "\<exists>ds. length ds = Suc len \<and> (\<forall>d\<in>set ds. d < 64) \<and> cbs = map cont ds @ rest \<and>
      unat u = foldl (\<lambda>a d. a * 64 + d) (unat v) ds"
      by (intro exI [of _ "d # ds"]) simp
  next
    assume "\<exists>ds. length ds = Suc len \<and> (\<forall>d\<in>set ds. d < 64) \<and> cbs = map cont ds @ rest \<and>
      unat u = foldl (\<lambda>a d. a * 64 + d) (unat v) ds"
    then obtain ds where ds: "length ds = Suc len" "\<forall>d\<in>set ds. d < 64" "cbs = map cont ds @ rest"
      "unat u = foldl (\<lambda>a d. a * 64 + d) (unat v) ds"
      by blast
    then obtain e es where "ds = e # es"
      by (cases ds) auto
    with ds show "\<exists>d ds. d < 64 \<and> length ds = len \<and> (\<forall>d\<in>set ds. d < 64) \<and>
      cbs = cont d # map cont ds @ rest \<and> unat u = foldl (\<lambda>a d. a * 64 + d) (unat v * 64 + d) ds"
      by (intro exI [of _ e] exI [of _ es]) simp
  qed
  finally show ?case .
qed

text \<open>The three lead bytes.\<close>

lemma is_valid_code_point_max: "is_valid_code_point v \<Longrightarrow> unat v \<le> 0x10ffff"
  by (auto simp: is_valid_code_point_def word_less_nat_alt split: if_splits)

lemma is_valid_code_point_small: "unat v < 0xd800 \<Longrightarrow> is_valid_code_point v"
proof -
  assume v: "unat v < 0xd800"
  have "unat (v AND 0xfffe) \<le> unat v"
    by (simp add: word_and_le2 flip: word_le_nat_alt)
  with v have "v AND 0xfffe \<noteq> 0xfffe"
    by auto
  with v show ?thesis
    by (auto simp: is_valid_code_point_def word_less_nat_alt word_le_nat_alt)
qed

lemma lead_byte: "lead + a < 256 \<Longrightarrow> unat (word_of_nat (lead + a) :: byte) = lead + a"
  by (rule unat_word_of_nat_small) simp

lemma multi_Some:
  assumes "unat v * 64 ^ len + 64 ^ len \<le> 2 ^ 32"
  shows "chk (utf8_loop len v cbs) (\<lambda>v cbs.
      if \<not> is_valid_code_point v \<or> v < lower then (None, cbs) else (Some v, cbs)) = (Some u, rest) \<longleftrightarrow>
    (\<exists>ds. length ds = len \<and> (\<forall>d\<in>set ds. d < 64) \<and> cbs = map cont ds @ rest \<and>
       unat u = foldl (\<lambda>a d. a * 64 + d) (unat v) ds) \<and> is_valid_code_point u \<and> lower \<le> u"
proof -
  have "(unat v + 1) * 64 ^ len \<le> 2 ^ 32"
    using assms by simp
  from utf8_loop_Some [OF this] show ?thesis
    by (auto simp: chk_Some_iff not_less)
qed

lemma cont_digit [simp]: "cont (a * 64 + d) = cont d" "cont (d mod 64) = cont d"
  by (simp_all add: cont_def)

lemma lead_arith:
  "192 \<le> c \<and> c < 224 \<Longrightarrow> 192 + c mod 32 = (c :: nat)"
  "224 \<le> c \<and> c < 240 \<Longrightarrow> 224 + c mod 16 = c"
  "240 \<le> c \<and> c < 248 \<Longrightarrow> 240 + c mod 8 = c"
proof -
  have "k * q + c mod k = c" if "k * q \<le> c" "c < k * Suc q" for k q
    using div_nat_eqI [of k q c] that mult_div_mod_eq [of k c] by simp
  from this [of 32 6] this [of 16 14] this [of 8 30]
  show "192 \<le> c \<and> c < 224 \<Longrightarrow> 192 + c mod 32 = (c :: nat)"
    "224 \<le> c \<and> c < 240 \<Longrightarrow> 224 + c mod 16 = c" "240 \<le> c \<and> c < 248 \<Longrightarrow> 240 + c mod 8 = c"
    by simp_all
qed

lemma split2:
  assumes "d < 64" "e < 64"
  shows "((a * 64 + d) * 64 + e) div 4096 = a \<and> cont (((a * 64 + d) * 64 + e) div 64) = cont d \<and>
    cont ((a * 64 + d) * 64 + e) = cont e \<and> (a < 16 \<longrightarrow> (a * 64 + d) * 64 + e < 65536)"
proof -
  have 1: "((a * 64 + d) * 64 + e) div 64 = a * 64 + d"
    using assms(2) by simp
  have "((a * 64 + d) * 64 + e) div 4096 = ((a * 64 + d) * 64 + e) div 64 div 64"
    by (simp only: div_mult2_eq [symmetric]) simp
  also have "\<dots> = a"
    unfolding 1 using assms(1) by simp
  finally have "((a * 64 + d) * 64 + e) div 4096 = a" .
  moreover have "a < 16 \<longrightarrow> (a * 64 + d) * 64 + e < 65536"
    using assms by auto
  ultimately show ?thesis
    unfolding 1 cont_digit(1) by blast
qed

lemma split3:
  assumes "d < 64" "e < 64" "f < 64"
  shows "(((a * 64 + d) * 64 + e) * 64 + f) div 262144 = a \<and>
    cont ((((a * 64 + d) * 64 + e) * 64 + f) div 4096) = cont d \<and>
    cont ((((a * 64 + d) * 64 + e) * 64 + f) div 64) = cont e \<and>
    cont (((a * 64 + d) * 64 + e) * 64 + f) = cont f"
proof -
  let ?n = "((a * 64 + d) * 64 + e) * 64 + f"
  have 1: "?n div 64 = (a * 64 + d) * 64 + e"
    using assms(3) by simp
  have "?n div 4096 = ?n div 64 div 64" "?n div 262144 = ?n div 64 div 4096"
    by (simp_all only: div_mult2_eq [symmetric]) simp_all
  with split2 [OF assms(1,2), of a] show ?thesis
    unfolding 1 cont_digit(1) by simp
qed

text \<open>The reader, one lead byte at a time.\<close>

lemma get_utf8_class:
  "CBS_get_utf8 (c # cbs) =
     (if unat c < 128 then (Some (ucast c), cbs)
      else let multi = (\<lambda>v len lower_bound. chk (utf8_loop len v cbs) (\<lambda>v cbs.
             if \<not> is_valid_code_point v \<or> v < lower_bound then (None, cbs) else (Some v, cbs)))
      in if 192 \<le> unat c \<and> unat c < 224 then multi (ucast (c AND BOTTOM_BITS 5)) 1 0x80
      else if 224 \<le> unat c \<and> unat c < 240 then multi (ucast (c AND BOTTOM_BITS 4)) 2 0x800
      else if 240 \<le> unat c \<and> unat c < 248 then multi (ucast (c AND BOTTOM_BITS 3)) 3 0x10000
      else (None, cbs))"
proof -
  have "c \<le> 0x7f \<longleftrightarrow> unat c < 128"
    by (auto simp: word_le_nat_alt)
  then show ?thesis
    unfolding CBS_get_utf8_def by (simp only: CBS_get_u8_simps chk_simps byte_classes)
qed

lemma class_Some:
  assumes "unat v = unat c mod k" "k * 64 ^ len \<le> 2 ^ 32" "0 < k"
  shows "chk (utf8_loop len v cbs) (\<lambda>v cbs.
      if \<not> is_valid_code_point v \<or> v < lower then (None, cbs) else (Some v, cbs)) = (Some u, rest) \<longleftrightarrow>
    (\<exists>ds. length ds = len \<and> (\<forall>d\<in>set ds. d < 64) \<and> cbs = map cont ds @ rest \<and>
       unat u = foldl (\<lambda>a d. a * 64 + d) (unat c mod k) ds) \<and> is_valid_code_point u \<and> unat lower \<le> unat u"
proof -
  have "unat c mod k + 1 \<le> k"
    using assms(3) by (simp add: Suc_leI)
  then have "(unat c mod k + 1) * 64 ^ len \<le> k * 64 ^ len"
    by (rule mult_le_mono1)
  with assms(2) have "unat v * 64 ^ len + 64 ^ len \<le> 2 ^ 32"
    unfolding assms(1) by simp
  from multi_Some [OF this] show ?thesis
    unfolding assms(1) word_le_nat_alt .
qed

lemma utf8_canonical:
  assumes "CBS_get_utf8 s = (Some u, rest)"
  shows "is_valid_code_point u \<and> s = utf8_enc u @ rest"
proof -
  obtain c cbs where s: "s = c # cbs"
    using assms by (cases s) (simp_all add: CBS_get_utf8_def)
  have payload: "unat (ucast (c AND BOTTOM_BITS 5) :: u32) = unat c mod 32"
    "unat (ucast (c AND BOTTOM_BITS 4) :: u32) = unat c mod 16" "unat (ucast (c AND BOTTOM_BITS 3) :: u32) = unat c mod 8"
    by (simp_all add: unat_ucast_up byte_payload)
  have bounds: "32 * 64 ^ 1 \<le> (2 :: nat) ^ 32" "16 * 64 ^ 2 \<le> (2 :: nat) ^ 32" "8 * 64 ^ 3 \<le> (2 :: nat) ^ 32"
    by simp_all
  consider "unat c < 128" | "192 \<le> unat c \<and> unat c < 224" | "224 \<le> unat c \<and> unat c < 240"
    | "240 \<le> unat c \<and> unat c < 248"
  proof -
    have False if c: "\<not> unat c < 128" "\<not> (192 \<le> unat c \<and> unat c < 224)" "\<not> (224 \<le> unat c \<and> unat c < 240)"
      "\<not> (240 \<le> unat c \<and> unat c < 248)"
      using assms unfolding s get_utf8_class Let_def if_not_P [OF c(1)] if_not_P [OF c(2)] if_not_P [OF c(3)]
        if_not_P [OF c(4)] by simp
    with that show thesis by blast
  qed
  then show ?thesis
  proof cases
    case 1
    with assms have "u = ucast c" "rest = cbs"
      by (simp_all add: s get_utf8_class)
    moreover from this have "unat u = unat c"
      by (simp add: unat_ucast_up)
    ultimately show ?thesis
      using 1 by (simp add: s utf8_enc_def is_valid_code_point_small)
  next
    case 2
    then have c: "(unat c < 128) = False" "(192 \<le> unat c \<and> unat c < 224) = True"
      by auto
    obtain ds where ds: "length ds = 1" "\<forall>d\<in>set ds. d < 64" "cbs = map cont ds @ rest"
      "unat u = foldl (\<lambda>a d. a * 64 + d) (unat c mod 32) ds" "is_valid_code_point u"
      "unat (0x80 :: u32) \<le> unat u"
      using assms unfolding s get_utf8_class Let_def c if_False if_True
        class_Some [OF payload(1) bounds(1) zero_less_numeral] by blast
    moreover obtain d where "ds = [d]"
      using ds(1) by (auto simp: length_Suc_conv)
    ultimately have d: "d < 64" "cbs = cont d # rest" "unat u = unat c mod 32 * 64 + d"
      "is_valid_code_point u" "128 \<le> unat u"
      by simp_all
    have "unat c mod 32 < 32" by simp
    with d(1,3) have "unat u < 2048" "unat u div 64 = unat c mod 32" by linarith+
    with d lead_arith(1) [OF 2] show ?thesis
      by (simp add: s utf8_enc_def Let_def)
  next
    case 3
    then have c: "(unat c < 128) = False" "(192 \<le> unat c \<and> unat c < 224) = False"
        "(224 \<le> unat c \<and> unat c < 240) = True"
      by auto
    have "unat c mod 16 < 16" by simp
    moreover obtain ds where ds: "length ds = 2" "\<forall>d\<in>set ds. d < 64" "cbs = map cont ds @ rest"
      "unat u = foldl (\<lambda>a d. a * 64 + d) (unat c mod 16) ds" "is_valid_code_point u"
      "unat (0x800 :: u32) \<le> unat u"
      using assms unfolding s get_utf8_class Let_def c if_False if_True
        class_Some [OF payload(2) bounds(2) zero_less_numeral] by blast
    moreover obtain d e where "ds = [d, e]"
      using ds(1) by (auto simp: length_Suc_conv numeral_2_eq_2)
    ultimately have d: "unat c mod 16 < 16" "d < 64" "e < 64" "cbs = cont d # cont e # rest"
      "unat u = (unat c mod 16 * 64 + d) * 64 + e" "is_valid_code_point u" "0x800 \<le> unat u"
      by simp_all
    from split2 [OF d(2,3), of "unat c mod 16", folded d(5)] d(1) have
      "unat u < 65536" "unat u div 4096 = unat c mod 16" "cont (unat u div 64) = cont d" "cont (unat u) = cont e"
      by blast+
    with d(4,6,7) lead_arith(2) [OF 3] show ?thesis
      by (simp add: s utf8_enc_def Let_def)
  next
    case 4
    then have c: "(unat c < 128) = False" "(192 \<le> unat c \<and> unat c < 224) = False"
        "(224 \<le> unat c \<and> unat c < 240) = False" "(240 \<le> unat c \<and> unat c < 248) = True"
      by auto
    obtain ds where ds: "length ds = 3" "\<forall>d\<in>set ds. d < 64" "cbs = map cont ds @ rest"
      "unat u = foldl (\<lambda>a d. a * 64 + d) (unat c mod 8) ds" "is_valid_code_point u"
      "unat (0x10000 :: u32) \<le> unat u"
      using assms unfolding s get_utf8_class Let_def c if_False if_True
        class_Some [OF payload(3) bounds(3) zero_less_numeral] by blast
    moreover obtain d e f where "ds = [d, e, f]"
      using ds(1) by (auto simp: length_Suc_conv numeral_3_eq_3)
    ultimately have d: "d < 64" "e < 64" "f < 64" "cbs = cont d # cont e # cont f # rest"
      "unat u = ((unat c mod 8 * 64 + d) * 64 + e) * 64 + f" "is_valid_code_point u" "0x10000 \<le> unat u"
      by simp_all
    from split3 [OF d(1-3), of "unat c mod 8", folded d(5)] have
      "unat u div 262144 = unat c mod 8" "cont (unat u div 4096) = cont d" "cont (unat u div 64) = cont e"
      "cont (unat u) = cont f"
      by blast+
    with d(4,6,7) lead_arith(3) [OF 4] show ?thesis
      by (simp add: s utf8_enc_def Let_def)
  qed
qed

text \<open>Reading back an encoding.\<close>

lemma lead_mod: "a < 32 \<Longrightarrow> (192 + a) mod 32 = (a :: nat)" "a < 16 \<Longrightarrow> (224 + a) mod 16 = a"
    "a < 8 \<Longrightarrow> (240 + a) mod 8 = a"
  using mod_add_eq [of 192 32 a] mod_add_eq [of 224 16 a] mod_add_eq [of 240 8 a] by simp_all

lemma digits_of:
  "(n :: nat) div 64 * 64 + n mod 64 = n"
  "(n div 4096 * 64 + n div 64 mod 64) * 64 + n mod 64 = n"
  "((n div 262144 * 64 + n div 4096 mod 64) * 64 + n div 64 mod 64) * 64 + n mod 64 = n"
proof -
  have *: "m div 64 div 64 * 64 + m div 64 mod 64 = m div 64" for m :: nat
    by simp
  have "n div 4096 = n div 64 div 64" "n div 262144 = n div 64 div 64 div 64"
    by (simp_all add: div_mult2_eq [symmetric])
  then show "(n :: nat) div 64 * 64 + n mod 64 = n" "(n div 4096 * 64 + n div 64 mod 64) * 64 + n mod 64 = n"
    "((n div 262144 * 64 + n div 4096 mod 64) * 64 + n div 64 mod 64) * 64 + n mod 64 = n"
    using * by simp_all
qed

lemma utf8_read:
  assumes "is_valid_code_point u"
  shows "CBS_get_utf8 (utf8_enc u @ rest) = (Some u, rest)"
proof -
  define n where "n = unat u"
  have payload: "unat (ucast (c AND BOTTOM_BITS 5) :: u32) = unat c mod 32"
    "unat (ucast (c AND BOTTOM_BITS 4) :: u32) = unat c mod 16" "unat (ucast (c AND BOTTOM_BITS 3) :: u32) = unat c mod 8"
    for c by (simp_all add: unat_ucast_up byte_payload)
  have bounds: "32 * 64 ^ 1 \<le> (2 :: nat) ^ 32" "16 * 64 ^ 2 \<le> (2 :: nat) ^ 32" "8 * 64 ^ 3 \<le> (2 :: nat) ^ 32"
    by simp_all
  have max: "n \<le> 0x10ffff"
    unfolding n_def by (rule is_valid_code_point_max [OF assms])
  consider "n < 0x80" | "0x80 \<le> n" "n < 0x800" | "0x800 \<le> n" "n < 0x10000" | "0x10000 \<le> n"
    by linarith
  then show ?thesis
  proof cases
    case 1
    then have "unat (word_of_nat n :: byte) = n"
      by (intro unat_word_of_nat_small) simp
    moreover from this have "ucast (word_of_nat n :: byte) = u"
      by (simp add: word_unat_eq_iff unat_ucast_up n_def)
    ultimately show ?thesis
      using 1 by (simp add: utf8_enc_def n_def [symmetric] get_utf8_class)
  next
    case 2
    let ?c = "word_of_nat (192 + n div 64) :: byte"
    have lead: "n div 64 < 32" using 2 by (simp add: div_less_iff_less_mult)
    then have c: "unat ?c = 192 + n div 64"
      by (intro lead_byte) simp
    have enc: "utf8_enc u = [?c, cont n]"
      using 2 by (simp add: utf8_enc_def n_def [symmetric])
    have cond: "(unat ?c < 128) = False" "(192 \<le> unat ?c \<and> unat ?c < 224) = True"
      using c lead by simp_all
    have "unat u = foldl (\<lambda>a d. a * 64 + d) (unat ?c mod 32) [n mod 64]"
      unfolding c lead_mod(1) [OF lead] foldl_Cons foldl_Nil digits_of by (rule n_def [symmetric])
    then have "CBS_get_utf8 (?c # cont n # rest) = (Some u, rest)"
      unfolding get_utf8_class Let_def cond if_False if_True class_Some [OF payload(1) bounds(1) zero_less_numeral]
      using assms 2 by (intro conjI exI [of _ "[n mod 64]"]) (simp_all add: n_def)
    then show ?thesis by (simp add: enc)
  next
    case 3
    let ?c = "word_of_nat (224 + n div 4096) :: byte"
    have lead: "n div 4096 < 16" using 3 by (simp add: div_less_iff_less_mult)
    then have c: "unat ?c = 224 + n div 4096"
      by (intro lead_byte) simp
    have enc: "utf8_enc u = [?c, cont (n div 64), cont n]"
      using 3 by (simp add: utf8_enc_def n_def [symmetric])
    have cond: "(unat ?c < 128) = False" "(192 \<le> unat ?c \<and> unat ?c < 224) = False"
        "(224 \<le> unat ?c \<and> unat ?c < 240) = True"
      using c lead by simp_all
    have "unat u = foldl (\<lambda>a d. a * 64 + d) (unat ?c mod 16) [n div 64 mod 64, n mod 64]"
      unfolding c lead_mod(2) [OF lead] foldl_Cons foldl_Nil digits_of by (rule n_def [symmetric])
    then have "CBS_get_utf8 (?c # cont (n div 64) # cont n # rest) = (Some u, rest)"
      unfolding get_utf8_class Let_def cond if_False if_True class_Some [OF payload(2) bounds(2) zero_less_numeral]
      using assms 3 by (intro conjI exI [of _ "[n div 64 mod 64, n mod 64]"]) (simp_all add: n_def)
    then show ?thesis by (simp add: enc)
  next
    case 4
    let ?c = "word_of_nat (240 + n div 262144) :: byte"
    have lead: "n div 262144 < 8" using max by (simp add: div_less_iff_less_mult)
    then have c: "unat ?c = 240 + n div 262144"
      by (intro lead_byte) simp
    have enc: "utf8_enc u = [?c, cont (n div 4096), cont (n div 64), cont n]"
      using 4 by (simp add: utf8_enc_def n_def [symmetric])
    have cond: "(unat ?c < 128) = False" "(192 \<le> unat ?c \<and> unat ?c < 224) = False"
        "(224 \<le> unat ?c \<and> unat ?c < 240) = False" "(240 \<le> unat ?c \<and> unat ?c < 248) = True"
      using c lead by simp_all
    have "unat u = foldl (\<lambda>a d. a * 64 + d) (unat ?c mod 8) [n div 4096 mod 64, n div 64 mod 64, n mod 64]"
      unfolding c lead_mod(3) [OF lead] foldl_Cons foldl_Nil digits_of by (rule n_def [symmetric])
    then have "CBS_get_utf8 (?c # cont (n div 4096) # cont (n div 64) # cont n # rest) = (Some u, rest)"
      unfolding get_utf8_class Let_def cond if_False if_True class_Some [OF payload(3) bounds(3) zero_less_numeral]
      using assms 4 by (intro conjI exI [of _ "[n div 4096 mod 64, n div 64 mod 64, n mod 64]"]) (simp_all add: n_def)
    then show ?thesis by (simp add: enc)
  qed
qed

lemma utf8_loop_suffix: "utf8_loop len v cbs = (r, rest) \<Longrightarrow> suffix rest cbs"
proof (induction len v cbs rule: utf8_loop.induct)
  case (2 len v cbs)
  then show ?case
    by (cases cbs) (auto split: if_splits intro: suffix_ConsI)
qed simp

lemma utf8_suffix: "CBS_get_utf8 s = (r, rest) \<Longrightarrow> suffix rest s"
proof -
  have "suffix (snd (CBS_get_utf8 s)) s"
  proof (cases s)
    case (Cons c cbs)
    have loop: "suffix (snd (utf8_loop len v cbs)) cbs" for len v
      by (cases "utf8_loop len v cbs") (simp add: utf8_loop_suffix)
    have "suffix (snd (CBS_get_utf8 s)) cbs"
      unfolding Cons get_utf8_class Let_def by (simp add: chk_snd loop del: utf8_loop.simps)
    then show ?thesis
      by (simp add: Cons suffix_ConsI)
  qed (simp add: CBS_get_utf8_def)
  then show "CBS_get_utf8 s = (r, rest) \<Longrightarrow> suffix rest s" by simp
qed

lemma utf8_enc_nonempty: "utf8_enc u \<noteq> []"
  by (simp add: utf8_enc_def Let_def)

interpretation utf8: canonical_codec CBS_get_utf8 utf8_enc is_valid_code_point
proof
  show "suffix rest s" if "CBS_get_utf8 s = (r, rest)" for s r rest
    using that by (rule utf8_suffix)
  show "CBS_get_utf8 (utf8_enc u @ rest) = (Some u, rest)" if "is_valid_code_point u" for u rest
    using that by (rule utf8_read)
  show "is_valid_code_point u \<and> s = utf8_enc u @ rest" if "CBS_get_utf8 s = (Some u, rest)" for s u rest
    using that by (rule utf8_canonical)
  show "length rest < length s" if "CBS_get_utf8 s = (Some u, rest)" for s u rest
    using utf8_canonical [OF that] utf8_enc_nonempty [of u] by (cases "utf8_enc u") auto
qed

section \<open>The fixed-width encodings\<close>

definition latin1_enc :: "u32 \<Rightarrow> bytes" where
  "latin1_enc u = [ucast u]"

lemma ucast_byte_u32: "unat u < 256 \<Longrightarrow> ucast (ucast u :: byte) = (u :: u32)"
  by (simp add: word_unat_eq_iff unat_ucast_up unat_ucast_down)

lemma ucast_u16_u32: "unat u < 65536 \<Longrightarrow> ucast (ucast u :: u16) = (u :: u32)"
  by (simp add: word_unat_eq_iff unat_ucast_up unat_ucast_down)

interpretation latin1: canonical_codec CBS_get_latin1 latin1_enc "\<lambda>u. unat u < 256"
proof
  show "suffix rest s" if "CBS_get_latin1 s = (r, rest)" for s r rest
    using that by (cases s) (auto simp: CBS_get_latin1_def intro: suffix_ConsI)
  show "length rest < length s" if "CBS_get_latin1 s = (Some u, rest)" for s u rest
    using that by (cases s) (auto simp: CBS_get_latin1_def)
  show "CBS_get_latin1 (latin1_enc u @ rest) = (Some u, rest)" if "unat u < 256" for u rest
    using that by (simp add: CBS_get_latin1_def latin1_enc_def ucast_byte_u32)
  show "unat u < 256 \<and> s = latin1_enc u @ rest" if "CBS_get_latin1 s = (Some u, rest)" for s u rest
  proof -
    note get = that
    obtain c where c: "s = c # rest" "u = ucast c"
      using get by (cases s) (auto simp: CBS_get_latin1_def)
    then have "unat u = unat c"
      by (simp add: unat_ucast_up)
    moreover from this have "ucast u = c"
      using unat_byte_less [of c] by (simp only: word_unat_eq_iff unat_ucast_down) simp
    ultimately show ?thesis
      using c(1) by (simp add: latin1_enc_def unat_byte_less)
  qed
qed

definition ucs2_enc :: "u32 \<Rightarrow> bytes" where
  "ucs2_enc u = be_bytes 2 (unat u)"

lemma ucs2_Some:
  "CBS_get_ucs2_be s = (Some u, rest) \<longleftrightarrow> (unat u < 65536 \<and> is_valid_code_point u) \<and> s = ucs2_enc u @ rest"
proof
  assume "CBS_get_ucs2_be s = (Some u, rest)"
  then obtain c where "CBS_get_u16 s = (Some c, rest)" "is_valid_code_point (ucast c)" "u = ucast c"
    unfolding CBS_get_ucs2_be_def chk_Some_iff if_fail by auto
  then show "(unat u < 65536 \<and> is_valid_code_point u) \<and> s = ucs2_enc u @ rest"
    using unsigned_less [of c, where ?'a = nat] by (auto simp: u16.rd_iff ucs2_enc_def unat_ucast_up)
next
  assume u: "(unat u < 65536 \<and> is_valid_code_point u) \<and> s = ucs2_enc u @ rest"
  then have "CBS_get_u16 s = (Some (ucast u), rest)"
    by (auto simp: u16.rd_iff ucs2_enc_def unat_ucast_down)
  with u show "CBS_get_ucs2_be s = (Some u, rest)"
    by (simp add: CBS_get_ucs2_be_def ucast_u16_u32)
qed

interpretation ucs2: canonical_codec CBS_get_ucs2_be ucs2_enc "\<lambda>u. unat u < 65536 \<and> is_valid_code_point u"
proof
  show "suffix rest s" if "CBS_get_ucs2_be s = (r, rest)" for s r rest
  proof -
    have "snd (CBS_get_ucs2_be s) = snd (CBS_get_u16 s)"
      unfolding CBS_get_ucs2_be_def by (rule chk_snd) simp
    with that u16.rd_suffix [of s "fst (CBS_get_u16 s)" rest] show ?thesis
      by (cases "CBS_get_u16 s") simp
  qed
  show "length rest < length s" if "CBS_get_ucs2_be s = (Some u, rest)" for s u rest
    using that by (simp add: ucs2_Some ucs2_enc_def)
qed (simp_all add: ucs2_Some)

definition utf32_enc :: "u32 \<Rightarrow> bytes" where
  "utf32_enc u = be_bytes 4 (unat u)"

lemma utf32_Some:
  "CBS_get_utf32_be s = (Some u, rest) \<longleftrightarrow> is_valid_code_point u \<and> s = utf32_enc u @ rest"
  using unsigned_less [of u, where ?'a = nat]
  by (auto simp: CBS_get_utf32_be_def chk_Some_iff u32.rd_iff utf32_enc_def split: if_splits)

interpretation utf32: canonical_codec CBS_get_utf32_be utf32_enc is_valid_code_point
proof
  show "suffix rest s" if "CBS_get_utf32_be s = (r, rest)" for s r rest
  proof -
    have "snd (CBS_get_utf32_be s) = snd (CBS_get_u32 s)"
      unfolding CBS_get_utf32_be_def by (rule chk_snd) simp
    with that u32.rd_suffix [of s "fst (CBS_get_u32 s)" rest] show ?thesis
      by (cases "CBS_get_u32 s") simp
  qed
  show "length rest < length s" if "CBS_get_utf32_be s = (Some u, rest)" for s u rest
    using that by (simp add: utf32_Some utf32_enc_def)
qed (simp_all add: utf32_Some)

section \<open>The writers\<close>

lemma ucast_add_byte: "ucast (ucast t + x :: u32) = (word_of_nat (unat (t :: byte) + unat x) :: byte)"
proof -
  have "unat (ucast t :: u32) = unat t"
    by (rule unat_ucast_up) simp
  then have "unat (ucast t + x :: u32) = (unat t + unat x) mod 2 ^ 32"
    by (simp only: unat_word_ariths) simp
  then show ?thesis
    by (simp only: word_unat_eq_iff unat_ucast_down unat_of_nat) (simp add: mod_mod_cancel)
qed

lemma or_lead:
  assumes "unat x < 2 ^ j" "j \<le> 8"
  shows "ucast (ucast (NOT (mask j) :: byte) OR x :: u32) = (word_of_nat (unat (NOT (mask j) :: byte) + unat x) :: byte)"
proof -
  have "take_bit j x = x"
    using assms(1) by (simp add: word_unat_eq_iff unsigned_take_bit_eq take_bit_nat_eq_self)
  then have "ucast (NOT (mask j) :: byte) AND x = 0"
    by (intro bit_word_eqI) (metis (no_types, lifting) bit_and_iff bit_take_bit_iff bit_ucast_iff bit_not_iff bit_mask_iff bit_0_eq bot_apply bot_bool_def)
  then have or: "ucast (NOT (mask j) :: byte) OR x = ucast (NOT (mask j) :: byte) + x"
    by (rule disjunctive_add_eq_or [symmetric])
  show ?thesis
    unfolding or by (rule ucast_add_byte)
qed

lemma lead_bytes:
  assumes "unat u < 0x200000"
  shows "unat u < 0x800 \<Longrightarrow> ucast (ucast (TOP_BITS 2) OR drop_bit 6 u :: u32) = (word_of_nat (192 + unat u div 64) :: byte)"
    "unat u < 0x10000 \<Longrightarrow> ucast (ucast (TOP_BITS 3) OR drop_bit 12 u :: u32) = (word_of_nat (224 + unat u div 4096) :: byte)"
    "ucast (ucast (TOP_BITS 4) OR drop_bit 18 u :: u32) = (word_of_nat (240 + unat u div 262144) :: byte)"
proof -
  have shift: "unat (drop_bit k u) = unat u div 2 ^ k" for k
    unfolding unat_drop_bit_eq by (rule drop_bit_eq_div)
  have lits: "unat (NOT (mask 6) :: byte) = 192" "unat (NOT (mask 5) :: byte) = 224" "unat (NOT (mask 4) :: byte) = 240"
    by (simp_all add: mask_eq_exp_minus_1)
  show "unat u < 0x800 \<Longrightarrow> ucast (ucast (TOP_BITS 2) OR drop_bit 6 u :: u32) = (word_of_nat (192 + unat u div 64) :: byte)"
    using or_lead [of "drop_bit 6 u" 6] unfolding bits_literals lits shift
    by (simp add: div_less_iff_less_mult)
  show "unat u < 0x10000 \<Longrightarrow> ucast (ucast (TOP_BITS 3) OR drop_bit 12 u :: u32) = (word_of_nat (224 + unat u div 4096) :: byte)"
    using or_lead [of "drop_bit 12 u" 5] unfolding bits_literals lits shift
    by (simp add: div_less_iff_less_mult)
  show "ucast (ucast (TOP_BITS 4) OR drop_bit 18 u :: u32) = (word_of_nat (240 + unat u div 262144) :: byte)"
    using or_lead [of "drop_bit 18 u" 4] assms unfolding bits_literals lits shift
    by (simp add: div_less_iff_less_mult)
qed

lemma cont_byte: "ucast (ucast (TOP_BITS 1) OR (x AND ucast (BOTTOM_BITS 6)) :: u32) = cont (unat x)"
proof -
  have m: "ucast (mask 6 :: byte) = (mask 6 :: u32)"
    by (rule bit_word_eqI) (auto simp: bit_simps)
  have lit: "unat (NOT (mask 7) :: byte) = 128"
    by (simp add: mask_eq_exp_minus_1)
  have "unat (x AND mask 6) = unat x mod 64"
    unfolding unat_and_mask by simp
  moreover from this have "unat (x AND mask 6) < 2 ^ 7"
    by (simp add: less_trans [OF mod_less_divisor])
  ultimately show ?thesis
    unfolding bits_literals m cont_def using or_lead [of "x AND mask 6" 7, unfolded lit] by simp
qed

text \<open>Every writer appends the encoding that its reader reads.\<close>

lemma u8_then:
  assumes "cbb_ok cbb" "\<And>cbb'. cbb_ok cbb' \<Longrightarrow> refines (a_add d bs) cbb' (f cbb')"
  shows "refines (a_add d (b # bs)) cbb (chk (CBB_add_u8 d b cbb) (\<lambda>_ cbb. f cbb))"
  using refines_chk [OF CBB_add_u8_refines [OF assms(1), of d b], of "a_add d bs" "\<lambda>_. f"] assms(2) by simp

lemma CBB_add_utf8_refines:
  assumes "cbb_ok cbb"
  shows "refines (a_add d (utf8_enc u)) cbb (CBB_add_utf8 d u cbb)"
proof (cases "is_valid_code_point u")
  case True
  note max = is_valid_code_point_max [OF True]
  have small: "unat u < 0x200000"
    using max by simp
  have drop: "unat (drop_bit 6 u) = unat u div 64" "unat (drop_bit 12 u) = unat u div 4096"
    unfolding unat_drop_bit_eq by (simp_all add: drop_bit_eq_div)
  have le: "u \<le> 0x7f \<longleftrightarrow> unat u < 0x80" "u \<le> 0x7ff \<longleftrightarrow> unat u < 0x800" "u \<le> 0xffff \<longleftrightarrow> unat u < 0x10000"
    "u \<le> 0x10ffff \<longleftrightarrow> unat u < 0x110000"
    by (auto simp: word_le_nat_alt)
  consider "unat u < 0x80" | "0x80 \<le> unat u" "unat u < 0x800" | "0x800 \<le> unat u" "unat u < 0x10000"
    | "0x10000 \<le> unat u"
    by linarith
  then show ?thesis
  proof cases
    case 1
    then have "utf8_enc u = [ucast u]"
      by (simp add: utf8_enc_def word_unat_eq_iff unat_ucast_down unat_of_nat)
    with 1 True CBB_add_u8_refines [OF assms] show ?thesis
      by (simp add: CBB_add_utf8_def le)
  next
    case 2
    then show ?thesis
      using True small assms unfolding CBB_add_utf8_def le cont_byte drop
      by (simp add: lead_bytes utf8_enc_def Let_def u8_then CBB_add_u8_refines)
  next
    case 3
    then show ?thesis
      using True small assms unfolding CBB_add_utf8_def le cont_byte drop
      by (simp add: lead_bytes utf8_enc_def Let_def u8_then CBB_add_u8_refines)
  next
    case 4
    then show ?thesis
      using True small max assms unfolding CBB_add_utf8_def le cont_byte drop
      by (simp add: lead_bytes utf8_enc_def Let_def u8_then CBB_add_u8_refines)
  qed
next
  case False
  with assms show ?thesis
    by (simp add: CBB_add_utf8_def refines_None)
qed

lemma CBB_add_latin1_refines:
  "cbb_ok cbb \<Longrightarrow> refines (a_add d (latin1_enc u)) cbb (CBB_add_latin1 d u cbb)"
  by (simp add: CBB_add_latin1_def latin1_enc_def CBB_add_u8_refines refines_None)

lemma CBB_add_ucs2_be_refines:
  assumes "cbb_ok cbb"
  shows "refines (a_add d (ucs2_enc u)) cbb (CBB_add_ucs2_be d u cbb)"
proof (cases "u \<le> 0xffff")
  case True
  then have "unat (ucast u :: u16) = unat u"
    by (simp add: word_le_nat_alt unat_ucast_down)
  with CBB_add_u16_refines [OF assms, of d "ucast u"] assms show ?thesis
    by (simp add: CBB_add_ucs2_be_def ucs2_enc_def refines_None)
next
  case False
  with assms show ?thesis
    by (simp add: CBB_add_ucs2_be_def refines_None)
qed

lemma CBB_add_utf32_be_refines:
  "cbb_ok cbb \<Longrightarrow> refines (a_add d (utf32_enc u)) cbb (CBB_add_utf32_be d u cbb)"
  by (simp add: CBB_add_utf32_be_def utf32_enc_def CBB_add_u32_refines refines_None)


lemma CBB_get_utf8_len_enc: "CBB_get_utf8_len u = length (utf8_enc u)"
  by (simp add: CBB_get_utf8_len_def utf8_enc_def Let_def word_le_nat_alt)

lemma CBB_add_utf8_valid: "CBB_add_utf8 d u cbb = (Some x, cbb') \<Longrightarrow> is_valid_code_point u"
  by (simp add: CBB_add_utf8_def split: if_splits)

text \<open>
  C34: what \<open>CBB_add_utf8\<close> appends is as long as \<open>CBB_get_utf8_len\<close> announces, and \<open>CBS_get_utf8\<close> reads the
  code point back from it.
\<close>

theorem utf8_write_read:
  assumes "cbb_ok cbb" "CBB_add_utf8 d u cbb = (Some x, cbb')"
  shows "\<exists>bs. cbb_abs cbb' = a_add d bs (cbb_abs cbb) \<and> length bs = CBB_get_utf8_len u \<and>
    CBS_get_utf8 (bs @ rest) = (Some u, rest)"
  using CBB_add_utf8_refines [OF assms(1), of d u] CBB_add_utf8_valid [OF assms(2)] assms(2)
  by (auto simp: refines_def CBB_get_utf8_len_enc utf8_read intro!: exI [of _ "utf8_enc u"])

definition utf8_cbb :: "bytes \<Rightarrow> nat \<Rightarrow> cbb" where
  "utf8_cbb buf len =
     \<lparr>cbb_base = \<lparr>b_buf = buf, b_len = len, b_cap = 3, b_can_resize = False, b_error = False\<rparr>,
      cbb_children = [], cbb_alloc = \<lparr>malloc_ok = (\<lambda>_. False), junk = (\<lambda>_. 0)\<rparr>\<rparr>"

lemma utf8_cbb_add:
  "len < 3 \<Longrightarrow> length buf = 3 \<Longrightarrow>
   CBB_add_u8 0 b (utf8_cbb buf len) = (Some (), utf8_cbb (take len buf @ b # drop (Suc len) buf) (Suc len))"
  using unat_byte_less [of b]
  by (simp add: utf8_cbb_def CBB_add_u8_def cbb_add_u_def CBB_add_space_def CBB_flush.simps cbb_on_base_def
      cbb_buffer_add_def cbb_buffer_reserve_def size_add_def SIZE_MOD_def buf_write_def list_update_append
      upd_conv_take_nth_drop Let_def unat_ucast_up)

text \<open>The euro sign.\<close>

lemma utf8_eval: "TOP_BITS 1 = 0x80" "TOP_BITS 3 = 0xe0" "BOTTOM_BITS 6 = 0x3f"
    "is_valid_code_point 0x20ac = True"
  by (simp_all add: TOP_BITS_def BOTTOM_BITS_def is_valid_code_point_def)

theorem utf8_write_read_witness:
  "\<exists>bs. cbb_abs (utf8_cbb [0xe2, 0x82, 0xac] 3) = a_add 0 bs (cbb_abs (utf8_cbb [0, 0, 0] 0)) \<and>
     length bs = CBB_get_utf8_len 0x20ac \<and> CBS_get_utf8 (bs @ [0x21]) = (Some 0x20ac, [0x21])"
proof (rule utf8_write_read)
  show "cbb_ok (utf8_cbb [0, 0, 0] 0)"
    by (simp add: utf8_cbb_def cbb_ok_def buf_ok_def SIZE_MOD_def)
  show "CBB_add_utf8 0 0x20ac (utf8_cbb [0, 0, 0] 0) = (Some (), utf8_cbb [0xe2, 0x82, 0xac] 3)"
    unfolding CBB_add_utf8_def utf8_eval by (simp add: utf8_cbb_add numeral_3_eq_3)
qed

end
