(* ===== verification/Ber.thy ===== *)
theory Ber
  imports Cbb_Correct
begin

text \<open>
  \<open>crypto/bytestring/ber.c\<close> and \<open>crypto/bytestring/asn1_compat.c\<close>: conversion of BER to DER, strings in
  fragments, and the hand-over of a finished builder to the \<open>i2d\<close> calling convention.

  \<open>cbs_find_ber\<close> is \<open>None\<close> when the C function returns 0 and the value of \<open>*ber_found\<close> otherwise. The
  converter returns the span after the call with the builder; the handle \<open>out\<close> is a depth in the chain
  of children, as in theory \<open>Cbb\<close>.
\<close>

section \<open>The code\<close>

definition CBS_ASN1_UTF8STRING :: u32 where "CBS_ASN1_UTF8STRING = 0xc"
definition CBS_ASN1_NUMERICSTRING :: u32 where "CBS_ASN1_NUMERICSTRING = 0x12"
definition CBS_ASN1_PRINTABLESTRING :: u32 where "CBS_ASN1_PRINTABLESTRING = 0x13"
definition CBS_ASN1_T61STRING :: u32 where "CBS_ASN1_T61STRING = 0x14"
definition CBS_ASN1_VIDEOTEXSTRING :: u32 where "CBS_ASN1_VIDEOTEXSTRING = 0x15"
definition CBS_ASN1_IA5STRING :: u32 where "CBS_ASN1_IA5STRING = 0x16"
definition CBS_ASN1_GRAPHICSTRING :: u32 where "CBS_ASN1_GRAPHICSTRING = 0x19"
definition CBS_ASN1_VISIBLESTRING :: u32 where "CBS_ASN1_VISIBLESTRING = 0x1a"
definition CBS_ASN1_GENERALSTRING :: u32 where "CBS_ASN1_GENERALSTRING = 0x1b"
definition CBS_ASN1_UNIVERSALSTRING :: u32 where "CBS_ASN1_UNIVERSALSTRING = 0x1c"
definition CBS_ASN1_BMPSTRING :: u32 where "CBS_ASN1_BMPSTRING = 0x1e"

definition kMaxDepth :: nat where "kMaxDepth = 128"

definition is_string_type :: "u32 \<Rightarrow> bool" where
  "is_string_type tag \<longleftrightarrow>
     tag AND NOT CBS_ASN1_CONSTRUCTED \<in>
       {CBS_ASN1_OCTETSTRING, CBS_ASN1_UTF8STRING, CBS_ASN1_NUMERICSTRING, CBS_ASN1_PRINTABLESTRING,
        CBS_ASN1_T61STRING, CBS_ASN1_VIDEOTEXSTRING, CBS_ASN1_IA5STRING, CBS_ASN1_GRAPHICSTRING,
        CBS_ASN1_VISIBLESTRING, CBS_ASN1_GENERALSTRING, CBS_ASN1_UNIVERSALSTRING, CBS_ASN1_BMPSTRING}"

text \<open>
  What every element the reader returns satisfies: it is a front of the span, with a header of at
  least two bytes.
\<close>

lemma CBS_get_bytes_Some: "CBS_get_bytes s n = (Some out, s') \<longleftrightarrow> n \<le> length s \<and> out = take n s \<and> s' = drop n s"
  by (auto simp: CBS_get_bytes_eq)

lemma be_val_take_less: "n \<le> 4 \<Longrightarrow> be_val (take n bs) < 2 ^ 32"
proof -
  assume "n \<le> 4"
  then have "(256 :: nat) ^ length (take n bs) \<le> 256 ^ 4"
    by (intro power_increasing) simp_all
  with be_val_less [of "take n bs"] show ?thesis by simp
qed

lemma ber_finish_bounds:
  assumes "chk (CBS_get_bytes s len) (\<lambda>out cbs. (Some \<lparr>elt_out = out, elt_tag = tag, elt_header_len = hl,
      elt_ber_found = b, elt_indefinite = i\<rparr>, cbs)) = (Some e, s')" "2 \<le> hl" "hl \<le> len" "len < SIZE_MOD"
  shows "s = elt_out e @ s' \<and> 2 \<le> elt_header_len e \<and> elt_header_len e \<le> length (elt_out e) \<and>
    length (elt_out e) < SIZE_MOD \<and> elt_tag e = tag"
  using assms by (auto simp: chk_Some_iff CBS_get_bytes_Some)

lemma ber_element_bounds:
  assumes "CBS_get_any_ber_asn1_element s = (Some e, s')"
  shows "s = elt_out e @ s' \<and> 2 \<le> elt_header_len e \<and> elt_header_len e \<le> length (elt_out e) \<and>
    length (elt_out e) < SIZE_MOD \<and> valid_tag (elt_tag e)"
proof -
  obtain tag l r where tag: "parse_asn1_tag s = (Some tag, l # r)"
  proof (cases "parse_asn1_tag s")
    case (Pair t h)
    with assms that show thesis
      by (cases t; cases h) (auto simp: CBS_get_any_ber_asn1_element_def cbs_get_any_asn1_element_def)
  qed
  then have s: "s = der_tag tag @ l # r" "valid_tag tag"
    using asn1_tag.rd_canonical by blast+
  have hl: "CBS_len s - CBS_len r = length (der_tag tag) + 1"
    by (simp add: s CBS_len_def)
  have t: "1 \<le> length (der_tag tag)"
    using der_tag_nonempty [of tag] by (cases "der_tag tag") simp_all
  note run = assms [unfolded CBS_get_any_ber_asn1_element_def cbs_get_any_asn1_element_def tag prod.case option.case
      CBS_get_u8_simps Let_def hl simp_thms]
  let ?n = "unat (l AND 0x7f)"
  show ?thesis
  proof (cases "l AND 0x80 = 0")
    case True
    show ?thesis
      using ber_finish_bounds [OF run [unfolded if_P [OF True]]] t s(2) der_tag_length [of tag] unat_byte_less [of l]
      by (simp add: SIZE_MOD_def)
  next
    case long: False
    note run = run [unfolded if_not_P [OF long]]
    show ?thesis
    proof (cases "tag AND CBS_ASN1_CONSTRUCTED \<noteq> 0 \<and> ?n = 0")
      case True
      from run [unfolded if_P [OF True]] show ?thesis
        using ber_finish_bounds [OF run [unfolded if_P [OF True]]] t s(2) der_tag_length [of tag] unat_byte_less [of l]
      by (simp add: SIZE_MOD_def)
    next
      case False
      note run = run [unfolded if_not_P [OF False]]
      have n: "\<not> (?n = 0 \<or> ?n > 4)"
      proof
        assume *: "?n = 0 \<or> ?n > 4"
        from run [unfolded if_P [OF *]] show False by simp
      qed
      note run = run [unfolded if_not_P [OF n]]
      obtain len where len: "cbs_get_u r ?n = (Some len, drop ?n r)" "unat len < 2 ^ 32"
      proof (cases "length r < ?n")
        case True
        with run n show thesis by (simp add: cbs_get_u_eq)
      next
        case False
        have "be_val (take ?n r) < 2 ^ 32"
          using n by (intro be_val_take_less) simp
        moreover from this have "unat (word_of_nat (be_val (take ?n r)) :: u64) = be_val (take ?n r)"
          by (intro unat_word_of_nat_small) simp
        ultimately show thesis
          using that [of "word_of_nat (be_val (take ?n r))"] False n by (simp add: cbs_get_u_eq)
      qed
      have sums: "size_add (size_add (unat len) (length (der_tag tag) + 1)) ?n = unat len + (length (der_tag tag) + 1) + ?n"
        "size_add (unat len) (size_add (length (der_tag tag) + 1) ?n) = unat len + (length (der_tag tag) + 1) + ?n"
        using size_add_exact_3 [of "unat len" "length (der_tag tag) + 1" ?n] len(2) der_tag_length [of tag] n
        by (simp_all add: SIZE_MOD_def)
      from run [unfolded len prod.case option.case sums] show ?thesis
        using t s(2) len(2) n der_tag_length [of tag]
        by (auto simp: SIZE_MOD_def split: if_splits dest!: ber_finish_bounds)
    qed
  qed
qed

lemma ber_rest_shorter:
  assumes "(Some e, in_rest) = CBS_get_any_ber_asn1_element in_cbs"
  shows "length in_rest < length in_cbs"
proof -
  have b: "in_cbs = elt_out e @ in_rest" "2 \<le> elt_header_len e" "elt_header_len e \<le> length (elt_out e)"
    using ber_element_bounds [OF assms [symmetric]] by simp_all
  then have "0 < length (elt_out e)" by linarith
  with b(1) show ?thesis by simp
qed

lemma ber_body_shorter:
  assumes "(Some e, in_rest) = CBS_get_any_ber_asn1_element in_cbs"
    "(Some u, body) = CBS_skip (elt_out e) (elt_header_len e)"
  shows "length body < length in_cbs"
proof -
  have b: "in_cbs = elt_out e @ in_rest" "2 \<le> elt_header_len e" "elt_header_len e \<le> length (elt_out e)"
    using ber_element_bounds [OF assms(1) [symmetric]] by simp_all
  moreover have "body = drop (elt_header_len e) (elt_out e)"
    using assms(2) [symmetric] by (simp add: CBS_skip_Some)
  moreover from this b have "length body < length (elt_out e)"
    by simp
  ultimately show ?thesis by simp
qed

text \<open>The loop of \<open>cbs_find_ber\<close> at a depth that has been checked.\<close>

function find_ber_loop :: "nat \<Rightarrow> CBS \<Rightarrow> bool option" where
  "find_ber_loop depth in_cbs =
     (if CBS_len in_cbs = 0 then Some False
      else case CBS_get_any_ber_asn1_element in_cbs of (None, _) \<Rightarrow> None | (Some e, in_rest) \<Rightarrow>
       (if elt_ber_found e then Some True
        else if elt_tag e AND CBS_ASN1_CONSTRUCTED \<noteq> 0
        then if is_string_type (elt_tag e) then Some True
             else (case CBS_skip (elt_out e) (elt_header_len e) of (None, _) \<Rightarrow> None | (Some _, body) \<Rightarrow>
               (case (if depth + 1 > kMaxDepth then None else find_ber_loop (depth + 1) body) of
                  None \<Rightarrow> None
                | Some ber_found \<Rightarrow> if ber_found then Some True else find_ber_loop depth in_rest))
        else find_ber_loop depth in_rest))"
  by pat_completeness auto

termination
  by (relation "measure (\<lambda>(_, cbs). length cbs)") (auto simp: ber_rest_shorter ber_body_shorter)

declare find_ber_loop.simps [simp del]

definition cbs_find_ber :: "CBS \<Rightarrow> nat \<Rightarrow> bool option" where
  "cbs_find_ber orig_in depth = (if depth > kMaxDepth then None else find_ber_loop depth orig_in)"

definition cbs_get_eoc :: "CBS \<Rightarrow> CBS option" where
  "cbs_get_eoc cbs =
     (if CBS_len cbs \<ge> 2 \<and> CBS_data cbs ! 0 = 0 \<and> CBS_data cbs ! 1 = 0
      then (case CBS_skip cbs 2 of (None, _) \<Rightarrow> None | (Some _, cbs) \<Rightarrow> Some cbs)
      else None)"

text \<open>
  Where the body of an element goes, and the tag its children must have: the fragments of a string
  are added to \<open>out\<close> itself, any other element opens a child of it.
\<close>

definition open_element :: "u32 \<Rightarrow> nat \<Rightarrow> u32 \<Rightarrow> cbb \<Rightarrow> (nat \<times> u32) option \<times> cbb" where
  "open_element string_tag out tag cbb =
     (if string_tag \<noteq> 0
      then if tag AND NOT CBS_ASN1_CONSTRUCTED \<noteq> string_tag then (None, cbb) else (Some (out, string_tag), cbb)
      else
        let (out_tag, child_string_tag) =
          (if tag AND CBS_ASN1_CONSTRUCTED \<noteq> 0 \<and> is_string_type tag
           then (tag AND NOT CBS_ASN1_CONSTRUCTED, tag AND NOT CBS_ASN1_CONSTRUCTED)
           else (tag, string_tag))
        in chk (CBB_add_asn1 out out_tag cbb) (\<lambda>_ cbb. (Some (Suc out, child_string_tag), cbb)))"

text \<open>The loop of \<open>cbs_convert_ber\<close> at a depth that has been checked.\<close>

function convert_ber_loop :: "nat \<Rightarrow> bool \<Rightarrow> u32 \<Rightarrow> nat \<Rightarrow> CBS \<Rightarrow> cbb \<Rightarrow> CBS option \<times> cbb" where
  "convert_ber_loop depth looking_for_eoc string_tag out in_cbs cbb =
     (if CBS_len in_cbs = 0 then (if looking_for_eoc then None else Some in_cbs, cbb)
      else case (if looking_for_eoc then cbs_get_eoc in_cbs else None) of Some in_rest \<Rightarrow> (Some in_rest, cbb)
      | None \<Rightarrow>
      case CBS_get_any_ber_asn1_element in_cbs of (None, _) \<Rightarrow> (None, cbb) | (Some e, in_rest) \<Rightarrow>
      chk (open_element string_tag out (elt_tag e) cbb) (\<lambda>target cbb.
        if elt_indefinite e
        then chk (if depth + 1 > kMaxDepth then (None, cbb)
                  else convert_ber_loop (depth + 1) True (snd target) (fst target) in_rest cbb) (\<lambda>in_rest cbb.
             chk (CBB_flush out cbb) (\<lambda>_ cbb.
             convert_ber_loop depth looking_for_eoc string_tag out in_rest cbb))
        else case CBS_skip (elt_out e) (elt_header_len e) of (None, _) \<Rightarrow> (None, cbb) | (Some _, body) \<Rightarrow>
          chk (if elt_tag e AND CBS_ASN1_CONSTRUCTED \<noteq> 0
               then chk (if depth + 1 > kMaxDepth then (None, cbb)
                         else convert_ber_loop (depth + 1) False (snd target) (fst target) body cbb)
                      (\<lambda>_ cbb. (Some (), cbb))
               else CBB_add_bytes (fst target) (CBS_data body) (CBS_len body) cbb) (\<lambda>_ cbb.
          chk (CBB_flush out cbb) (\<lambda>_ cbb.
          convert_ber_loop depth looking_for_eoc string_tag out in_rest cbb))))"
  by pat_completeness auto

text \<open>
  The span that a successful call returns is no longer than the one it was given. This is what makes
  the loop end, since after an element of indefinite length it goes on with the span that the inner
  call returned.
\<close>

lemma cbs_get_eoc_Some: "cbs_get_eoc s = Some s' \<Longrightarrow> s = 0 # 0 # s'"
  by (cases s; cases "tl s") (auto simp: cbs_get_eoc_def CBS_len_def CBS_data_def CBS_skip_eq split: if_splits)

lemma convert_ber_loop_length:
  assumes "convert_ber_loop_dom (depth, eoc, string_tag, out, in_cbs, cbb)"
  shows "convert_ber_loop depth eoc string_tag out in_cbs cbb = (Some r, cbb') \<Longrightarrow> length r \<le> length in_cbs"
  using assms
proof (induction arbitrary: r cbb' rule: convert_ber_loop.pinduct)
  case (1 depth eoc string_tag out in_cbs cbb)
  note run = "1.prems" [unfolded convert_ber_loop.psimps [OF "1.hyps"]]
  consider "in_cbs = []" | "eoc" "cbs_get_eoc in_cbs = Some r"
    | "in_cbs \<noteq> []" "(if eoc then cbs_get_eoc in_cbs else None) = None"
    using run by (auto simp: CBS_len_def split: if_splits option.splits)
  then show ?case
  proof cases
    case 1
    with run show ?thesis by (simp add: CBS_len_def split: if_splits)
  next
    case 2
    then show ?thesis using cbs_get_eoc_Some [of in_cbs r] by simp
  next
    case 3
    then have ne: "\<not> CBS_len in_cbs = 0"
      by (simp add: CBS_len_def)
    note run = run [unfolded if_not_P [OF ne] 3(2) option.case]
    obtain e in_rest where e: "CBS_get_any_ber_asn1_element in_cbs = (Some e, in_rest)"
      using run by (auto split: prod.splits option.splits)
    obtain target c1 where o: "open_element string_tag out (elt_tag e) cbb = (Some target, c1)"
      using run [unfolded e prod.case option.case chk_Some_iff] by blast
    note run = run [unfolded e prod.case option.case o chk_simps]
    note shorter = ber_rest_shorter [OF e [symmetric]]
    show ?thesis
    proof (cases "elt_indefinite e")
      case True
      obtain in2 c2 u c3 where inner: "(if depth + 1 > kMaxDepth then (None, c1)
            else convert_ber_loop (depth + 1) True (snd target) (fst target) in_rest c1) = (Some in2, c2)"
        and f: "CBB_flush out c2 = (Some u, c3)" "convert_ber_loop depth eoc string_tag out in2 c3 = (Some r, cbb')"
        using run [unfolded if_P [OF True] chk_Some_iff] by blast
      from inner have d: "\<not> kMaxDepth < depth + 1"
        and c: "convert_ber_loop (depth + 1) True (snd target) (fst target) in_rest c1 = (Some in2, c2)"
        by (simp_all split: if_splits)
      have "length in2 \<le> length in_rest"
        by (rule "1.IH"(1) [OF ne 3(2) e [symmetric] refl o True d c])
      moreover have "length r \<le> length in2"
        by (rule "1.IH"(2) [OF ne 3(2) e [symmetric] refl o True inner f])
      ultimately show ?thesis using shorter by simp
    next
      case False
      note run = run [unfolded if_not_P [OF False]]
      obtain w body where skip: "CBS_skip (elt_out e) (elt_header_len e) = (Some w, body)"
        using run by (auto split: prod.splits option.splits)
      obtain x c2 u c3 where inner: "(if elt_tag e AND CBS_ASN1_CONSTRUCTED \<noteq> 0
             then chk (if depth + 1 > kMaxDepth then (None, c1)
                       else convert_ber_loop (depth + 1) False (snd target) (fst target) body c1)
                    (\<lambda>_ cbb. (Some (), cbb))
             else CBB_add_bytes (fst target) (CBS_data body) (CBS_len body) c1) = (Some x, c2)"
        and f: "CBB_flush out c2 = (Some u, c3)" "convert_ber_loop depth eoc string_tag out in_rest c3 = (Some r, cbb')"
        using run [unfolded skip prod.case option.case chk_Some_iff] by (auto simp: chk_Some_iff)
      have "length r \<le> length in_rest"
        by (rule "1.IH"(4) [OF ne 3(2) e [symmetric] refl o False skip [symmetric] refl inner f])
      with shorter show ?thesis by simp
    qed
  qed
qed

lemma convert_ber_loop_total: "All convert_ber_loop_dom"
proof (relation "measure (\<lambda>(_, _, _, _, cbs, _). length cbs)", goal_cases)
  case (3 depth eoc string_tag out in_cbs cbb x in_rest e target c1 in2 c2 u c3)
  then have "length in2 \<le> length in_rest"
    by (auto split: if_splits intro!: convert_ber_loop_length)
  moreover have "length in_rest < length in_cbs"
    using 3 by (simp add: ber_rest_shorter)
  ultimately show ?case by simp
qed (auto simp: ber_rest_shorter ber_body_shorter)

termination convert_ber_loop
  by (rule convert_ber_loop_total)

lemmas convert_ber_loop_result_length = convert_ber_loop_length [OF convert_ber_loop_total [THEN spec]]

declare convert_ber_loop.simps [simp del]

definition cbs_convert_ber :: "CBS \<Rightarrow> nat \<Rightarrow> u32 \<Rightarrow> bool \<Rightarrow> nat \<Rightarrow> cbb \<Rightarrow> CBS option \<times> cbb" where
  "cbs_convert_ber in_cbs out string_tag looking_for_eoc depth cbb =
     (if depth > kMaxDepth then (None, cbb)
      else convert_ber_loop depth looking_for_eoc string_tag out in_cbs cbb)"

text \<open>
  On success: the span \<open>*out\<close>, the buffer \<open>*out_storage\<close> (\<open>None\<close> for \<open>NULL\<close>) and the span \<open>*in\<close>.
\<close>

definition CBS_asn1_ber_to_der :: "allocator \<Rightarrow> CBS \<Rightarrow> (CBS \<times> bytes option \<times> CBS) option" where
  "CBS_asn1_ber_to_der al in_cbs =
     (case cbs_find_ber in_cbs 0 of None \<Rightarrow> None | Some conversion_needed \<Rightarrow>
      if \<not> conversion_needed
      then (case CBS_get_any_asn1_element in_cbs of
              (None, _) \<Rightarrow> None
            | (Some e, in_rest) \<Rightarrow> Some (elt_out e, None, in_rest))
      else
       (case CBB_init al (CBS_len in_cbs) of None \<Rightarrow> None | Some cbb \<Rightarrow>
       (case cbs_convert_ber in_cbs 0 0 False 0 cbb of (None, _) \<Rightarrow> None | (Some in_rest, cbb) \<Rightarrow>
       (case CBB_finish 0 True True cbb of (None, _) \<Rightarrow> None | (Some (storage, len), _) \<Rightarrow>
          Some (CBS_init storage len, Some storage, in_rest)))))"

text \<open>The fragments of an implicitly tagged string.\<close>

function implicit_string_loop :: "u32 \<Rightarrow> CBS \<Rightarrow> cbb \<Rightarrow> unit option \<times> cbb" where
  "implicit_string_loop inner_tag child result =
     (if CBS_len child > 0
      then (case CBS_get_asn1 child inner_tag of (None, _) \<Rightarrow> (None, result) | (Some chunk, child) \<Rightarrow>
        chk (CBB_add_bytes 0 (CBS_data chunk) (CBS_len chunk) result) (\<lambda>_ result.
          implicit_string_loop inner_tag child result))
      else (Some (), result))"
  by pat_completeness auto

lemma CBS_get_asn1_shorter: "(Some body, rest) = CBS_get_asn1 s tag \<Longrightarrow> length rest < length s"
proof -
  assume "(Some body, rest) = CBS_get_asn1 s tag"
  then have "s = der_element tag body @ rest"
    using CBS_get_asn1_Some [of s tag body rest] by simp
  then show ?thesis by (simp add: der_element_def)
qed

termination implicit_string_loop
  by (relation "measure (\<lambda>(_, child, _). length child)") (auto simp: CBS_get_asn1_shorter)

definition CBS_get_asn1_implicit_string ::
    "allocator \<Rightarrow> CBS \<Rightarrow> u32 \<Rightarrow> u32 \<Rightarrow> (CBS \<times> bytes option \<times> CBS) option" where
  "CBS_get_asn1_implicit_string al in_cbs outer_tag inner_tag =
     (if CBS_peek_asn1_tag in_cbs outer_tag
      then (case CBS_get_asn1 in_cbs outer_tag of (None, _) \<Rightarrow> None | (Some out, in_rest) \<Rightarrow> Some (out, None, in_rest))
      else
       (case CBB_init al (CBS_len in_cbs) of None \<Rightarrow> None | Some result \<Rightarrow>
       (case CBS_get_asn1 in_cbs (outer_tag OR CBS_ASN1_CONSTRUCTED) of (None, _) \<Rightarrow> None | (Some child, in_rest) \<Rightarrow>
       (case implicit_string_loop inner_tag child result of (None, _) \<Rightarrow> None | (Some _, result) \<Rightarrow>
       (case CBB_finish 0 True True result of (None, _) \<Rightarrow> None | (Some (data, len), _) \<Rightarrow>
          Some (CBS_init data len, Some data, in_rest))))))"

text \<open>
  \<open>outp\<close> of \<open>CBB_finish_i2d\<close>: \<open>NULL\<close>, a pointer to \<open>NULL\<close>, or a pointer to a position in the caller's
  buffer.
\<close>

datatype outp = OutNull | OutAlloc | OutBuf bytes nat

definition CBB_finish_i2d :: "cbb \<Rightarrow> outp \<Rightarrow> (nat \<times> outp) option" where
  "CBB_finish_i2d cbb outp =
     (case CBB_finish 0 True True cbb of
        (None, _) \<Rightarrow> None
      | (Some (der, der_len), _) \<Rightarrow>
          if der_len > 2147483647 then None
          else Some (der_len,
            case outp of
              OutNull \<Rightarrow> OutNull
            | OutAlloc \<Rightarrow> OutBuf der 0
            | OutBuf buf pos \<Rightarrow> OutBuf (buf_write buf pos (take der_len der)) (pos + der_len)))"

section \<open>What conversion produces\<close>

text \<open>
  Byte strings that are sequences of DER elements all the way down, with no string in fragments.
\<close>

inductive der :: "bytes \<Rightarrow> bool" where
  der_Nil: "der []"
| der_Cons: "valid_tag tag \<Longrightarrow> length body < 2 ^ 32 \<Longrightarrow>
    (tag AND CBS_ASN1_CONSTRUCTED \<noteq> 0 \<longrightarrow> \<not> is_string_type tag \<and> der body) \<Longrightarrow>
    der rest \<Longrightarrow> der (der_element tag body @ rest)"

lemma der_append: "der x \<Longrightarrow> der y \<Longrightarrow> der (x @ y)"
  by (induction rule: der.induct) (simp_all add: der.intros)

lemma ber_not_found:
  assumes "CBS_get_any_ber_asn1_element s = (Some e, s')" "\<not> elt_ber_found e"
  shows "CBS_get_any_asn1_element s = (Some e, s')"
  using assms
  by (auto simp: CBS_get_any_ber_asn1_element_def CBS_get_any_asn1_element_def cbs_get_any_asn1_element_def Let_def
      chk_Some_iff split: prod.splits option.splits if_splits)

lemma find_ber_loop_der: "find_ber_loop depth s = Some False \<Longrightarrow> der s"
proof (induction depth s rule: find_ber_loop.induct)
  case (1 depth s)
  show ?case
  proof (cases "s = []")
    case False
    then have ne: "\<not> CBS_len s = 0"
      by (simp add: CBS_len_def)
    note run = "1.prems" [unfolded find_ber_loop.simps [of depth s] if_not_P [OF ne]]
    obtain e rest where e: "CBS_get_any_ber_asn1_element s = (Some e, rest)"
      using run by (auto split: prod.splits option.splits)
    have nf: "\<not> elt_ber_found e"
      using run by (auto simp: e split: if_splits)
    obtain body where b: "s = elt_out e @ rest" "elt_out e = der_element (elt_tag e) body"
      "elt_header_len e = length (der_tag (elt_tag e)) + length (der_length (length body))"
      "valid_tag (elt_tag e)" "length body < 2 ^ 32"
      using der_element_canonical [OF ber_not_found [OF e nf]] by blast
    then have skip: "CBS_skip (elt_out e) (elt_header_len e) = (Some (), body)"
      by (simp add: CBS_skip_Some der_element_def)
    note run = run [unfolded e prod.case option.case if_not_P [OF nf] skip]
    have "der (der_element (elt_tag e) body @ rest)"
    proof (cases "elt_tag e AND CBS_ASN1_CONSTRUCTED \<noteq> 0")
      case True
      note run = run [unfolded if_P [OF True]]
      have str: "\<not> is_string_type (elt_tag e)"
        using run by (auto split: if_splits)
      have d: "\<not> depth + 1 > kMaxDepth" "find_ber_loop (depth + 1) body = Some False"
        "find_ber_loop depth rest = Some False"
        using run str by (auto split: if_splits option.splits)
      have "der body"
        by (rule "1.IH"(1) [OF ne e [symmetric] refl nf True str skip [symmetric] refl d(1,2)])
      moreover have "der rest"
      proof -
        have "(if depth + 1 > kMaxDepth then None else find_ber_loop (depth + 1) body) = Some False"
          using d by simp
        from "1.IH"(2) [OF ne e [symmetric] refl nf True str skip [symmetric] refl this _ d(3)] show ?thesis
          by simp
      qed
      ultimately show ?thesis
        using b(4,5) str by (intro der_Cons) simp_all
    next
      case False
      then have "find_ber_loop depth rest = Some False"
        using run by simp
      then have "der rest"
        using "1.IH"(3) [OF ne e [symmetric] refl nf] False by simp
      with False b(4,5) show ?thesis
        by (intro der_Cons) simp_all
    qed
    with b(1,2) show ?thesis by simp
  qed (simp add: der_Nil)
qed

lemma last_segments_snoc: "List.last (segments start (cs @ [c]) bs) = drop (child_start c) bs"
  by (induction cs arbitrary: start) simp_all

lemma CBB_flush_fits:
  assumes "cbb_ok cbb" "length (cbb_children cbb) = Suc d" "CBB_flush d cbb = (Some u, cbb')"
  shows "fits (List.last (fst (cbb_abs cbb))) (List.last (snd (cbb_abs cbb)))"
proof -
  obtain cs c where cs: "cbb_children cbb = cs @ [c]" "length cs = d"
    using assms(2) by (cases "cbb_children cbb" rule: rev_cases) auto
  have err: "\<not> b_error (cbb_base cbb)"
    by (rule CBB_flush_Some(4) [OF assms(1,3)])
  have "CBB_flush (Suc d) cbb = (Some (), cbb)"
    using assms(2) err by (rule CBB_flush_clean)
  then obtain base where "cbb_flush_child (cbb_alloc cbb) (cbb_base cbb) c = (Some (), base)"
    using assms(3) cs err
    by (cases "cbb_flush_child (cbb_alloc cbb) (cbb_base cbb) c"; cases "fst (cbb_flush_child (cbb_alloc cbb) (cbb_base cbb) c)")
      (auto simp: CBB_flush.simps [of d] nth_append cbb_or_error_def cbb_on_base_def)
  moreover have "buf_ok (cbb_base cbb)" "child_ok c" "child_start c \<le> b_len (cbb_base cbb)"
    using assms(1) cs by (auto simp: cbb_ok_def children_ok_append)
  ultimately have "fits (child_kind c) (drop (child_start c) (contents (cbb_base cbb)))"
    using flush_child_Some by blast
  then show ?thesis
    by (simp add: cbb_abs_def builder_of_def cs last_segments_snoc)
qed

lemma ber_indefinite:
  assumes "CBS_get_any_ber_asn1_element s = (Some e, rest)" "elt_indefinite e"
  shows "elt_tag e AND CBS_ASN1_CONSTRUCTED \<noteq> 0"
  using assms by (auto simp: CBS_get_any_ber_asn1_element_def cbs_get_any_asn1_element_def Let_def
      chk_Some_iff split: prod.splits option.splits if_splits)

text \<open>One turn of the conversion loop.\<close>

lemma convert_ber_loop_cases:
  assumes "convert_ber_loop depth eoc string_tag out s cbb = (Some r, cbb')"
  obtains (finished) "s = []" "\<not> eoc" "r = []" "cbb' = cbb"
    | (eoc) "eoc" "s = 0 # 0 # r" "cbb' = cbb"
    | (element) e rest target c1 body c2 t c3 u where
        "CBS_get_any_ber_asn1_element s = (Some e, rest)"
        "open_element string_tag out (elt_tag e) cbb = (Some target, c1)"
        "length t \<le> length rest" "CBB_flush out c2 = (Some u, c3)"
        "convert_ber_loop depth eoc string_tag out t c3 = (Some r, cbb')"
        "elt_tag e AND CBS_ASN1_CONSTRUCTED \<noteq> 0 \<and> length body < length s \<and>
         (\<exists>b w. convert_ber_loop (depth + 1) b (snd target) (fst target) body c1 = (Some w, c2)) \<or>
         elt_tag e AND CBS_ASN1_CONSTRUCTED = 0 \<and> length body < SIZE_MOD \<and>
         (\<exists>w. CBB_add_bytes (fst target) body (length body) c1 = (Some w, c2))"
proof -
  note run = assms [unfolded convert_ber_loop.simps [of depth eoc string_tag out s cbb]]
  consider "s = []" | "eoc" "cbs_get_eoc s = Some r" | "s \<noteq> []" "(if eoc then cbs_get_eoc s else None) = None"
    using run by (auto simp: CBS_len_def split: if_splits option.splits)
  then show thesis
  proof cases
    case 1
    with run finished show thesis by (simp add: CBS_len_def split: if_splits)
  next
    case 2
    then have s: "s = 0 # 0 # r"
      by (simp add: cbs_get_eoc_Some)
    then have ne: "\<not> CBS_len s = 0"
      by (simp add: CBS_len_def)
    have "(if eoc then cbs_get_eoc s else None) = Some r"
      using 2 by simp
    from run [unfolded if_not_P [OF ne] this option.case] s have "cbb' = cbb" "s = 0 # 0 # r"
      by simp_all
    with 2 eoc show thesis by blast
  next
    case 3
    then have ne: "\<not> CBS_len s = 0"
      by (simp add: CBS_len_def)
    note run = run [unfolded if_not_P [OF ne] 3(2) option.case]
    obtain e rest where e: "CBS_get_any_ber_asn1_element s = (Some e, rest)"
      using run by (auto split: prod.splits option.splits)
    obtain target c1 where o: "open_element string_tag out (elt_tag e) cbb = (Some target, c1)"
      using run [unfolded e prod.case option.case chk_Some_iff] by blast
    note run = run [unfolded e prod.case option.case o chk_simps]
    show thesis
    proof (cases "elt_indefinite e")
      case True
      obtain t c2 u c3 where inner: "(if depth + 1 > kMaxDepth then (None, c1)
            else convert_ber_loop (depth + 1) True (snd target) (fst target) rest c1) = (Some t, c2)"
        and f: "CBB_flush out c2 = (Some u, c3)" "convert_ber_loop depth eoc string_tag out t c3 = (Some r, cbb')"
        using run [unfolded if_P [OF True] chk_Some_iff] by blast
      then have c: "convert_ber_loop (depth + 1) True (snd target) (fst target) rest c1 = (Some t, c2)"
        by (simp split: if_splits)
      have "length t \<le> length rest"
        by (rule convert_ber_loop_result_length [OF c])
      from element [OF e o this f] c ber_indefinite [OF e True] ber_rest_shorter [OF e [symmetric]] show thesis
        by blast
    next
      case False
      note run = run [unfolded if_not_P [OF False]]
      obtain w body where skip: "CBS_skip (elt_out e) (elt_header_len e) = (Some w, body)"
        using run by (auto split: prod.splits option.splits)
      obtain x c2 u c3 where inner: "(if elt_tag e AND CBS_ASN1_CONSTRUCTED \<noteq> 0
             then chk (if depth + 1 > kMaxDepth then (None, c1)
                       else convert_ber_loop (depth + 1) False (snd target) (fst target) body c1)
                    (\<lambda>_ cbb. (Some (), cbb))
             else CBB_add_bytes (fst target) (CBS_data body) (CBS_len body) c1) = (Some x, c2)"
        and f: "CBB_flush out c2 = (Some u, c3)" "convert_ber_loop depth eoc string_tag out rest c3 = (Some r, cbb')"
        using run [unfolded skip prod.case option.case chk_Some_iff] by (auto simp: chk_Some_iff)
      have "length body < SIZE_MOD"
        using skip ber_element_bounds [OF e] by (auto simp: CBS_skip_Some)
      with inner ber_body_shorter [OF e [symmetric] skip [symmetric]] show thesis
        by (intro element [OF e o le_refl f, of body])
          (auto simp: chk_Some_iff CBS_data_def CBS_len_def split: if_splits)
    qed
  qed
qed

text \<open>Opening an element: which contents its body may have, and what closing it adds.\<close>

lemma valid_tag_clear: "valid_tag tag \<Longrightarrow> valid_tag (tag AND NOT CBS_ASN1_CONSTRUCTED)"
  by (simp add: valid_tag_def and.assoc)

lemma open_element_cases:
  assumes "open_element string_tag out tag cbb = (Some target, c1)" "valid_tag tag" "cbb_ok cbb"
    "length (cbb_children cbb) = out" "\<not> b_error (cbb_base cbb)"
  obtains (fragment) "string_tag \<noteq> 0" "target = (out, string_tag)" "c1 = cbb"
    | (child) out_tag where "string_tag = 0" "valid_tag out_tag" "CBB_add_asn1 out out_tag cbb = (Some (), c1)"
        "fst target = Suc out"
        "out_tag AND CBS_ASN1_CONSTRUCTED \<noteq> 0 \<longrightarrow> \<not> is_string_type out_tag \<and> snd target = 0"
        "tag AND CBS_ASN1_CONSTRUCTED = 0 \<longrightarrow> out_tag = tag"
proof (cases "string_tag = 0")
  case False
  with assms(1) fragment show thesis
    by (auto simp: open_element_def split: if_splits)
next
  case True
  have clear: "(tag AND NOT CBS_ASN1_CONSTRUCTED) AND CBS_ASN1_CONSTRUCTED = 0"
    by (simp add: and.assoc)
  show thesis
  proof (cases "tag AND CBS_ASN1_CONSTRUCTED \<noteq> 0 \<and> is_string_type tag")
    case str: True
    with True assms(1) have "CBB_add_asn1 out (tag AND NOT CBS_ASN1_CONSTRUCTED) cbb = (Some (), c1)"
      "fst target = Suc out"
      by (auto simp: open_element_def chk_Some_iff)
    with child [OF True valid_tag_clear [OF assms(2)]] str clear show thesis
      by simp
  next
    case False
    with True assms(1) have "CBB_add_asn1 out tag cbb = (Some (), c1)" "target = (Suc out, 0)"
      by (auto simp: open_element_def chk_Some_iff)
    with child [OF True assms(2)] False show thesis
      by auto
  qed
qed

text \<open>The innermost child of a builder to which \<open>bs\<close> has been added after opening.\<close>

lemma open_add_last:
  assumes "length (fst (a_flush d (a_add d x b))) \<le> d"
  shows "List.last (fst (a_add (Suc d) bs (a_open d k (a_add d x b)))) = k"
    "List.last (snd (a_add (Suc d) bs (a_open d k (a_add d x b)))) = bs"
proof -
  have "a_flush (Suc d) (a_open d k (a_add d x b)) = a_open d k (a_add d x b)"
    using assms by (intro a_flush_small) (simp add: a_open_def)
  then show "List.last (fst (a_add (Suc d) bs (a_open d k (a_add d x b)))) = k"
    "List.last (snd (a_add (Suc d) bs (a_open d k (a_add d x b)))) = bs"
    by (simp_all add: a_add_def a_open_def put_last_def)
qed

text \<open>What a call of the converter adds to \<open>out\<close>: DER, unless it is collecting fragments.\<close>

lemma convert_ber_loop_der:
  "convert_ber_loop depth eoc string_tag out s cbb = (Some r, cbb') \<Longrightarrow> cbb_ok cbb \<Longrightarrow>
   length (cbb_children cbb) = out \<Longrightarrow> \<not> b_error (cbb_base cbb) \<Longrightarrow>
   cbb_ok cbb' \<and> length (cbb_children cbb') = out \<and> \<not> b_error (cbb_base cbb') \<and>
   (\<exists>bs. cbb_abs cbb' = a_add out bs (cbb_abs cbb) \<and> (string_tag = 0 \<longrightarrow> der bs))"
proof (induction "length s" arbitrary: depth eoc string_tag out s cbb r cbb' rule: less_induct)
  case less
  from less.prems(1) show ?case
  proof (cases rule: convert_ber_loop_cases)
    case finished
    with less.prems show ?thesis
      by (intro conjI exI [of _ "[]"]) (simp_all add: a_add_Nil der_Nil)
  next
    case eoc
    with less.prems show ?thesis
      by (intro conjI exI [of _ "[]"]) (simp_all add: a_add_Nil der_Nil)
  next
    case (element e rest target c1 body c2 t c3 u)
    have t: "length t < length s"
      using element(3) ber_rest_shorter [OF element(1) [symmetric]] by simp
    have valid: "valid_tag (elt_tag e)"
      using ber_element_bounds [OF element(1)] by simp
    \<comment> \<open>what the body adds to its target\<close>
    have inner: "cbb_ok c2 \<and> length (cbb_children c2) = fst target \<and> \<not> b_error (cbb_base c2) \<and>
        (\<exists>bs. cbb_abs c2 = a_add (fst target) bs (cbb_abs c1) \<and>
           (snd target = 0 \<and> elt_tag e AND CBS_ASN1_CONSTRUCTED \<noteq> 0 \<longrightarrow> der bs))"
      if c1: "cbb_ok c1" "length (cbb_children c1) = fst target" "\<not> b_error (cbb_base c1)"
    proof (cases "elt_tag e AND CBS_ASN1_CONSTRUCTED = 0")
      case False
      then obtain b w where "convert_ber_loop (depth + 1) b (snd target) (fst target) body c1 = (Some w, c2)"
        and shorter: "length body < length s"
        using element(6) by auto
      from less.hyps [OF shorter this(1) c1] show ?thesis by blast
    next
      case True
      then obtain w where add: "CBB_add_bytes (fst target) body (length body) c1 = (Some w, c2)"
        and small: "length body < SIZE_MOD"
        using element(6) by auto
      have "refines (a_add (fst target) body) c1 (CBB_add_bytes (fst target) body (length body) c1)"
        using CBB_add_bytes_refines [OF c1(1) le_refl small] by simp
      then have c2: "cbb_ok c2" "\<not> b_error (cbb_base c2)" "cbb_abs c2 = a_add (fst target) body (cbb_abs c1)"
        by (simp_all add: refines_def add)
      have "length (cbb_children c2) = length (fst (cbb_abs c2))"
        by simp
      also have "\<dots> = fst target"
        unfolding c2(3) a_add_def using c1(2) by simp
      finally show ?thesis
        using c2 True by auto
    qed
    from element(2) valid less.prems(2-4) show ?thesis
    proof (cases rule: open_element_cases)
      case fragment
      obtain bs where c2: "cbb_ok c2" "length (cbb_children c2) = out" "\<not> b_error (cbb_base c2)"
        "cbb_abs c2 = a_add out bs (cbb_abs cbb)"
        using inner fragment less.prems(2-4) by auto
      have "c3 = c2"
        using CBB_flush_clean [OF c2(2,3)] element(4) by simp
      with less.hyps [OF t element(5)] c2 obtain bs' where "cbb_ok cbb'" "length (cbb_children cbb') = out"
        "\<not> b_error (cbb_base cbb')" "cbb_abs cbb' = a_add out bs' (a_add out bs (cbb_abs cbb))"
        by auto
      with fragment(1) show ?thesis by auto
    next
      case (child out_tag)
      note open_ref = CBB_add_asn1_refines [OF less.prems(2), of out out_tag]
      have c1: "cbb_ok c1" "\<not> b_error (cbb_base c1)"
        "cbb_abs c1 = a_open out Der (a_add out (der_tag out_tag) (cbb_abs cbb))"
        using open_ref by (simp_all add: refines_def child(3))
      have "length (cbb_children c1) = Suc out"
        by (rule refines_open_length [OF open_ref child(3)]) (use less.prems(3) in simp)
      with inner c1 child(4) obtain bs where c2: "cbb_ok c2" "length (cbb_children c2) = Suc out"
        "cbb_abs c2 = a_add (Suc out) bs (cbb_abs c1)"
        "snd target = 0 \<and> elt_tag e AND CBS_ASN1_CONSTRUCTED \<noteq> 0 \<longrightarrow> der bs"
        by auto
      have "fits (List.last (fst (cbb_abs c2))) (List.last (snd (cbb_abs c2)))"
        by (rule CBB_flush_fits [OF c2(1,2) element(4)])
      then have len: "length bs < 2 ^ 32"
        unfolding c2(3) c1(3) open_add_last [OF length_fst_a_flush_le] by simp
      have c3: "cbb_ok c3" "length (cbb_children c3) = out" "\<not> b_error (cbb_base c3)"
        using CBB_flush_Some [OF c2(1) element(4)] by simp_all
      have "cbb_abs c3 = a_flush out (cbb_abs c2)"
        using CBB_flush_cases [OF c2(1) element(4)] by simp
      also have "\<dots> = a_add out (der_element out_tag bs) (cbb_abs cbb)"
        unfolding c2(3) c1(3) using less.prems(3) by (intro element_abs) simp
      finally have abs: "cbb_abs c3 = a_add out (der_element out_tag bs) (cbb_abs cbb)" .
      from less.hyps [OF t element(5) c3] obtain bs' where rest: "cbb_ok cbb'" "length (cbb_children cbb') = out"
        "\<not> b_error (cbb_base cbb')" "cbb_abs cbb' = a_add out bs' (cbb_abs c3)" "string_tag = 0 \<longrightarrow> der bs'"
        by auto
      have "der (der_element out_tag bs @ bs')"
        using child(1,2,5,6) c2(4) len rest(5) by (intro der_Cons) auto
      then show ?thesis
        using rest(1-4) unfolding abs by auto
    qed
  qed
qed

lemma der_prefix:
  assumes "der s" "s = der_element tag body @ rest" "valid_tag tag" "length body < 2 ^ 32"
  shows "der (der_element tag body)"
  using assms(1)
proof cases
  case der_Nil
  with assms(2) show ?thesis by (simp add: der_element_def)
next
  case (der_Cons tag' body' rest')
  then have "der_element tag body @ rest = der_element tag' body' @ rest'"
    using assms(2) by simp
  then have "(body, tag) = (body', tag') \<and> rest = rest'"
    using element.enc_prefix_free [of "(body, tag)" "(body', tag')" rest rest'] assms(3,4) der_Cons(2,3)
    by (simp add: valid_element_def)
  with der.der_Cons [of tag body "[]"] der_Nil der_Cons show ?thesis
    by simp
qed


text \<open>An octet string of indefinite length in two fragments becomes one of three bytes.\<close>

definition ber_cbb :: "bytes \<Rightarrow> nat \<Rightarrow> cbb_child list \<Rightarrow> cbb" where
  "ber_cbb buf len cs =
     \<lparr>cbb_base = \<lparr>b_buf = buf @ [0, 0, 0, 0, 0, 0], b_len = len, b_cap = 11, b_can_resize = True, b_error = False\<rparr>,
      cbb_children = cs, cbb_alloc = \<lparr>malloc_ok = (\<lambda>_. True), junk = (\<lambda>_. 0)\<rparr>\<rparr>"

definition ber_child :: cbb_child where
  "ber_child = \<lparr>c_offset = 1, c_pending_len_len = 1, c_pending_is_asn1 = True\<rparr>"

lemmas ber_builder_eval = ber_cbb_def ber_child_def CBB_flush.simps cbb_add_child_def CBB_add_asn1_def CBB_add_u8_def
  cbb_add_u_def CBB_add_bytes_def CBB_add_space_def cbb_on_base_def cbb_buffer_add_def cbb_buffer_reserve_def
  cbb_flush_child_def cbb_flush_asn1_def cbb_or_error_def cbb_write_def buf_write_def Let_def size_add_def SIZE_MOD_def
  CBS_ASN1_TAG_SHIFT_def CBS_ASN1_TAG_NUMBER_MASK_def

lemma ber_builder_steps:
  "CBB_add_asn1 0 4 (ber_cbb [0, 0, 0, 0, 0] 0 []) = (Some (), ber_cbb [4, 0, 0, 0, 0] 2 [ber_child])"
  "CBB_add_bytes 1 [1, 2] (Suc (Suc 0)) (ber_cbb [4, 0, 0, 0, 0] 2 [ber_child]) = (Some (), ber_cbb [4, 0, 1, 2, 0] 4 [ber_child])"
  "CBB_add_bytes 1 [3] 1 (ber_cbb [4, 0, 1, 2, 0] 4 [ber_child]) = (Some (), ber_cbb [4, 0, 1, 2, 3] 5 [ber_child])"
  "CBB_flush 0 (ber_cbb [4, 0, 1, 2, 3] 5 [ber_child]) = (Some (), ber_cbb [4, 3, 1, 2, 3] 5 [])"
  "CBB_flush 0 (ber_cbb [4, 3, 1, 2, 3] 5 []) = (Some (), ber_cbb [4, 3, 1, 2, 3] 5 [])"
  "CBB_flush 1 (ber_cbb bs len [ber_child]) = (Some (), ber_cbb bs len [ber_child])"
  by (simp_all add: ber_builder_eval)

lemma ber_builder_init: "CBB_init \<lparr>malloc_ok = (\<lambda>_. True), junk = (\<lambda>_. 0)\<rparr> 11 = Some (ber_cbb [0, 0, 0, 0, 0] 0 [])"
  by (simp add: CBB_init_def OPENSSL_malloc_def cbb_init_def ber_cbb_def OPENSSL_MALLOC_PREFIX_def SIZE_MOD_def
      size_add_def upt_rec)

lemmas ber_reader_eval = CBS_get_any_ber_asn1_element_def cbs_get_any_asn1_element_def parse_asn1_tag_def CBS_len_def
  CBS_data_def CBS_get_bytes_eq CBS_skip_eq CBS_ASN1_TAG_SHIFT_def CBS_ASN1_CONSTRUCTED_def Let_def cbs_get_eoc_def
  is_string_type_def CBS_ASN1_OCTETSTRING_def

lemma ber_elements:
  "CBS_get_any_ber_asn1_element [0x24, 0x80, 4, 2, 1, 2, 4, 1, 3, 0, 0] = (Some \<lparr>elt_out = [0x24, 0x80],
     elt_tag = 0x20000004, elt_header_len = 2, elt_ber_found = True, elt_indefinite = True\<rparr>, [4, 2, 1, 2, 4, 1, 3, 0, 0])"
  "CBS_get_any_ber_asn1_element [4, 2, 1, 2, 4, 1, 3, 0, 0] = (Some \<lparr>elt_out = [4, 2, 1, 2], elt_tag = 4,
     elt_header_len = 2, elt_ber_found = False, elt_indefinite = False\<rparr>, [4, 1, 3, 0, 0])"
  "CBS_get_any_ber_asn1_element [4, 1, 3, 0, 0] = (Some \<lparr>elt_out = [4, 1, 3], elt_tag = 4,
     elt_header_len = 2, elt_ber_found = False, elt_indefinite = False\<rparr>, [0, 0])"
  by (simp_all add: ber_reader_eval)

lemma ber_open:
  "open_element 0 0 0x20000004 cbb = chk (CBB_add_asn1 0 4 cbb) (\<lambda>_ cbb. (Some (1, 4), cbb))"
  "open_element 4 1 4 cbb = (Some (1, 4), cbb)"
  by (simp_all add: open_element_def ber_reader_eval)

lemma ber_convert_3: "convert_ber_loop 1 True 4 1 [0, 0] cbb = (Some [], cbb)"
  unfolding convert_ber_loop.simps [of 1 True 4 1 "[0, 0]" cbb] by (simp add: ber_reader_eval)

lemma ber_convert_2: "convert_ber_loop 1 True 4 1 [4, 1, 3, 0, 0] (ber_cbb [4, 0, 1, 2, 0] 4 [ber_child]) =
    (Some [], ber_cbb [4, 0, 1, 2, 3] 5 [ber_child])"
  unfolding convert_ber_loop.simps [of 1 True 4 1 "[4, 1, 3, 0, 0]"]
  by (simp add: ber_elements ber_open [unfolded One_nat_def] ber_builder_steps [unfolded One_nat_def]
      ber_convert_3 [unfolded One_nat_def] CBS_len_def CBS_data_def CBS_skip_eq cbs_get_eoc_def CBS_ASN1_CONSTRUCTED_def CBS_ASN1_TAG_SHIFT_def)

lemma ber_convert_1: "convert_ber_loop 1 True 4 1 [4, 2, 1, 2, 4, 1, 3, 0, 0] (ber_cbb [4, 0, 0, 0, 0] 2 [ber_child]) =
    (Some [], ber_cbb [4, 0, 1, 2, 3] 5 [ber_child])"
  unfolding convert_ber_loop.simps [of 1 True 4 1 "[4, 2, 1, 2, 4, 1, 3, 0, 0]"]
  by (simp add: ber_elements ber_open [unfolded One_nat_def] ber_builder_steps [unfolded One_nat_def]
      ber_convert_2 [unfolded One_nat_def] CBS_len_def CBS_data_def CBS_skip_eq cbs_get_eoc_def CBS_ASN1_CONSTRUCTED_def CBS_ASN1_TAG_SHIFT_def)

lemma ber_example:
  "CBS_asn1_ber_to_der \<lparr>malloc_ok = (\<lambda>_. True), junk = (\<lambda>_. 0)\<rparr> [0x24, 0x80, 4, 2, 1, 2, 4, 1, 3, 0, 0] =
   Some ([4, 3, 1, 2, 3], Some [4, 3, 1, 2, 3, 0, 0, 0, 0, 0, 0], [])"
proof -
  let ?in = "[0x24, 0x80, 4, 2, 1, 2, 4, 1, 3, 0, 0] :: bytes"
  have "cbs_find_ber ?in 0 = Some True"
    unfolding cbs_find_ber_def find_ber_loop.simps [of 0 ?in] by (simp add: ber_elements CBS_len_def kMaxDepth_def)
  moreover have "cbs_convert_ber ?in 0 0 False 0 (ber_cbb [0, 0, 0, 0, 0] 0 []) =
      (Some [], ber_cbb [4, 3, 1, 2, 3] 5 [])"
    unfolding cbs_convert_ber_def convert_ber_loop.simps [of 0 False 0 0 ?in]
    by (simp add: ber_elements ber_open ber_builder_steps ber_convert_1 [unfolded One_nat_def] CBS_len_def kMaxDepth_def)
      (simp add: convert_ber_loop.simps [of 0 False 0 0 "[]"] CBS_len_def)
  moreover have "CBB_finish 0 True True (ber_cbb [4, 3, 1, 2, 3] 5 []) =
      (Some ([4, 3, 1, 2, 3, 0, 0, 0, 0, 0, 0], 5),
       ber_cbb [4, 3, 1, 2, 3] 5 []\<lparr>cbb_base := (cbb_base (ber_cbb [4, 3, 1, 2, 3] 5 []))\<lparr>b_buf := []\<rparr>\<rparr>)"
    by (simp add: CBB_finish_def ber_builder_steps) (simp add: ber_cbb_def)
  moreover have "CBB_init \<lparr>malloc_ok = (\<lambda>_. True), junk = (\<lambda>_. 0)\<rparr> (CBS_len ?in) =
      Some (ber_cbb [0, 0, 0, 0, 0] 0 [])"
  proof -
    have len: "CBS_len ?in = 11"
      by (simp add: CBS_len_def)
    show ?thesis
      unfolding len by (rule ber_builder_init)
  qed
  ultimately show ?thesis
    by (simp add: CBS_asn1_ber_to_der_def CBS_init_def)
qed


end
