(* ===== verification/Base64.thy ===== *)
theory Base64
  imports Constant_Time Mem
begin

text \<open>
  \<open>crypto/base64/base64.c\<close>: the block encoder and decoder and the streaming ones that break lines.

  What a function writes to \<open>out\<close> is returned as a list, in the order it is written; the terminating
  NUL that the encoders write behind it, and overwrite when they go on, is not part of that list. A
  function that reports failure returns no output: what it has written by then is unspecified.
\<close>

section \<open>The alphabet, in constant time\<close>

definition constant_time_lt_args_8 :: "byte \<Rightarrow> byte \<Rightarrow> byte" where
  "constant_time_lt_args_8 a b =
     (let aw = (ucast a :: crypto_word); bw = (ucast b :: crypto_word)
      in ucast (constant_time_msb_w (aw - bw)))"

definition constant_time_in_range_8 :: "byte \<Rightarrow> byte \<Rightarrow> byte \<Rightarrow> byte" where
  "constant_time_in_range_8 a lo hi =
     (let a = a - lo in constant_time_lt_args_8 a (hi - lo + 1))"

definition conv_bin2ascii :: "byte \<Rightarrow> byte" where
  "conv_bin2ascii a =
     (let a = a AND 0x3f;
          ret = constant_time_select_8 (ucast (constant_time_eq_8 (ucast a) 62)) 0x2b 0x2f;
          ret = constant_time_select_8 (ucast (constant_time_lt_args_8 a 62)) (a - 52 + 0x30) ret;
          ret = constant_time_select_8 (ucast (constant_time_lt_args_8 a 52)) (a - 26 + 0x61) ret;
          ret = constant_time_select_8 (ucast (constant_time_lt_args_8 a 26)) (a + 0x41) ret
      in ret)"

definition base64_ascii_to_bin :: "byte \<Rightarrow> byte" where
  "base64_ascii_to_bin a =
     (let is_upper = constant_time_in_range_8 a 0x41 0x5a;
          is_lower = constant_time_in_range_8 a 0x61 0x7a;
          is_digit = constant_time_in_range_8 a 0x30 0x39;
          is_plus = constant_time_eq_8 (ucast a) 0x2b;
          is_slash = constant_time_eq_8 (ucast a) 0x2f;
          is_equals = constant_time_eq_8 (ucast a) 0x3d;
          ret = 0;
          ret = ret OR (is_upper AND (a - 0x41));
          ret = ret OR (is_lower AND (a - 0x61 + 26));
          ret = ret OR (is_digit AND (a - 0x30 + 52));
          ret = ret OR (is_plus AND 62);
          ret = ret OR (is_slash AND 63);
          is_valid = is_upper OR is_lower OR is_digit OR is_plus OR is_slash OR is_equals;
          ret = ret OR NOT is_valid
      in ret)"

section \<open>Encoding\<close>

record evp_encode_ctx =
  data_used :: nat
  ctx_data :: bytes
  eof_seen :: bool
  error_encountered :: bool

definition CTX_DATA :: nat where "CTX_DATA = 48"

definition EVP_EncodedLength :: "nat \<Rightarrow> nat option" where
  "EVP_EncodedLength len =
     (if size_add len 2 < len then None
      else
        let len = size_add len 2 div 3
        in if size_mul len 4 div 4 \<noteq> len then None
        else
          let len = size_mul len 4
          in if size_add len 1 < len then None
          else Some (size_add len 1))"

definition EVP_EncodeInit :: evp_encode_ctx where
  "EVP_EncodeInit = \<lparr>data_used = 0, ctx_data = replicate CTX_DATA 0, eof_seen = False, error_encountered = False\<rparr>"

fun encode_block_loop :: "bytes \<Rightarrow> bytes" where
  "encode_block_loop [] = []"
| "encode_block_loop [s0] =
     (let l = push_bit 16 (ucast s0 :: u32)
      in [conv_bin2ascii (ucast (drop_bit 18 l)), conv_bin2ascii (ucast (drop_bit 12 l)), 0x3d, 0x3d])"
| "encode_block_loop [s0, s1] =
     (let l = push_bit 16 (ucast s0 :: u32) OR push_bit 8 (ucast s1)
      in [conv_bin2ascii (ucast (drop_bit 18 l)), conv_bin2ascii (ucast (drop_bit 12 l)),
          conv_bin2ascii (ucast (drop_bit 6 l)), 0x3d])"
| "encode_block_loop (s0 # s1 # s2 # src) =
     (let l = push_bit 16 (ucast s0 :: u32) OR push_bit 8 (ucast s1) OR ucast s2
      in [conv_bin2ascii (ucast (drop_bit 18 l)), conv_bin2ascii (ucast (drop_bit 12 l)),
          conv_bin2ascii (ucast (drop_bit 6 l)), conv_bin2ascii (ucast l)] @ encode_block_loop src)"

text \<open>The output; its length is the value returned.\<close>

definition EVP_EncodeBlock :: "bytes \<Rightarrow> nat \<Rightarrow> bytes" where
  "EVP_EncodeBlock src src_len = encode_block_loop (take src_len src)"

text \<open>
  The loop over whole lines: \<open>None\<close> when \<open>total\<close> overflows, otherwise \<open>total\<close>, the input left and the
  output.
\<close>

function encode_lines :: "nat \<Rightarrow> bytes \<Rightarrow> bytes \<Rightarrow> (nat \<times> bytes \<times> bytes) option" where
  "encode_lines tot inp out =
     (if length inp \<ge> CTX_DATA
      then
        let enc = EVP_EncodeBlock inp CTX_DATA;
            encoded = length enc
        in if size_add (size_add tot encoded) 1 < tot then None
        else encode_lines (size_add tot (size_add encoded 1)) (drop CTX_DATA inp) (out @ enc @ [0x0a])
      else Some (tot, inp, out))"
  by pat_completeness auto
termination
  by (relation "measure (\<lambda>(_, inp, _). length inp)") (auto simp: CTX_DATA_def)

declare encode_lines.simps [simp del]

text \<open>The context, \<open>*out_len\<close> and the output.\<close>

definition EVP_EncodeUpdate :: "evp_encode_ctx \<Rightarrow> bytes \<Rightarrow> nat \<Rightarrow> evp_encode_ctx \<times> nat \<times> bytes" where
  "EVP_EncodeUpdate ctx inp in_len =
     (if in_len = 0 then (ctx, 0, [])
      else if CTX_DATA - data_used ctx > in_len
      then (ctx\<lparr>ctx_data := take (data_used ctx) (ctx_data ctx) @ take in_len inp @
                  drop (data_used ctx + in_len) (ctx_data ctx),
                data_used := data_used ctx + in_len\<rparr>, 0, [])
      else
        let (ctx, inp, tot, out) =
          (if data_used ctx \<noteq> 0
           then
             let todo = CTX_DATA - data_used ctx;
                 ctx = ctx\<lparr>ctx_data := take (data_used ctx) (ctx_data ctx) @ take todo inp\<rparr>;
                 enc = EVP_EncodeBlock (ctx_data ctx) CTX_DATA
             in (ctx\<lparr>data_used := 0\<rparr>, take (in_len - todo) (drop todo inp), length enc + 1, enc @ [0x0a])
           else (ctx, take in_len inp, 0, []))
        in case encode_lines tot inp out of
             None \<Rightarrow> (ctx, 0, [])
           | Some (tot, inp, out) \<Rightarrow>
               let ctx = ctx\<lparr>ctx_data := inp @ drop (length inp) (ctx_data ctx), data_used := length inp\<rparr>;
                   tot = (if tot > 2147483647 then 0 else tot)
               in (ctx, tot, out))"

definition EVP_EncodeFinal :: "evp_encode_ctx \<Rightarrow> evp_encode_ctx \<times> nat \<times> bytes" where
  "EVP_EncodeFinal ctx =
     (if data_used ctx = 0 then (ctx, 0, [])
      else
        let out = EVP_EncodeBlock (ctx_data ctx) (data_used ctx) @ [0x0a]
        in (ctx\<lparr>data_used := 0\<rparr>, length out, out))"

section \<open>Decoding\<close>

definition EVP_DecodedLength :: "nat \<Rightarrow> nat option" where
  "EVP_DecodedLength len = (if len mod 4 \<noteq> 0 then None else Some (size_mul (len div 4) 3))"

definition EVP_DecodeInit :: evp_encode_ctx where
  "EVP_DecodeInit = \<lparr>data_used = 0, ctx_data = replicate CTX_DATA 0, eof_seen = False, error_encountered = False\<rparr>"

text \<open>One to three bytes of output.\<close>

definition base64_decode_quad :: "bytes \<Rightarrow> bytes option" where
  "base64_decode_quad inp =
     (let a = base64_ascii_to_bin (inp ! 0); b = base64_ascii_to_bin (inp ! 1);
          c = base64_ascii_to_bin (inp ! 2); d = base64_ascii_to_bin (inp ! 3)
      in if a = 0xff \<or> b = 0xff \<or> c = 0xff \<or> d = 0xff then None
      else
        let v = push_bit 18 (ucast a :: u32) OR push_bit 12 (ucast b) OR push_bit 6 (ucast c) OR ucast d;
            padding_pattern = push_bit 3 (of_bool (inp ! 0 = 0x3d) :: u32) OR push_bit 2 (of_bool (inp ! 1 = 0x3d)) OR
              push_bit 1 (of_bool (inp ! 2 = 0x3d)) OR of_bool (inp ! 3 = 0x3d)
        in if padding_pattern = 0 then Some [ucast (drop_bit 16 v), ucast (drop_bit 8 v), ucast v]
        else if padding_pattern = 1 then Some [ucast (drop_bit 16 v), ucast (drop_bit 8 v)]
        else if padding_pattern = 3 then Some [ucast (drop_bit 16 v)]
        else None)"

text \<open>
  The loop of \<open>EVP_DecodeUpdate\<close>: \<open>None\<close> for the output after \<open>return -1\<close>, and the context in any case.
\<close>

fun decode_update_loop :: "evp_encode_ctx \<Rightarrow> bytes \<Rightarrow> bytes \<Rightarrow> bytes option \<times> evp_encode_ctx" where
  "decode_update_loop ctx out [] = (Some out, ctx)"
| "decode_update_loop ctx out (c # inp) =
     (if c \<in> {0x20, 0x09, 0x0d, 0x0a} then decode_update_loop ctx out inp
      else if eof_seen ctx then (None, ctx\<lparr>error_encountered := True\<rparr>)
      else
        let ctx = ctx\<lparr>ctx_data := (ctx_data ctx)[data_used ctx := c], data_used := data_used ctx + 1\<rparr>
        in if data_used ctx = 4
        then (case base64_decode_quad (ctx_data ctx) of
                None \<Rightarrow> (None, ctx\<lparr>error_encountered := True\<rparr>)
              | Some quad \<Rightarrow>
                  let ctx = ctx\<lparr>data_used := 0\<rparr>;
                      ctx = (if length quad < 3 then ctx\<lparr>eof_seen := True\<rparr> else ctx)
                  in decode_update_loop ctx (out @ quad) inp)
        else decode_update_loop ctx out inp)"

text \<open>The value returned, the output (as long as \<open>*out_len\<close> says) and the context.\<close>

definition EVP_DecodeUpdate :: "evp_encode_ctx \<Rightarrow> bytes \<Rightarrow> nat \<Rightarrow> int \<times> bytes \<times> evp_encode_ctx" where
  "EVP_DecodeUpdate ctx inp in_len =
     (if error_encountered ctx then (- 1, [], ctx)
      else case decode_update_loop ctx [] (take in_len inp) of
        (None, ctx) \<Rightarrow> (- 1, [], ctx)
      | (Some out, ctx) \<Rightarrow>
          if length out > 2147483647 then (- 1, [], ctx\<lparr>error_encountered := True\<rparr>)
          else (if eof_seen ctx then 0 else 1, out, ctx))"

definition EVP_DecodeFinal :: "evp_encode_ctx \<Rightarrow> int" where
  "EVP_DecodeFinal ctx = (if error_encountered ctx \<or> data_used ctx \<noteq> 0 then - 1 else 1)"

fun decode_base64_loop :: "bytes \<Rightarrow> bytes option" where
  "decode_base64_loop (a # b # c # d # inp) =
     (case base64_decode_quad [a, b, c, d] of None \<Rightarrow> None
      | Some quad \<Rightarrow>
          if length quad \<noteq> 3 \<and> inp \<noteq> [] then None
          else map_option (\<lambda>out. quad @ out) (decode_base64_loop inp))"
| "decode_base64_loop _ = Some []"

definition EVP_DecodeBase64 :: "nat \<Rightarrow> bytes \<Rightarrow> nat \<Rightarrow> bytes option" where
  "EVP_DecodeBase64 max_out inp in_len =
     (if in_len mod 4 \<noteq> 0 then None
      else case EVP_DecodedLength in_len of None \<Rightarrow> None
      | Some max_len \<Rightarrow> if max_out < max_len then None else decode_base64_loop (take in_len inp))"

text \<open>The bytes written to \<open>dst\<close>, padded to a multiple of three with NULs; \<open>None\<close> for \<open>-1\<close>.\<close>

definition EVP_DecodeBlock :: "bytes \<Rightarrow> nat \<Rightarrow> bytes option" where
  "EVP_DecodeBlock src src_len =
     (let src = dropWhile (\<lambda>c. c \<in> {0x20, 0x09}) (take src_len src);
          src = rev (dropWhile (\<lambda>c. c \<in> {0x20, 0x09, 0x0d, 0x0a}) (rev src))
      in case EVP_DecodedLength (length src) of None \<Rightarrow> None
      | Some dst_len \<Rightarrow>
          if dst_len > 2147483647 then None
          else case EVP_DecodeBase64 dst_len src (length src) of None \<Rightarrow> None
          | Some out \<Rightarrow> Some (out @ replicate ((3 - length out mod 3) mod 3) 0))"

section \<open>The alphabet\<close>

text \<open>RFC 4648: the 64 characters in the order of their values.\<close>

definition alphabet :: "nat \<Rightarrow> nat" where
  "alphabet n =
     (if n < 26 then 65 + n else if n < 52 then 97 + (n - 26) else if n < 62 then 48 + (n - 52)
      else if n = 62 then 43 else 47)"

lemma ucast_byte_word: "unat (ucast (a :: byte) :: crypto_word) = unat a"
  by (rule unat_ucast_up) simp

lemma constant_time_lt_args_8_eq: "constant_time_lt_args_8 a b = (if a < b then - 1 else 0)"
proof -
  have "bit ((ucast a :: crypto_word) - ucast b) 63 \<longleftrightarrow> a < b"
  proof (cases "unat b \<le> unat a")
    case True
    have "unat a - unat b < 2 ^ 63"
      using unat_byte_less [of a] by (simp del: unat_byte_less)
    with True show ?thesis
      by (simp add: bit_63_iff unat_sub_64 ucast_byte_word word_less_nat_alt not_le not_less)
  next
    case False
    have "2 ^ 63 \<le> 2 ^ 64 + unat a - unat b"
      using unat_byte_less [of b] by (simp del: unat_byte_less)
    with False show ?thesis
      by (simp add: bit_63_iff unat_sub_64 ucast_byte_word word_less_nat_alt)
  qed
  then show ?thesis
    by (simp add: constant_time_lt_args_8_def constant_time_msb_w_eq)
qed

lemma constant_time_in_range_8_eq:
  assumes "lo \<le> hi" "hi < 255"
  shows "constant_time_in_range_8 a lo hi = (if lo \<le> a \<and> a \<le> hi then - 1 else 0)"
proof -
  have sub: "unat (a - lo) = (if lo \<le> a then unat a - unat lo else 256 + unat a - unat lo)"
    using unat_byte_less [of lo]
    by (cases "lo \<le> a") (simp_all add: unat_sub unat_sub_if' word_le_nat_alt)
  have top: "unat (hi - lo + 1) = unat hi - unat lo + 1"
  proof -
    have "unat (hi - lo) = unat hi - unat lo"
      using assms(1) by (simp add: unat_sub)
    moreover have "unat hi < 255"
      using assms(2) by (simp add: word_less_nat_alt)
    ultimately show ?thesis
      by (simp add: unat_word_ariths)
  qed
  have "a - lo < hi - lo + 1 \<longleftrightarrow> lo \<le> a \<and> a \<le> hi"
    using assms unat_byte_less [of lo] unfolding word_less_nat_alt word_le_nat_alt sub top by auto
  then show ?thesis
    by (simp add: constant_time_in_range_8_def constant_time_lt_args_8_eq)
qed

text \<open>Both directions of the conversion, as tables.\<close>

lemma select_8_byte: "constant_time_select_8 (ucast (- 1 :: byte)) a b = a" "constant_time_select_8 (ucast (0 :: byte)) a b = b"
proof -
  have "ucast (ucast m :: crypto_word) = m" for m :: byte
    using unat_byte_less [of m]
    by (simp only: word_unat_eq_iff unat_ucast_down ucast_byte_word) (simp del: unat_byte_less)
  then show "constant_time_select_8 (ucast (- 1 :: byte)) a b = a" "constant_time_select_8 (ucast (0 :: byte)) a b = b"
    by (simp_all only: constant_time_select_8_def Let_def) simp_all
qed

lemma conv_bin2ascii_eq: "conv_bin2ascii a = word_of_nat (alphabet (unat a mod 64))"
proof -
  let ?a = "a AND 0x3f"
  have m: "0x3f = (mask 6 :: byte)"
    by (simp add: mask_eq_exp_minus_1)
  have n: "unat ?a = unat a mod 64"
    unfolding m take_bit_eq_mask [symmetric] unsigned_take_bit_eq by (simp add: take_bit_eq_mod)
  define n where "n = unat a mod 64"
  have n': "unat ?a = n" "n < 64"
    using n by (simp_all add: n_def)
  have a: "?a = word_of_nat n"
    using n'(1) by (metis word_of_nat_unat)
  have lt: "?a < 26 \<longleftrightarrow> n < 26" "?a < 52 \<longleftrightarrow> n < 52" "?a < 62 \<longleftrightarrow> n < 62"
    by (simp_all add: word_less_nat_alt n')
  have eq: "(ucast ?a :: crypto_word) = 62 \<longleftrightarrow> n = 62"
    by (simp add: word_unat_eq_iff ucast_byte_word n')
  have "conv_bin2ascii a =
      (if n < 26 then ?a + 0x41 else if n < 52 then ?a - 26 + 0x61 else if n < 62 then ?a - 52 + 0x30
       else if n = 62 then 0x2b else 0x2f)"
    unfolding conv_bin2ascii_def Let_def constant_time_lt_args_8_eq constant_time_eq_8_eq lt eq
    by (simp add: select_8_byte)
  also have "\<dots> = word_of_nat (alphabet n)"
    unfolding alphabet_def a by (auto simp: of_nat_diff)
  finally show ?thesis by (simp add: n_def)
qed

lemma base64_ascii_to_bin_eq:
  "base64_ascii_to_bin a =
     (if 0x41 \<le> a \<and> a \<le> 0x5a then a - 0x41
      else if 0x61 \<le> a \<and> a \<le> 0x7a then a - 0x61 + 26
      else if 0x30 \<le> a \<and> a \<le> 0x39 then a - 0x30 + 52
      else if a = 0x2b then 62 else if a = 0x2f then 63 else if a = 0x3d then 0 else 0xff)"
proof -
  have test: "constant_time_eq_8 (ucast a) 0x2b = (if a = 0x2b then - 1 else 0)"
    "constant_time_eq_8 (ucast a) 0x2f = (if a = 0x2f then - 1 else 0)"
    "constant_time_eq_8 (ucast a) 0x3d = (if a = 0x3d then - 1 else 0)"
    by (simp_all add: constant_time_eq_8_eq word_unat_eq_iff ucast_byte_word)
  have ranges: "constant_time_in_range_8 a 0x41 0x5a = (if 0x41 \<le> a \<and> a \<le> 0x5a then - 1 else 0)"
    "constant_time_in_range_8 a 0x61 0x7a = (if 0x61 \<le> a \<and> a \<le> 0x7a then - 1 else 0)"
    "constant_time_in_range_8 a 0x30 0x39 = (if 0x30 \<le> a \<and> a \<le> 0x39 then - 1 else 0)"
    by (simp_all add: constant_time_in_range_8_eq)
  have disjoint: "a \<le> 0x5a \<Longrightarrow> \<not> 0x61 \<le> a" "a \<le> 0x39 \<Longrightarrow> \<not> 0x41 \<le> a" "a \<le> 0x39 \<Longrightarrow> \<not> 0x61 \<le> a"
    by (auto simp: word_le_nat_alt)
  show ?thesis
    unfolding base64_ascii_to_bin_def Let_def ranges test using disjoint by auto
qed

section \<open>Blocks\<close>

definition letter :: "nat \<Rightarrow> byte" where
  "letter n = word_of_nat (alphabet n)"

text \<open>The four letters of a 24-bit number.\<close>

definition letters :: "nat \<Rightarrow> bytes" where
  "letters n = [letter (n div 262144 mod 64), letter (n div 4096 mod 64), letter (n div 64 mod 64), letter (n mod 64)]"

lemma unat_letter: "unat (letter n) = alphabet n"
  unfolding letter_def by (rule unat_word_of_nat_small) (auto simp: alphabet_def)

lemma letter_not_pad: "letter n \<noteq> 0x3d"
proof -
  have "alphabet n \<noteq> 61" by (auto simp: alphabet_def)
  then show ?thesis by (simp add: word_unat_eq_iff unat_letter)
qed

lemma base64_ascii_to_bin_letter:
  assumes "n < 64"
  shows "base64_ascii_to_bin (letter n) = word_of_nat n"
proof -
  have le: "w \<le> letter n \<longleftrightarrow> unat w \<le> alphabet n" "letter n \<le> w \<longleftrightarrow> alphabet n \<le> unat w"
    "letter n = w \<longleftrightarrow> alphabet n = unat w" for w
    by (simp_all add: word_le_nat_alt word_unat_eq_iff unat_letter)
  consider "n < 26" | k where "n = 26 + k" "k < 26" | k where "n = 52 + k" "k < 10" | "n = 62" | "n = 63"
  proof -
    have "n < 26 \<or> (\<exists>k<26. n = 26 + k) \<or> (\<exists>k<10. n = 52 + k) \<or> n = 62 \<or> n = 63"
      using assms by presburger
    with that show thesis by blast
  qed
  then show ?thesis
  proof cases
    case 1
    then have "alphabet n = 65 + n" by (simp add: alphabet_def)
    with 1 show ?thesis
      by (simp add: base64_ascii_to_bin_eq le) (simp add: letter_def)
  next
    case (2 k)
    then have a: "alphabet n = 97 + k" by (simp add: alphabet_def)
    with 2(2) have "base64_ascii_to_bin (letter n) = letter n - 0x61 + 26"
      by (simp add: base64_ascii_to_bin_eq le)
    also have "\<dots> = word_of_nat n"
      unfolding letter_def a unfolding 2(1) by simp
    finally show ?thesis .
  next
    case (3 k)
    then have a: "alphabet n = 48 + k" by (simp add: alphabet_def)
    with 3(2) have "base64_ascii_to_bin (letter n) = letter n - 0x30 + 52"
      by (simp add: base64_ascii_to_bin_eq le)
    also have "\<dots> = word_of_nat n"
      unfolding letter_def a unfolding 3(1) by simp
    finally show ?thesis .
  qed (simp_all add: base64_ascii_to_bin_eq letter_def alphabet_def)
qed

lemma or_shift:
  assumes "unat y < 2 ^ k" "unat x * 2 ^ k + 2 ^ k \<le> 2 ^ 32" "k < 32"
  shows "unat (push_bit k x OR y :: u32) = unat x * 2 ^ k + unat y"
proof -
  have "take_bit k y = y"
    using assms(1) by (simp add: word_unat_eq_iff unsigned_take_bit_eq take_bit_nat_eq_self)
  have "push_bit k x AND y = 0"
  proof (rule bit_word_eqI)
    fix i
    show "bit (push_bit k x AND y) i = bit (0 :: u32) i"
      using \<open>take_bit k y = y\<close> by (metis (no_types, lifting) bit_0_eq bit_and_iff bit_push_bit_iff bit_take_bit_iff bot_apply bot_bool_def not_le)
  qed
  then have "push_bit k x OR y = push_bit k x + y"
    by (rule disjunctive_add_eq_or [symmetric])
  moreover have "unat (push_bit k x) = unat x * 2 ^ k"
  proof -
    have "0 < (2 :: nat) ^ k" by simp
    then have "unat x * 2 ^ k < 2 ^ 32"
      using assms(2) by linarith
    then show ?thesis
      unfolding unsigned_push_bit_eq unfolding push_bit_eq_mult by (intro take_bit_nat_eq_self) simp
  qed
  ultimately show ?thesis
    using assms(1,2) by (simp add: unat_word_ariths)
qed

lemma conv_drop: "conv_bin2ascii (ucast (drop_bit k (l :: u32))) = letter (unat l div 2 ^ k mod 64)"
proof -
  have "unat (ucast (drop_bit k l) :: byte) mod 64 = unat l div 2 ^ k mod 64"
    unfolding unat_ucast_down unat_drop_bit_eq by (simp add: drop_bit_eq_div mod_mod_cancel)
  then show ?thesis
    by (simp add: conv_bin2ascii_eq letter_def)
qed

lemma conv_low: "conv_bin2ascii (ucast (l :: u32)) = letter (unat l mod 64)"
  using conv_drop [of 0 l] by simp

text \<open>The 24-bit number of up to three bytes.\<close>

lemma unat_three:
  "unat (push_bit 16 (ucast a) OR push_bit 8 (ucast b) OR ucast c :: u32) = unat a * 65536 + unat b * 256 + unat (c :: byte)"
  "unat (push_bit 16 (ucast a) OR push_bit 8 (ucast b) :: u32) = unat a * 65536 + unat (b :: byte) * 256"
  "unat (push_bit 16 (ucast a) :: u32) = unat (a :: byte) * 65536"
proof -
  have u: "unat (ucast x :: u32) = unat (x :: byte)" for x
    by (rule unat_ucast_up) simp
  have b: "unat (push_bit 8 (ucast b) OR y :: u32) = unat b * 256 + unat y" if "unat y < 256" for y
    using or_shift [of y 8 "ucast b"] that unat_byte_less [of b] by (simp add: u del: unat_byte_less)
  have a: "unat (push_bit 16 (ucast a) OR y :: u32) = unat a * 65536 + unat y" if "unat y < 65536" for y
    using or_shift [of y 16 "ucast a"] that unat_byte_less [of a] by (simp add: u del: unat_byte_less)
  show "unat (push_bit 16 (ucast a) OR push_bit 8 (ucast b) OR ucast c :: u32) = unat a * 65536 + unat b * 256 + unat c"
    using a [of "push_bit 8 (ucast b) OR ucast c"] b [of "ucast c"] unat_byte_less [of b] unat_byte_less [of c]
    by (simp add: u del: unat_byte_less)
  show "unat (push_bit 16 (ucast a) OR push_bit 8 (ucast b) :: u32) = unat a * 65536 + unat b * 256"
    using a [of "push_bit 8 (ucast b)"] b [of 0] unat_byte_less [of b] by (simp del: unat_byte_less)
  show "unat (push_bit 16 (ucast a) :: u32) = unat a * 65536"
    using a [of 0] by simp
qed

lemma letters_take:
  "take 2 (letters n) = [letter (n div 262144 mod 64), letter (n div 4096 mod 64)]"
  "take 3 (letters n) = [letter (n div 262144 mod 64), letter (n div 4096 mod 64), letter (n div 64 mod 64)]"
  "letters n @ rest = letter (n div 262144 mod 64) # letter (n div 4096 mod 64) # letter (n div 64 mod 64) #
    letter (n mod 64) # rest"
  by (simp_all add: letters_def numeral_2_eq_2 numeral_3_eq_3)

lemma powers: "(2 :: nat) ^ 18 = 262144" "(2 :: nat) ^ 12 = 4096" "(2 :: nat) ^ 6 = 64" "(2 :: nat) ^ 16 = 65536"
    "(2 :: nat) ^ 8 = 256"
  by simp_all

lemma encode_block_simps:
  "encode_block_loop [a] = take 2 (letters (unat a * 65536)) @ [0x3d, 0x3d]"
  "encode_block_loop [a, b] = take 3 (letters (unat a * 65536 + unat b * 256)) @ [0x3d]"
  "encode_block_loop (a # b # c # src) = letters (unat a * 65536 + unat b * 256 + unat c) @ encode_block_loop src"
  unfolding encode_block_loop.simps Let_def conv_drop
  unfolding conv_low unat_three letters_take powers append_Cons append_Nil
  by (rule refl)+

text \<open>What a quad decodes to.\<close>

lemma unat_quad:
  assumes "unat a < 64" "unat b < 64" "unat c < 64" "unat d < 64"
  shows "unat (push_bit 18 a OR push_bit 12 b OR push_bit 6 c OR d :: u32) =
    ((unat a * 64 + unat b) * 64 + unat c) * 64 + unat d"
proof -
  let ?c = "push_bit 6 c OR d" and ?b = "push_bit 12 b OR push_bit 6 c OR d"
  have c: "unat ?c = unat c * 64 + unat d"
    using or_shift [of d 6 c] assms by simp
  have b: "unat ?b = unat b * 4096 + unat ?c"
    using or_shift [of ?c 12 b] assms c by simp
  have "unat (push_bit 18 a OR ?b) = unat a * 262144 + unat ?b"
    using or_shift [of ?b 18 a] assms c b by simp
  with b c show ?thesis by simp
qed

lemma ucast_byte_of_nat: "n < 64 \<Longrightarrow> unat (ucast (word_of_nat n :: byte) :: u32) = n"
  using unat_ucast_up [of "word_of_nat n :: byte", where ?'b = 32] unat_word_of_nat_small [of n, where ?'a = 8] by simp

lemma not_invalid: "n < 64 \<Longrightarrow> (word_of_nat n :: byte) \<noteq> 0xff"
  by (auto simp: word_unat_eq_iff unat_word_of_nat_small)

text \<open>A quad of letters in which the last ones may be padding, which reads as zero.\<close>

definition low_bytes :: "nat \<Rightarrow> bytes" where
  "low_bytes n = [word_of_nat (n div 65536 mod 256), word_of_nat (n div 256 mod 256), word_of_nat (n mod 256)]"

lemma ucast_drop: "ucast (drop_bit k (v :: u32)) = (word_of_nat (unat v div 2 ^ k mod 256) :: byte)"
  unfolding word_unat_eq_iff unat_ucast_down unat_drop_bit_eq
  by (simp add: drop_bit_eq_div unat_word_of_nat_small)

lemma ucast_low: "ucast (v :: u32) = (word_of_nat (unat v mod 256) :: byte)"
  using ucast_drop [of 0 v] by simp

lemma decode_letters:
  assumes "a < 64" "b < 64" "c < 64" "d < 64"
  defines "n \<equiv> ((a * 64 + b) * 64 + c) * 64 + d"
  shows "base64_decode_quad [letter a, letter b, letter c, letter d] = Some (low_bytes n)"
    and "d = 0 \<Longrightarrow> base64_decode_quad [letter a, letter b, letter c, 0x3d] = Some (take 2 (low_bytes n))"
    and "c = 0 \<Longrightarrow> d = 0 \<Longrightarrow> base64_decode_quad [letter a, letter b, 0x3d, 0x3d] = Some (take 1 (low_bytes n))"
proof -
  let ?u = "\<lambda>n. ucast (word_of_nat n :: byte) :: u32"
  define v where "v = push_bit 18 (?u a) OR push_bit 12 (?u b) OR push_bit 6 (?u c) OR ?u d"
  have v: "unat v = n"
    unfolding v_def n_def using assms(1-4)
      unat_quad [of "?u a" "?u b" "?u c" "?u d", unfolded ucast_byte_of_nat [OF assms(1)] ucast_byte_of_nat [OF assms(2)]
        ucast_byte_of_nat [OF assms(3)] ucast_byte_of_nat [OF assms(4)]]
    by blast
  have pad: "base64_ascii_to_bin 0x3d = word_of_nat 0"
    by (simp add: base64_ascii_to_bin_eq)
  note bins = base64_ascii_to_bin_letter [OF assms(1)] base64_ascii_to_bin_letter [OF assms(2)]
    base64_ascii_to_bin_letter [OF assms(3)] base64_ascii_to_bin_letter [OF assms(4)]
  note valid = not_invalid [OF assms(1)] not_invalid [OF assms(2)] not_invalid [OF assms(3)] not_invalid [OF assms(4)]
  have nths: "[p, q, r, t] ! 0 = p" "[p, q, r, t] ! 1 = q" "[p, q, r, t] ! 2 = r" "[p, q, r, t] ! 3 = t"
    for p q r t :: byte
    by (simp_all add: numeral_2_eq_2 numeral_3_eq_3)
  note eval = base64_decode_quad_def Let_def nths bins pad letter_not_pad
  show "base64_decode_quad [letter a, letter b, letter c, letter d] = Some (low_bytes n)"
    unfolding eval v_def [symmetric] v powers low_bytes_def ucast_drop unfolding ucast_low v powers using valid by (simp add: letter_not_pad)
  show "base64_decode_quad [letter a, letter b, letter c, 0x3d] = Some (take 2 (low_bytes n))" if "d = 0"
    unfolding eval v_def [unfolded that, symmetric] v powers low_bytes_def ucast_drop unfolding ucast_low v powers using valid that by (simp add: letter_not_pad numeral_2_eq_2)
  show "base64_decode_quad [letter a, letter b, 0x3d, 0x3d] = Some (take 1 (low_bytes n))" if "c = 0" "d = 0"
    unfolding eval v_def [unfolded that, symmetric] v powers low_bytes_def ucast_drop unfolding ucast_low v powers using valid that by (simp add: letter_not_pad)
qed

lemma digits_24:
  assumes "n < (16777216 :: nat)"
  shows "((n div 262144 mod 64 * 64 + n div 4096 mod 64) * 64 + n div 64 mod 64) * 64 + n mod 64 = n"
proof -
  have step: "m div 64 * 64 + m mod 64 = m" for m :: nat
    by simp
  have shift: "n div 4096 = n div 64 div 64" "n div 262144 = n div 64 div 64 div 64"
    by (simp_all add: div_mult2_eq [symmetric])
  have "n div 64 div 64 div 64 < 64"
    unfolding shift(2) [symmetric] by (rule less_mult_imp_div_less) (use assms in simp)
  then have "n div 64 div 64 div 64 mod 64 = n div 64 div 64 div 64"
    by (rule mod_less)
  then show ?thesis
    unfolding shift by (simp only: step)
qed

lemma decode_quad_letters:
  assumes "n < 16777216"
  shows "base64_decode_quad (letters n) = Some (low_bytes n)"
    and "n mod 64 = 0 \<Longrightarrow> base64_decode_quad (take 3 (letters n) @ [0x3d]) = Some (take 2 (low_bytes n))"
    and "n mod 4096 = 0 \<Longrightarrow> base64_decode_quad (take 2 (letters n) @ [0x3d, 0x3d]) = Some (take 1 (low_bytes n))"
proof -
  have small: "k mod 64 < 64" for k :: nat by simp
  note quad = decode_letters [where a = "n div 262144 mod 64" and b = "n div 4096 mod 64" and c = "n div 64 mod 64" and d = "n mod 64",
      OF small small small small, unfolded digits_24 [OF assms]]
  show "base64_decode_quad (letters n) = Some (low_bytes n)"
    unfolding letters_def by (rule quad(1))
  show "base64_decode_quad (take 3 (letters n) @ [0x3d]) = Some (take 2 (low_bytes n))" if "n mod 64 = 0"
    unfolding letters_take append_Cons append_Nil by (rule quad(2) [OF that])
  show "base64_decode_quad (take 2 (letters n) @ [0x3d, 0x3d]) = Some (take 1 (low_bytes n))" if "n mod 4096 = 0"
  proof -
    have "n = 4096 * (n div 4096)"
      using div_mult_mod_eq [of n 4096] that by simp
    then obtain k where "n = 4096 * k" ..
    then have m: "n mod 64 = 0" "n div 64 mod 64 = 0" by simp_all
    show ?thesis
      unfolding letters_take append_Cons append_Nil by (rule quad(3) [OF m(2,1)])
  qed
qed

lemma low_bytes_three: "low_bytes (unat a * 65536 + unat b * 256 + unat c) = [a, b, c]"
proof -
  have join: "(unat a * 65536 + unat b * 256 + unat c) = ((unat a * 256 + unat b) * 256 + unat c)" by simp
  have div: "(x * 256 + unat y) div 256 = x" "(x * 256 + unat y) mod 256 = unat y" for x and y :: byte
    using unat_byte_less [of y] by (simp_all add: div_add1_eq del: unat_byte_less)
  have div2: "n div 65536 = n div 256 div 256" for n :: nat
    by (simp add: div_mult2_eq [symmetric])
  show ?thesis
    using unat_byte_less [of a] unfolding low_bytes_def join div2 div by (simp del: unat_byte_less)
qed

lemma three_less: "unat a * 65536 + unat b * 256 + unat (c :: byte) < 16777216" for a b :: byte
  using unat_byte_less [of a] unat_byte_less [of b] unat_byte_less [of c] by (simp del: unat_byte_less)

lemma two_less: "unat a * 65536 + unat b * 256 < 16777216" "unat a * 65536 < 16777216" for a b :: byte
  using three_less [of a b 0] three_less [of a 0 0] by simp_all

text \<open>The three shapes of a quad that the encoder writes.\<close>

lemma decode_encoded_quad:
  "base64_decode_quad (letters (unat a * 65536 + unat b * 256 + unat c)) = Some [a, b, c]"
  "base64_decode_quad (take 3 (letters (unat a * 65536 + unat b * 256)) @ [0x3d]) = Some [a, b]"
  "base64_decode_quad (take 2 (letters (unat a * 65536)) @ [0x3d, 0x3d]) = Some [a]"
proof -
  show "base64_decode_quad (letters (unat a * 65536 + unat b * 256 + unat c)) = Some [a, b, c]"
    by (simp only: decode_quad_letters(1) [OF three_less] low_bytes_three)
  have "(unat a * 65536 + unat b * 256) mod 64 = 0"
    by (simp add: mod_eq_0_iff_dvd dvd_add)
  from decode_quad_letters(2) [OF two_less(1) this]
  show "base64_decode_quad (take 3 (letters (unat a * 65536 + unat b * 256)) @ [0x3d]) = Some [a, b]"
    using low_bytes_three [of a b 0] by (simp add: numeral_2_eq_2)
  have "(unat a * 65536) mod 4096 = 0" by (simp add: mod_eq_0_iff_dvd)
  from decode_quad_letters(3) [OF two_less(2) this]
  show "base64_decode_quad (take 2 (letters (unat a * 65536)) @ [0x3d, 0x3d]) = Some [a]"
    using low_bytes_three [of a 0 0] by simp
qed

lemma length_letters: "length (letters n) = 4"
  by (simp add: letters_def)

lemma length_encode_block: "length (encode_block_loop s) = 4 * ((length s + 2) div 3)"
proof (induction s rule: encode_block_loop.induct)
  case (4 a b c s)
  have "(length (a # b # c # s) + 2) div 3 = Suc ((length s + 2) div 3)" by simp
  with 4 show ?case
    by (simp add: encode_block_simps(3) length_letters del: encode_block_loop.simps)
qed (simp_all add: Let_def)

lemma encode_block_eq_Nil [simp]: "encode_block_loop s = [] \<longleftrightarrow> s = []"
proof -
  have "encode_block_loop s = [] \<longleftrightarrow> (length s + 2) div 3 = 0"
    unfolding length_0_conv [symmetric] length_encode_block by simp
  also have "\<dots> \<longleftrightarrow> s = []" by (cases s) (simp_all add: div_eq_0_iff)
  finally show ?thesis .
qed

lemma quad_cases:
  obtains p q r t where "letters n = [p, q, r, t]" "take 3 (letters n) @ [0x3d] = [p, q, r, 0x3d]"
    "take 2 (letters n) @ [0x3d, 0x3d] = [p, q, 0x3d, 0x3d]"
  by (rule that) (simp_all add: letters_def numeral_2_eq_2 numeral_3_eq_3)

lemma decode_encode_loop: "decode_base64_loop (encode_block_loop s) = Some s"
proof (induction s rule: encode_block_loop.induct)
  case (2 a)
  obtain p q where l: "take 2 (letters (unat a * 65536)) @ [0x3d, 0x3d] = [p, q, 0x3d, 0x3d]"
    by (rule quad_cases)
  show ?case
    unfolding encode_block_simps l using decode_encoded_quad(3) [of a, unfolded l] by simp
next
  case (3 a b)
  obtain p q r where l: "take 3 (letters (unat a * 65536 + unat b * 256)) @ [0x3d] = [p, q, r, 0x3d]"
    by (rule quad_cases)
  show ?case
    unfolding encode_block_simps l using decode_encoded_quad(2) [of a b, unfolded l] by simp
next
  case (4 a b c s)
  obtain p q r t where l: "letters (unat a * 65536 + unat b * 256 + unat c) = [p, q, r, t]"
    by (rule quad_cases)
  from 4 show ?case
    unfolding encode_block_simps l using decode_encoded_quad(1) [of a b c, unfolded l] by simp
qed simp

section \<open>Streams\<close>

text \<open>The text of a message: lines of 48 bytes, each ended by a newline.\<close>

function encoded_text :: "bytes \<Rightarrow> bytes" where
  "encoded_text s =
     (if s = [] then []
      else if length s < 48 then encode_block_loop s @ [0x0a]
      else encode_block_loop (take 48 s) @ [0x0a] @ encoded_text (drop 48 s))"
  by pat_completeness auto
termination
  by (relation "measure length") auto

declare encoded_text.simps [simp del]

lemma encoded_text_line:
  assumes "length p = 48"
  shows "encoded_text (p @ s) = encode_block_loop p @ [0x0a] @ encoded_text s"
  using assms by (subst encoded_text.simps) auto

definition pending :: "evp_encode_ctx \<Rightarrow> bytes" where
  "pending ctx = take (data_used ctx) (ctx_data ctx)"

definition encode_ok :: "evp_encode_ctx \<Rightarrow> bool" where
  "encode_ok ctx \<longleftrightarrow> data_used ctx < 48 \<and> length (ctx_data ctx) = 48"

lemma length_line: "length p = 48 \<Longrightarrow> length (encode_block_loop p) = 64"
  by (simp add: length_encode_block)

lemma encode_lines_Some:
  assumes "tot + 2 * length inp < 2 ^ 60"
  shows "\<exists>tot' inp' w. encode_lines tot inp out = Some (tot', inp', out @ w) \<and> length inp' < 48 \<and>
    tot' = tot + length w \<and> length w \<le> 2 * length inp \<and>
    (\<forall>s. w @ encoded_text (inp' @ s) = encoded_text (inp @ s))"
  using assms
proof (induction tot inp out rule: encode_lines.induct)
  case (1 tot inp out)
  show ?case
  proof (cases "CTX_DATA \<le> length inp")
    case False
    then show ?thesis
      by (subst encode_lines.simps) (simp add: CTX_DATA_def)
  next
    case True
    then have l: "48 \<le> length inp" by (simp add: CTX_DATA_def)
    have enc: "EVP_EncodeBlock inp 48 = encode_block_loop (take 48 inp)" "CTX_DATA = 48"
      by (simp_all add: EVP_EncodeBlock_def CTX_DATA_def)
    have len: "length (encode_block_loop (take 48 inp)) = 64"
      using l by (simp add: length_line)
    have sizes: "size_add (size_add tot 64) 1 = tot + 65" "size_add tot (size_add 64 1) = tot + 65"
      using "1.prems" by (simp_all add: size_add_exact SIZE_MOD_def)
    have "tot + 65 + 2 * length (drop 48 inp) < 2 ^ 60"
      using "1.prems" l by simp
    from "1.IH" [OF True refl refl, unfolded enc len sizes, OF _ this]
    obtain tot' inp' w where
      rec: "encode_lines (tot + 65) (drop 48 inp) (out @ encode_block_loop (take 48 inp) @ [0x0a]) =
          Some (tot', inp', (out @ encode_block_loop (take 48 inp) @ [0x0a]) @ w)"
      and props: "length inp' < 48" "tot' = tot + 65 + length w" "length w \<le> 2 * length (drop 48 inp)"
        "\<And>s. w @ encoded_text (inp' @ s) = encoded_text (drop 48 inp @ s)"
      by auto
    have line: "encoded_text (inp @ s) = encode_block_loop (take 48 inp) @ [0x0a] @ encoded_text (drop 48 inp @ s)" for s
    proof -
      have "length (take 48 inp) = 48" using l by simp
      from encoded_text_line [OF this, of "drop 48 inp @ s"] show ?thesis
        by (simp only: append_assoc [symmetric] append_take_drop_id)
    qed
    have "encode_lines tot inp out = Some (tot', inp', out @ (encode_block_loop (take 48 inp) @ [0x0a] @ w))"
      using True rec by (subst encode_lines.simps) (simp add: enc len sizes [unfolded One_nat_def])
    moreover have "tot' = tot + length (encode_block_loop (take 48 inp) @ [0x0a] @ w)"
      "length (encode_block_loop (take 48 inp) @ [0x0a] @ w) \<le> 2 * length inp"
      using props(2,3) l by (simp_all add: len)
    moreover have "(encode_block_loop (take 48 inp) @ [0x0a] @ w) @ encoded_text (inp' @ s) = encoded_text (inp @ s)" for s
      unfolding line by (simp add: props(4))
    ultimately show ?thesis
      using props(1) by blast
  qed
qed

lemma EncodeUpdate_text:
  assumes "encode_ok ctx" "length x < 2 ^ 29" and u: "EVP_EncodeUpdate ctx x (length x) = (ctx', n, out)"
  shows "encode_ok ctx' \<and> n = length out \<and>
    (\<forall>s. out @ encoded_text (pending ctx' @ s) = encoded_text (pending ctx @ x @ s))"
proof -
  have ok: "data_used ctx < 48" "length (ctx_data ctx) = 48"
    using assms(1) by (simp_all add: encode_ok_def)
  have c: "CTX_DATA = 48" by (simp add: CTX_DATA_def)
  have lp: "length (pending ctx) = data_used ctx"
    using ok by (simp add: pending_def)
  consider "x = []" | "x \<noteq> []" "length x < 48 - data_used ctx" | "x \<noteq> []" "48 - data_used ctx \<le> length x"
    by linarith
  then show ?thesis
  proof cases
    case 1
    with u assms(1) show ?thesis
      by (simp add: EVP_EncodeUpdate_def)
  next
    case 2
    with u have ctx': "ctx' = ctx\<lparr>ctx_data := pending ctx @ x @ drop (data_used ctx + length x) (ctx_data ctx),
        data_used := data_used ctx + length x\<rparr>" "n = 0" "out = []"
      by (simp_all add: EVP_EncodeUpdate_def c pending_def)
    have "pending ctx' = pending ctx @ x"
      unfolding ctx'(1) by (simp add: pending_def ok)
    with 2 ok show ?thesis
      by (simp add: ctx' encode_ok_def pending_def)
  next
    case 3
    define todo where "todo = 48 - data_used ctx"
    define inp where "inp = (if data_used ctx \<noteq> 0 then drop todo x else x)"
    define out0 where "out0 = (if data_used ctx \<noteq> 0 then encode_block_loop (pending ctx @ take todo x) @ [0x0a] else [])"
    define ctx0 where "ctx0 = (if data_used ctx \<noteq> 0
      then ctx\<lparr>ctx_data := pending ctx @ take todo x, data_used := 0\<rparr> else ctx)"
    have line: "length (pending ctx @ take todo x) = 48"
      using 3 ok by (simp add: lp todo_def)
    have x: "pending ctx @ x @ s = (pending ctx @ take todo x) @ drop todo x @ s" for s
      by (metis append_assoc append_take_drop_id)
    have text0: "encoded_text (pending ctx @ x @ s) = out0 @ encoded_text (inp @ s)" for s
    proof (cases "data_used ctx = 0")
      case True
      then show ?thesis by (simp add: out0_def inp_def pending_def)
    next
      case False
      then show ?thesis
        unfolding x encoded_text_line [OF line] by (simp add: out0_def inp_def)
    qed
    have l0: "length out0 \<le> 65" "length inp \<le> length x" "length (ctx_data ctx0) = 48"
      using line length_line [OF line] ok by (auto simp: out0_def inp_def ctx0_def)
    then obtain tot' inp' w where
      e: "encode_lines (length out0) inp out0 = Some (tot', inp', out0 @ w)" "length inp' < 48"
      "tot' = length out0 + length w" "length w \<le> 2 * length inp"
      "\<And>s. w @ encoded_text (inp' @ s) = encoded_text (inp @ s)"
      using encode_lines_Some [of "length out0" inp out0] assms(2) by auto
    have small: "\<not> 2147483647 < tot'"
      using e(3,4) l0 assms(2) by simp
    have "EVP_EncodeUpdate ctx x (length x) =
        (ctx0\<lparr>ctx_data := inp' @ drop (length inp') (ctx_data ctx0), data_used := length inp'\<rparr>, tot', out0 @ w)"
    proof (cases "data_used ctx = 0")
      case True
      then have "EVP_EncodeUpdate ctx x (length x) =
          (case encode_lines (length out0) inp out0 of None \<Rightarrow> (ctx0, 0, [])
           | Some (tot, inp, out) \<Rightarrow> (ctx0\<lparr>ctx_data := inp @ drop (length inp) (ctx_data ctx0), data_used := length inp\<rparr>,
               if tot > 2147483647 then 0 else tot, out))"
        using 3 by (simp add: EVP_EncodeUpdate_def c ctx0_def inp_def out0_def Let_def split: option.splits)
      then show ?thesis using e(1) small by simp
    next
      case False
      have enc: "EVP_EncodeBlock (take (data_used ctx) (ctx_data ctx) @ take todo x) 48 =
          encode_block_loop (pending ctx @ take todo x)"
        using take_all [OF eq_refl [OF line]] by (simp only: EVP_EncodeBlock_def pending_def)
      have "EVP_EncodeUpdate ctx x (length x) =
          (case encode_lines (length out0) inp out0 of None \<Rightarrow> (ctx0, 0, [])
           | Some (tot, inp, out) \<Rightarrow> (ctx0\<lparr>ctx_data := inp @ drop (length inp) (ctx_data ctx0), data_used := length inp\<rparr>,
               if tot > 2147483647 then 0 else tot, out))"
        using 3 False enc unfolding EVP_EncodeUpdate_def c todo_def [symmetric]
        by (simp add: ctx0_def inp_def out0_def Let_def pending_def split: option.splits)
      then show ?thesis using e(1) small by simp
    qed
    with u have r: "ctx' = ctx0\<lparr>ctx_data := inp' @ drop (length inp') (ctx_data ctx0), data_used := length inp'\<rparr>"
      "n = tot'" "out = out0 @ w"
      by simp_all
    have "pending ctx' = inp'" "encode_ok ctx'"
      using e(2) l0(3) by (simp_all add: r pending_def encode_ok_def)
    with e(3,5) text0 show ?thesis
      by (simp add: r)
  qed
qed

lemma EncodeFinal_text: "encode_ok ctx \<Longrightarrow> EVP_EncodeFinal ctx =
   (ctx\<lparr>data_used := 0\<rparr>, length (encoded_text (pending ctx)), encoded_text (pending ctx))"
  by (subst (1 2) encoded_text.simps) (auto simp: EVP_EncodeFinal_def encode_ok_def pending_def EVP_EncodeBlock_def)

text \<open>A whole run of the encoder: what is written for each chunk, as long as \<open>*out_len\<close> says.\<close>

fun encode_chunks :: "evp_encode_ctx \<Rightarrow> bytes list \<Rightarrow> bytes" where
  "encode_chunks ctx [] = (case EVP_EncodeFinal ctx of (_, n, out) \<Rightarrow> take n out)"
| "encode_chunks ctx (x # xs) =
     (case EVP_EncodeUpdate ctx x (length x) of (ctx, n, out) \<Rightarrow> take n out @ encode_chunks ctx xs)"

lemma encode_chunks_text:
  assumes "encode_ok ctx" "\<forall>x \<in> set xs. length x < 2 ^ 29"
  shows "encode_chunks ctx xs = encoded_text (pending ctx @ concat xs)"
  using assms
proof (induction xs arbitrary: ctx)
  case Nil
  then show ?case by (simp add: EncodeFinal_text)
next
  case (Cons x xs)
  obtain ctx' n out where u: "EVP_EncodeUpdate ctx x (length x) = (ctx', n, out)"
    by (rule prod_cases3)
  have "encode_ok ctx'" "n = length out" "out @ encoded_text (pending ctx' @ concat xs) = encoded_text (pending ctx @ x @ concat xs)"
    using EncodeUpdate_text [OF Cons.prems(1) _ u] Cons.prems(2) by simp_all
  with u Cons show ?case by simp
qed

text \<open>What a decoder may skip, and what is left to decode in a state.\<close>

definition is_blank :: "byte \<Rightarrow> bool" where
  "is_blank c \<longleftrightarrow> c \<in> {0x20, 0x09, 0x0d, 0x0a}"

definition strip :: "bytes \<Rightarrow> bytes" where
  "strip t = filter (\<lambda>c. \<not> is_blank c) t"

lemma strip_simps [simp]:
  "strip [] = []" "strip (c # t) = (if is_blank c then strip t else c # strip t)" "strip (t @ u) = strip t @ strip u"
  by (simp_all add: strip_def)

definition decoded_text :: "bytes \<Rightarrow> bytes option" where
  "decoded_text t = (if length t mod 4 = 0 then decode_base64_loop t else None)"

definition decode_rest :: "evp_encode_ctx \<Rightarrow> bytes \<Rightarrow> bytes option" where
  "decode_rest ctx t = (if eof_seen ctx then if t = [] then Some [] else None else decoded_text (pending ctx @ t))"

definition decode_ok :: "evp_encode_ctx \<Rightarrow> bool" where
  "decode_ok ctx \<longleftrightarrow> data_used ctx < 4 \<and> length (ctx_data ctx) = 48 \<and> (eof_seen ctx \<longrightarrow> data_used ctx = 0) \<and>
     \<not> error_encountered ctx"

lemma list_of_4:
  assumes "length q = 4"
  obtains a b c d where "q = [a, b, c, d]"
  using assms by (auto simp: length_Suc_conv eval_nat_numeral)

lemma decoded_text_quad:
  assumes "length q = 4"
  shows "decoded_text (q @ t) = (case base64_decode_quad q of None \<Rightarrow> None
    | Some w \<Rightarrow> if length w \<noteq> 3 \<and> t \<noteq> [] then None else map_option ((@) w) (decoded_text t))"
proof -
  obtain a b c d where "q = [a, b, c, d]"
    using assms by (rule list_of_4)
  then show ?thesis
    by (auto simp: decoded_text_def split: option.split)
qed

lemma decoded_text_short: "length p < 4 \<Longrightarrow> decoded_text p = (if p = [] then Some [] else None)"
  by (cases p) (auto simp: decoded_text_def)

lemma quad_length: "base64_decode_quad q = Some w \<Longrightarrow> 0 < length w \<and> length w \<le> 3"
  by (auto simp: base64_decode_quad_def Let_def split: if_splits)

lemma quad_take: "4 \<le> length d \<Longrightarrow> base64_decode_quad (take 4 d) = base64_decode_quad d"
  by (simp add: base64_decode_quad_def)

definition step_ok :: "evp_encode_ctx \<Rightarrow> bytes \<Rightarrow> bytes option \<times> evp_encode_ctx \<Rightarrow> bool" where
  "step_ok ctx inp r =
     (case r of
        (None, ctx') \<Rightarrow> error_encountered ctx' \<and> (\<forall>s. decode_rest ctx (strip inp @ s) = None)
      | (Some w, ctx') \<Rightarrow> decode_ok ctx' \<and> length w \<le> data_used ctx + length inp \<and>
          (\<forall>s. decode_rest ctx (strip inp @ s) = map_option ((@) w) (decode_rest ctx' s)))"

lemma decode_rest_eof: "eof_seen ctx \<Longrightarrow> t \<noteq> [] \<Longrightarrow> decode_rest ctx t = None"
  by (simp add: decode_rest_def)

lemma map_append_Nil [simp]: "map_option ((@) []) r = r"
  by (cases r) simp_all

lemma decode_update_loop_append:
  "decode_update_loop ctx (out1 @ out) inp =
     (case decode_update_loop ctx out inp of (r, ctx') \<Rightarrow> (map_option ((@) out1) r, ctx'))"
proof (induction ctx out inp rule: decode_update_loop.induct)
  case (2 ctx out c inp)
  let ?ctx = "ctx\<lparr>ctx_data := (ctx_data ctx)[data_used ctx := c], data_used := data_used ctx + 1\<rparr>"
  consider "c \<in> {0x20, 0x09, 0x0d, 0x0a}" | "c \<notin> {0x20, 0x09, 0x0d, 0x0a}" "eof_seen ctx"
    | "c \<notin> {0x20, 0x09, 0x0d, 0x0a}" "\<not> eof_seen ctx" "data_used ?ctx \<noteq> 4"
    | "c \<notin> {0x20, 0x09, 0x0d, 0x0a}" "\<not> eof_seen ctx" "data_used ?ctx = 4"
    by blast
  then show ?case
  proof cases
    case 1
    with "2.IH"(1) [OF 1] show ?thesis by simp
  next
    case 3
    with "2.IH"(3) [OF 3(1,2) refl 3(3)] show ?thesis by simp
  next
    case 4
    show ?thesis
    proof (cases "base64_decode_quad (ctx_data ?ctx)")
      case (Some quad)
      from "2.IH"(2) [OF 4(1,2) refl 4(3) Some refl refl] 4 Some show ?thesis
        by (cases "length quad < 3") (simp_all add: Let_def)
    qed (use 4 in simp)
  qed simp
qed simp

lemma append_append_fun: "(@) (u @ w) = (\<lambda>x. u @ w @ x)"
  by (rule ext) simp

lemmas decode_update_loop_out = decode_update_loop_append [where out = "[]", simplified]

lemma decode_update_loop_ok:
  assumes "decode_ok ctx"
  shows "step_ok ctx inp (decode_update_loop ctx [] inp)"
  using assms
proof (induction inp arbitrary: ctx)
  case Nil
  then show ?case
    by (simp add: step_ok_def)
next
  case (Cons c inp)
  have ok: "data_used ctx < 4" "length (ctx_data ctx) = 48" "eof_seen ctx \<Longrightarrow> data_used ctx = 0"
    "\<not> error_encountered ctx"
    using Cons.prems by (simp_all add: decode_ok_def)
  define ctx1 where "ctx1 = ctx\<lparr>ctx_data := (ctx_data ctx)[data_used ctx := c], data_used := data_used ctx + 1\<rparr>"
  have p1: "pending ctx1 = pending ctx @ [c]" "data_used ctx1 = data_used ctx + 1" "length (ctx_data ctx1) = 48"
    "eof_seen ctx1 = eof_seen ctx" "\<not> error_encountered ctx1"
    using ok by (simp_all add: ctx1_def pending_def take_Suc_conv_app_nth)
  consider "is_blank c" | "\<not> is_blank c" "eof_seen ctx" | "\<not> is_blank c" "\<not> eof_seen ctx" "data_used ctx1 < 4"
    | "\<not> is_blank c" "\<not> eof_seen ctx" "data_used ctx1 = 4"
    using ok(1) p1(2) by linarith
  then show ?case
  proof cases
    case 1
    then have "decode_update_loop ctx [] (c # inp) = decode_update_loop ctx [] inp"
      by (simp add: is_blank_def)
    with 1 Cons show ?thesis
      by (force simp: step_ok_def split: prod.splits option.splits)
  next
    case 2
    then have "decode_update_loop ctx [] (c # inp) = (None, ctx\<lparr>error_encountered := True\<rparr>)"
      by (simp add: is_blank_def)
    with 2 show ?thesis
      by (simp add: step_ok_def decode_rest_eof)
  next
    case 3
    then have "decode_update_loop ctx [] (c # inp) = decode_update_loop ctx1 [] inp"
      by (simp add: is_blank_def ctx1_def)
    moreover have "decode_ok ctx1"
      using 3 p1 by (simp add: decode_ok_def)
    note Cons.IH [OF this]
    moreover have "decode_rest ctx (c # t) = decode_rest ctx1 t" for t
      using 3(2) p1 by (simp add: decode_rest_def)
    ultimately show ?thesis
      using 3(1) p1(2) by (simp add: step_ok_def split: prod.splits option.splits)
  next
    case 4
    have q: "length (pending ctx1) = 4" "base64_decode_quad (ctx_data ctx1) = base64_decode_quad (pending ctx1)"
      using 4 p1(3) by (simp_all add: pending_def quad_take)
    have rest: "decode_rest ctx (c # t) = (case base64_decode_quad (pending ctx1) of None \<Rightarrow> None
        | Some w \<Rightarrow> if length w \<noteq> 3 \<and> t \<noteq> [] then None else map_option ((@) w) (decoded_text t))" for t
      using 4(2) decoded_text_quad [OF q(1), of t] by (simp add: decode_rest_def p1(1))
    show ?thesis
    proof (cases "base64_decode_quad (pending ctx1)")
      case None
      have "decode_update_loop ctx [] (c # inp) = (None, ctx1\<lparr>error_encountered := True\<rparr>)"
        using 4 None q(2) by (simp add: is_blank_def ctx1_def)
      with 4(1) None show ?thesis
        by (simp add: step_ok_def rest)
    next
      case (Some w)
      define ctx2 where "ctx2 = (if length w < 3 then ctx1\<lparr>data_used := 0, eof_seen := True\<rparr> else ctx1\<lparr>data_used := 0\<rparr>)"
      have w: "length w \<le> 3" using quad_length [OF Some] by simp
      have step: "decode_update_loop ctx [] (c # inp) = decode_update_loop ctx2 w inp"
        using 4 Some q(2) by (simp add: is_blank_def ctx1_def ctx2_def)
      have ok2: "decode_ok ctx2" "data_used ctx2 = 0"
        using p1 by (simp_all add: decode_ok_def ctx2_def)
      have "decode_rest ctx2 t = (if length w < 3 then if t = [] then Some [] else None else decoded_text t)" for t
        using 4(2) p1(4) by (simp add: ctx2_def decode_rest_def pending_def)
      then have rest2: "decode_rest ctx (c # t) = map_option ((@) w) (decode_rest ctx2 t)" for t
        using w unfolding rest Some by (simp add: decoded_text_short)
      from Cons.IH [OF ok2(1)] show ?thesis
        unfolding step decode_update_loop_out [of ctx2 w] using 4(1) w ok2(2) 4(3) p1(2)
        by (auto simp: step_ok_def rest2 option.map_comp comp_def append_append_fun split: prod.splits option.splits)
    qed
  qed
qed


text \<open>A whole run of the decoder.\<close>

fun decode_chunks :: "evp_encode_ctx \<Rightarrow> bytes list \<Rightarrow> bytes option" where
  "decode_chunks ctx [] = (if EVP_DecodeFinal ctx = - 1 then None else Some [])"
| "decode_chunks ctx (x # xs) =
     (case EVP_DecodeUpdate ctx x (length x) of (r, out, ctx) \<Rightarrow>
        if r = - 1 then None else map_option ((@) out) (decode_chunks ctx xs))"

lemma decode_chunks_rest:
  assumes "decode_ok ctx" "\<forall>x \<in> set xs. length x < 2 ^ 30"
  shows "decode_chunks ctx xs = decode_rest ctx (strip (concat xs))"
  using assms
proof (induction xs arbitrary: ctx)
  case Nil
  then show ?case
    by (auto simp: EVP_DecodeFinal_def decode_ok_def decode_rest_def pending_def decoded_text_short)
next
  case (Cons x xs)
  obtain r ctx' where l: "decode_update_loop ctx [] x = (r, ctx')" by (rule prod.exhaust)
  have ok: "\<not> error_encountered ctx" "data_used ctx < 4"
    using Cons.prems(1) by (simp_all add: decode_ok_def)
  note step = decode_update_loop_ok [OF Cons.prems(1), of x, unfolded l]
  show ?case
  proof (cases r)
    case None
    with l ok step show ?thesis
      by (simp add: EVP_DecodeUpdate_def step_ok_def)
  next
    case (Some w)
    with step have "decode_ok ctx'" "length w \<le> 2147483647"
      and rest: "decode_rest ctx (strip x @ s) = map_option ((@) w) (decode_rest ctx' s)" for s
      using Cons.prems(2) ok(2) by (auto simp: step_ok_def)
    moreover from this Cons.prems(2) have
      "decode_chunks ctx' xs = decode_rest ctx' (strip (concat xs))"
      by (intro Cons.IH) simp_all
    ultimately show ?thesis
      using l ok Some by (simp add: EVP_DecodeUpdate_def)
  qed
qed

lemma not_blank: "\<not> is_blank (letter n)" "\<not> is_blank 0x3d"
proof -
  have "alphabet n \<notin> {32, 9, 13, 10}" by (auto simp: alphabet_def)
  then show "\<not> is_blank (letter n)"
    by (simp add: is_blank_def word_unat_eq_iff unat_letter)
qed (simp add: is_blank_def)

lemma strip_letters: "strip (letters n) = letters n" "strip (take 3 (letters n)) = take 3 (letters n)"
    "strip (take 2 (letters n)) = take 2 (letters n)"
  by (simp_all only: letters_take strip_simps not_blank if_False)
    (simp only: letters_def strip_simps not_blank if_False)

lemma encode_block_not_blank: "strip (encode_block_loop s) = encode_block_loop s"
  by (induction s rule: encode_block_loop.induct)
    (simp_all only: encode_block_simps encode_block_loop.simps(1) strip_letters strip_simps not_blank if_False)

lemma encode_block_append:
  "length p mod 3 = 0 \<Longrightarrow> encode_block_loop (p @ s) = encode_block_loop p @ encode_block_loop s"
  by (induction p rule: encode_block_loop.induct) (simp_all add: Let_def)

lemma encoded_text_not_blank: "strip (encoded_text s) = encode_block_loop s"
proof (induction s rule: encoded_text.induct)
  case (1 s)
  have nl: "is_blank 0x0a" by (simp add: is_blank_def)
  show ?case
  proof (cases "s = [] \<or> length s < 48")
    case True
    then show ?thesis
      by (subst encoded_text.simps) (auto simp: nl encode_block_not_blank)
  next
    case False
    then have "length (take 48 s) mod 3 = 0" by simp
    from encode_block_append [OF this, of "drop 48 s"] False 1 show ?thesis
      by (subst encoded_text.simps) (simp add: nl encode_block_not_blank)
  qed
qed

lemma length_encode_block_mod: "length (encode_block_loop s) mod 4 = 0"
  by (simp add: length_encode_block)

lemma init_ok: "encode_ok EVP_EncodeInit" "decode_ok EVP_DecodeInit" "pending EVP_EncodeInit = []"
    "pending EVP_DecodeInit = []" "\<not> eof_seen EVP_DecodeInit"
  by (simp_all add: encode_ok_def decode_ok_def EVP_EncodeInit_def EVP_DecodeInit_def CTX_DATA_def pending_def)

section \<open>Properties\<close>

text \<open>
  What \<open>EVP_EncodeBlock\<close> writes, \<open>EVP_DecodeBase64\<close> reads back, whatever the message, once it is
  given room for whole quads.
\<close>

theorem base64_block_roundtrip:
  assumes "3 * ((length s + 2) div 3) \<le> max_out"
  shows "EVP_DecodeBase64 max_out (EVP_EncodeBlock s (length s)) (length (EVP_EncodeBlock s (length s))) = Some s"
proof -
  have enc: "EVP_EncodeBlock s (length s) = encode_block_loop s"
    by (simp add: EVP_EncodeBlock_def)
  have "size_mul (length (encode_block_loop s) div 4) 3 \<le> 3 * ((length s + 2) div 3)"
    by (simp add: size_mul_def length_encode_block mult.commute)
  with assms have "\<not> max_out < size_mul (length (encode_block_loop s) div 4) 3" by simp
  then show ?thesis
    unfolding enc EVP_DecodeBase64_def EVP_DecodedLength_def
    by (simp add: length_encode_block_mod decode_encode_loop)
qed

theorem base64_block_roundtrip_witness:
  "EVP_DecodeBase64 6 (EVP_EncodeBlock [0, 255, 16, 131] 4) 8 = Some [0, 255, 16, 131]"
  using base64_block_roundtrip [of "[0, 255, 16, 131]" 6]
  by (simp add: EVP_EncodeBlock_def length_encode_block del: encode_block_loop.simps)

text \<open>
  C35: \<open>EVP_EncodedLength\<close> is the length of what \<open>EVP_EncodeBlock\<close> writes, with its NUL, and fails exactly
  when that is no \<open>size_t\<close>.
\<close>

theorem encoded_length_exact:
  assumes "length s < SIZE_MOD"
  shows "EVP_EncodedLength (length s) =
    (let n = length (EVP_EncodeBlock s (length s)) + 1 in if n < SIZE_MOD then Some n else None)"
proof -
  define n where "n = length s"
  have enc: "length (EVP_EncodeBlock s n) = 4 * ((n + 2) div 3)"
    by (simp add: EVP_EncodeBlock_def length_encode_block n_def)
  show ?thesis
  proof (cases "n + 2 < SIZE_MOD")
    case False
    have "(n + 2) mod SIZE_MOD = n + 2 - SIZE_MOD"
      using False assms by (subst le_mod_geq) (simp_all add: n_def SIZE_MOD_def)
    with False assms have "size_add n 2 < n" "\<not> 4 * ((n + 2) div 3) + 1 < SIZE_MOD"
      by (simp_all add: n_def size_add_def SIZE_MOD_def)
    then show ?thesis
      unfolding n_def [symmetric] enc by (simp add: EVP_EncodedLength_def Let_def)
  next
    case True
    define q where "q = (n + 2) div 3"
    have q: "size_add n 2 = n + 2" "\<not> n + 2 < n" "q < SIZE_MOD"
      using True by (simp_all add: size_add_exact q_def SIZE_MOD_def)
    have wraps: "size_mul q 4 div 4 \<noteq> q \<longleftrightarrow> \<not> 4 * q + 1 < SIZE_MOD"
    proof -
      have "q * 4 mod SIZE_MOD = 4 * (q mod 4611686018427387904)"
        by (simp add: SIZE_MOD_def mult_mod_right mult.commute)
      then have "size_mul q 4 div 4 = q mod 4611686018427387904"
        by (simp add: size_mul_def)
      moreover have "q mod 4611686018427387904 \<noteq> q \<longleftrightarrow> \<not> q < 4611686018427387904"
        by (metis mod_less mod_less_divisor zero_less_numeral)
      ultimately show ?thesis by (simp add: SIZE_MOD_def) linarith
    qed
    have "size_mul q 4 = 4 * q \<and> size_add (4 * q) 1 = 4 * q + 1" if "4 * q + 1 < SIZE_MOD"
      using that by (simp add: size_mul_def size_add_def mult.commute)
    with wraps show ?thesis
      unfolding n_def [symmetric] enc EVP_EncodedLength_def q(1) if_not_P [OF q(2)] q_def [symmetric] Let_def
      by auto
  qed
qed

theorem encoded_length_exact_witness: "EVP_EncodedLength (length [1, 2, 3, 4 :: byte]) = Some 9"
  using encoded_length_exact [of "[1, 2, 3, 4]"]
  by (simp add: SIZE_MOD_def EVP_EncodeBlock_def length_encode_block del: encode_block_loop.simps)

text \<open>
  However a message is cut into chunks, the streaming encoder writes the text of the whole message,
  in lines of 48 bytes, and \<open>*out_len\<close> tells how much.
\<close>

theorem encode_stream_any_chunks:
  assumes "\<forall>x \<in> set xs. length x < 2 ^ 29"
  shows "encode_chunks EVP_EncodeInit xs = encoded_text (concat xs)"
  using encode_chunks_text [OF init_ok(1) assms] by (simp add: init_ok)

theorem encode_stream_any_chunks_witness: "encode_chunks EVP_EncodeInit [[1, 2], [], [3, 4]] = encoded_text [1, 2, 3, 4]"
  using encode_stream_any_chunks [of "[[1, 2], [], [3, 4]]"] by simp

text \<open>
  C21: however a text is cut into chunks, the streaming decoder accepts what the block decoder accepts
  once the blanks are gone, and gives the same bytes.
\<close>

theorem decode_stream_any_chunks:
  assumes "\<forall>x \<in> set xs. length x < 2 ^ 30"
  shows "decode_chunks EVP_DecodeInit xs =
    (let t = strip (concat xs) in EVP_DecodeBase64 (length t) t (length t))"
proof -
  have "EVP_DecodeBase64 (length t) t (length t) = decoded_text t" for t
  proof -
    have "size_mul (length t div 4) 3 \<le> length t div 4 * 3"
      by (simp add: size_mul_def)
    then have "\<not> length t < size_mul (length t div 4) 3" by linarith
    then show ?thesis
      by (simp add: EVP_DecodeBase64_def EVP_DecodedLength_def decoded_text_def)
  qed
  with decode_chunks_rest [OF init_ok(2) assms] show ?thesis
    by (simp add: decode_rest_def init_ok)
qed

theorem decode_stream_any_chunks_witness:
  "decode_chunks EVP_DecodeInit [[0x41, 0x0a, 0x51], [0x3d], [0x3d, 0x20]] = EVP_DecodeBase64 4 [0x41, 0x51, 0x3d, 0x3d] 4"
proof -
  have "strip (concat [[0x41, 0x0a, 0x51], [0x3d], [0x3d, 0x20]]) = [0x41, 0x51, 0x3d, 0x3d]"
    by (simp add: is_blank_def)
  moreover have "length [0x41, 0x51, 0x3d, 0x3d :: byte] = 4" by simp
  ultimately show ?thesis
    using decode_stream_any_chunks [of "[[0x41, 0x0a, 0x51], [0x3d], [0x3d, 0x20]]"]
    by (simp only: Let_def) simp
qed

text \<open>
  C36: a message that went through the streaming encoder comes back from the streaming decoder, with any
  cuts on both sides.
\<close>

theorem base64_stream_roundtrip:
  assumes "\<forall>x \<in> set xs. length x < 2 ^ 29" "\<forall>y \<in> set ys. length y < 2 ^ 30"
    and "concat ys = encode_chunks EVP_EncodeInit xs"
  shows "decode_chunks EVP_DecodeInit ys = Some (concat xs)"
proof -
  have "concat ys = encoded_text (concat xs)"
    unfolding assms(3) encode_chunks_text [OF init_ok(1) assms(1)] by (simp add: init_ok)
  then have "strip (concat ys) = encode_block_loop (concat xs)"
    by (simp only: encoded_text_not_blank)
  then show ?thesis
    using decode_chunks_rest [OF init_ok(2) assms(2)]
    by (simp only: decode_rest_def init_ok decoded_text_def length_encode_block_mod decode_encode_loop append_Nil
        if_False if_True refl)
qed

text \<open>What one chunk encodes to, for evaluation.\<close>

lemma encode_small:
  assumes "s \<noteq> []" "length s < 48"
  shows "encode_chunks EVP_EncodeInit [s] = encode_block_loop s @ [0x0a]"
proof -
  have "encode_chunks EVP_EncodeInit [s] = encoded_text s"
    using encode_chunks_text [OF init_ok(1), of "[s]"] assms(2) by (simp add: init_ok)
  with assms show ?thesis
    by (simp add: encoded_text.simps)
qed

lemma encode_a: "encode_chunks EVP_EncodeInit [[0]] = [0x41, 0x41, 0x3d, 0x3d, 0x0a]"
proof -
  have "encode_chunks EVP_EncodeInit [[0]] = encode_block_loop [0] @ [0x0a]"
    by (rule encode_small) simp_all
  then show ?thesis
    unfolding encode_block_simps by (simp add: letters_take letter_def alphabet_def del: encode_chunks.simps)
qed

theorem base64_stream_roundtrip_witness:
  "decode_chunks EVP_DecodeInit [[0x41], [0x41, 0x3d], [0x3d, 0x0a]] = Some [0]"
  using base64_stream_roundtrip [of "[[0]]" "[[0x41], [0x41, 0x3d], [0x3d, 0x0a]]"]
  by (simp add: encode_a del: encode_chunks.simps decode_chunks.simps)

end
