(* ===== verification/Stack.thy ===== *)
theory Stack
  imports Comparison Mem "HOL-Library.Multiset"
begin

text \<open>
  \<open>crypto/stack/stack.c\<close>: the growable array of pointers, with its heap sort and its searches.

  A pointer is \<open>None\<close> for \<open>NULL\<close> and \<open>Some x\<close> for a pointer to the object \<open>x\<close>; two pointers are equal when
  they are equal as values of this type. \<open>data\<close> is the whole allocated block, whose slots from \<open>num\<close> on
  hold what happened to be there: \<open>stale\<close> is what a fresh block holds, and no property depends on it. The
  function pointer \<open>comp\<close> is a value of the type \<open>'c\<close> that only \<open>call_cmp_func\<close> can apply, as in the code. A
  function that calls back with an effect (copying, freeing) threads the caller's state. A stack
  argument is \<open>None\<close> for \<open>NULL\<close>.
\<close>

section \<open>Stacks\<close>

record ('a, 'c) stack =
  num :: nat
  data :: "'a option list"
  sorted_flag :: bool
  num_alloc :: nat
  comp :: "'c option"

definition kMinSize :: nat where "kMinSize = 4"

definition pointer_size :: nat where "pointer_size = 8"

definition stack_struct_size :: nat where "stack_struct_size = 40"

text \<open>\<open>OPENSSL_realloc\<close> and \<open>OPENSSL_memdup\<close> for a block of pointers.\<close>

definition realloc_pointers :: "allocator \<Rightarrow> (nat \<Rightarrow> 'a option) \<Rightarrow> 'a option list \<Rightarrow> nat \<Rightarrow> 'a option list option" where
  "realloc_pointers al stale old new_size =
     (case OPENSSL_malloc al new_size of None \<Rightarrow> None
      | Some _ \<Rightarrow> Some (take (new_size div pointer_size) old @ map stale [length old..<new_size div pointer_size]))"

definition memdup_pointers :: "allocator \<Rightarrow> 'a option list \<Rightarrow> nat \<Rightarrow> 'a option list option" where
  "memdup_pointers al old dup_size =
     (if dup_size = 0 then None
      else case OPENSSL_malloc al dup_size of None \<Rightarrow> None | Some _ \<Rightarrow> Some (take (dup_size div pointer_size) old))"

text \<open>\<open>memmove\<close> of \<open>n\<close> pointers from \<open>src\<close> to \<open>dst\<close> in one block.\<close>

definition move_pointers :: "'a option list \<Rightarrow> nat \<Rightarrow> nat \<Rightarrow> nat \<Rightarrow> 'a option list" where
  "move_pointers d dst src n = take dst d @ take n (drop src d) @ drop (dst + n) d"

definition OPENSSL_sk_new :: "allocator \<Rightarrow> 'c option \<Rightarrow> ('a, 'c) stack option" where
  "OPENSSL_sk_new al cmp =
     (case OPENSSL_zalloc al stack_struct_size of None \<Rightarrow> None
      | Some _ \<Rightarrow>
     (case OPENSSL_calloc al kMinSize pointer_size of None \<Rightarrow> None
      | Some _ \<Rightarrow> Some \<lparr>num = 0, data = replicate kMinSize None, sorted_flag = False, num_alloc = kMinSize, comp = cmp\<rparr>))"

definition OPENSSL_sk_new_null :: "allocator \<Rightarrow> ('a, 'c) stack option" where
  "OPENSSL_sk_new_null al = OPENSSL_sk_new al None"

definition OPENSSL_sk_num :: "('a, 'c) stack option \<Rightarrow> nat" where
  "OPENSSL_sk_num sk = (case sk of None \<Rightarrow> 0 | Some sk \<Rightarrow> num sk)"

definition OPENSSL_sk_zero :: "('a, 'c) stack option \<Rightarrow> ('a, 'c) stack option" where
  "OPENSSL_sk_zero sk =
     (case sk of None \<Rightarrow> None
      | Some sk \<Rightarrow>
          if num sk = 0 then Some sk
          else Some (sk\<lparr>data := replicate (num sk) None @ drop (num sk) (data sk), num := 0, sorted_flag := False\<rparr>))"

definition OPENSSL_sk_value :: "('a, 'c) stack option \<Rightarrow> nat \<Rightarrow> 'a option" where
  "OPENSSL_sk_value sk i =
     (case sk of None \<Rightarrow> None | Some sk \<Rightarrow> if i \<ge> num sk then None else data sk ! i)"

definition OPENSSL_sk_set :: "('a, 'c) stack option \<Rightarrow> nat \<Rightarrow> 'a option \<Rightarrow> 'a option \<times> ('a, 'c) stack option" where
  "OPENSSL_sk_set sk i value =
     (case sk of None \<Rightarrow> (None, None)
      | Some sk \<Rightarrow> if i \<ge> num sk then (None, Some sk) else (value, Some (sk\<lparr>data := (data sk)[i := value]\<rparr>)))"

text \<open>The objects are freed through \<open>call_free_func\<close>, the block by the C library.\<close>

fun pop_free_loop :: "('f \<Rightarrow> 'a \<Rightarrow> 's \<Rightarrow> 's) \<Rightarrow> 'f \<Rightarrow> 'a option list \<Rightarrow> 's \<Rightarrow> 's" where
  "pop_free_loop call_free_func free_func [] s = s"
| "pop_free_loop call_free_func free_func (None # d) s = pop_free_loop call_free_func free_func d s"
| "pop_free_loop call_free_func free_func (Some x # d) s =
     pop_free_loop call_free_func free_func d (call_free_func free_func x s)"

definition OPENSSL_sk_pop_free_ex :: "('a, 'c) stack option \<Rightarrow> ('f \<Rightarrow> 'a \<Rightarrow> 's \<Rightarrow> 's) \<Rightarrow> 'f \<Rightarrow> 's \<Rightarrow> 's" where
  "OPENSSL_sk_pop_free_ex sk call_free_func free_func s =
     (case sk of None \<Rightarrow> s | Some sk \<Rightarrow> pop_free_loop call_free_func free_func (take (num sk) (data sk)) s)"

definition call_free_func_legacy :: "('a \<Rightarrow> 's \<Rightarrow> 's) \<Rightarrow> 'a \<Rightarrow> 's \<Rightarrow> 's" where
  "call_free_func_legacy func ptr = func ptr"

definition sk_pop_free :: "('a, 'c) stack option \<Rightarrow> ('a \<Rightarrow> 's \<Rightarrow> 's) \<Rightarrow> 's \<Rightarrow> 's" where
  "sk_pop_free sk free_func = OPENSSL_sk_pop_free_ex sk call_free_func_legacy free_func"

section \<open>Insertion and deletion\<close>

text \<open>The block after room has been made, and its new capacity.\<close>

definition sk_grow :: "allocator \<Rightarrow> (nat \<Rightarrow> 'a option) \<Rightarrow> ('a, 'c) stack \<Rightarrow> ('a, 'c) stack option" where
  "sk_grow al stale sk =
     (if num_alloc sk \<le> num sk + 1
      then
        let new_alloc = size_mul (num_alloc sk) 2;
            alloc_size = size_mul new_alloc pointer_size;
            (new_alloc, alloc_size) =
              (if new_alloc < num_alloc sk \<or> alloc_size div pointer_size \<noteq> new_alloc
               then (size_add (num_alloc sk) 1, size_mul (size_add (num_alloc sk) 1) pointer_size)
               else (new_alloc, alloc_size))
        in if new_alloc < num_alloc sk \<or> alloc_size div pointer_size \<noteq> new_alloc then None
        else
          (case realloc_pointers al stale (data sk) alloc_size of None \<Rightarrow> None
           | Some d \<Rightarrow> Some (sk\<lparr>data := d, num_alloc := new_alloc\<rparr>))
      else Some sk)"

definition OPENSSL_sk_insert ::
    "allocator \<Rightarrow> (nat \<Rightarrow> 'a option) \<Rightarrow> ('a, 'c) stack option \<Rightarrow> 'a option \<Rightarrow> nat \<Rightarrow> nat \<times> ('a, 'c) stack option" where
  "OPENSSL_sk_insert al stale sk p pos =
     (case sk of None \<Rightarrow> (0, None)
      | Some sk \<Rightarrow>
          if num sk \<ge> 2147483647 then (0, Some sk)
          else case sk_grow al stale sk of None \<Rightarrow> (0, Some sk)
          | Some sk \<Rightarrow>
              let sk = (if pos \<ge> num sk then sk\<lparr>data := (data sk)[num sk := p]\<rparr>
                        else sk\<lparr>data := (move_pointers (data sk) (pos + 1) pos (num sk - pos))[pos := p]\<rparr>);
                  sk = sk\<lparr>num := num sk + 1, sorted_flag := False\<rparr>
              in (num sk, Some sk))"

definition OPENSSL_sk_delete :: "('a, 'c) stack option \<Rightarrow> nat \<Rightarrow> 'a option \<times> ('a, 'c) stack option" where
  "OPENSSL_sk_delete sk pos =
     (case sk of None \<Rightarrow> (None, None)
      | Some sk \<Rightarrow>
          if pos \<ge> num sk then (None, Some sk)
          else
            let ret = data sk ! pos;
                sk = (if pos \<noteq> num sk - 1
                      then sk\<lparr>data := move_pointers (data sk) pos (pos + 1) (num sk - pos - 1)\<rparr> else sk)
            in (ret, Some (sk\<lparr>num := num sk - 1\<rparr>)))"

text \<open>The loops that look for the first of the elements \<open>i\<close>, \<open>\<dots>\<close>, \<open>n - 1\<close> that passes a test.\<close>

function scan_loop :: "('x \<Rightarrow> bool) \<Rightarrow> 'x list \<Rightarrow> nat \<Rightarrow> nat \<Rightarrow> nat option" where
  "scan_loop test d i n =
     (if i < n then if test (d ! i) then Some i else scan_loop test d (i + 1) n else None)"
  by pat_completeness auto
termination
  by (relation "measure (\<lambda>(_, _, i, n). n - i)") auto

declare scan_loop.simps [simp del]

definition OPENSSL_sk_delete_ptr :: "('a, 'c) stack option \<Rightarrow> 'a option \<Rightarrow> 'a option \<times> ('a, 'c) stack option" where
  "OPENSSL_sk_delete_ptr sk p =
     (case sk of None \<Rightarrow> (None, None)
      | Some s \<Rightarrow>
          (case scan_loop (\<lambda>q. q = p) (data s) 0 (num s) of
             Some i \<Rightarrow> OPENSSL_sk_delete sk i
           | None \<Rightarrow> (None, sk)))"

function delete_if_loop :: "('a option \<Rightarrow> bool) \<Rightarrow> 'a option list \<Rightarrow> nat \<Rightarrow> nat \<Rightarrow> nat \<Rightarrow> 'a option list \<times> nat" where
  "delete_if_loop test d new_num i n =
     (if i < n
      then if \<not> test (d ! i) then delete_if_loop test (d[new_num := d ! i]) (new_num + 1) (i + 1) n
        else delete_if_loop test d new_num (i + 1) n
      else (d, new_num))"
  by pat_completeness auto
termination
  by (relation "measure (\<lambda>(_, _, _, i, n). n - i)") auto

declare delete_if_loop.simps [simp del]

definition OPENSSL_sk_delete_if ::
    "('a, 'c) stack option \<Rightarrow> ('f \<Rightarrow> 'a option \<Rightarrow> 'u \<Rightarrow> bool) \<Rightarrow> 'f \<Rightarrow> 'u \<Rightarrow> ('a, 'c) stack option" where
  "OPENSSL_sk_delete_if sk call_func func u =
     (case sk of None \<Rightarrow> None
      | Some sk \<Rightarrow>
          (case delete_if_loop (\<lambda>p. call_func func p u) (data sk) 0 0 (num sk) of
             (d, new_num) \<Rightarrow> Some (sk\<lparr>data := d, num := new_num\<rparr>)))"

definition OPENSSL_sk_shift :: "('a, 'c) stack option \<Rightarrow> 'a option \<times> ('a, 'c) stack option" where
  "OPENSSL_sk_shift sk =
     (case sk of None \<Rightarrow> (None, None) | Some s \<Rightarrow> if num s = 0 then (None, sk) else OPENSSL_sk_delete sk 0)"

text \<open>\<open>sk->num\<close> is read through the pointer, which must not be \<open>NULL\<close> here.\<close>

definition OPENSSL_sk_push ::
    "allocator \<Rightarrow> (nat \<Rightarrow> 'a option) \<Rightarrow> ('a, 'c) stack \<Rightarrow> 'a option \<Rightarrow> nat \<times> ('a, 'c) stack option" where
  "OPENSSL_sk_push al stale sk p = OPENSSL_sk_insert al stale (Some sk) p (num sk)"

definition OPENSSL_sk_pop :: "('a, 'c) stack option \<Rightarrow> 'a option \<times> ('a, 'c) stack option" where
  "OPENSSL_sk_pop sk =
     (case sk of None \<Rightarrow> (None, None) | Some s \<Rightarrow> if num s = 0 then (None, sk) else OPENSSL_sk_delete sk (num s - 1))"

section \<open>Copies\<close>

definition OPENSSL_sk_dup :: "allocator \<Rightarrow> ('a, 'c) stack option \<Rightarrow> ('a, 'c) stack option" where
  "OPENSSL_sk_dup al sk =
     (case sk of None \<Rightarrow> None
      | Some sk \<Rightarrow>
     (case OPENSSL_zalloc al stack_struct_size of None \<Rightarrow> None
      | Some _ \<Rightarrow>
     (case memdup_pointers al (data sk) (size_mul pointer_size (num_alloc sk)) of None \<Rightarrow> None
      | Some d \<Rightarrow> Some \<lparr>num = num sk, data = d, sorted_flag = sorted_flag sk, num_alloc = num_alloc sk, comp = comp sk\<rparr>)))"

text \<open>
  The loop of \<open>OPENSSL_sk_deep_copy\<close> over the elements not yet copied; \<open>copied\<close> are those before \<open>i\<close>. When a
  copy fails the copies made so far are freed.
\<close>

fun deep_copy_loop :: "('a \<Rightarrow> 's \<Rightarrow> 'a option \<times> 's) \<Rightarrow> ('a \<Rightarrow> 's \<Rightarrow> 's) \<Rightarrow> 'a option list \<Rightarrow> 'a option list \<Rightarrow> 's \<Rightarrow>
    'a option list option \<times> 's" where
  "deep_copy_loop copy free copied [] s = (Some copied, s)"
| "deep_copy_loop copy free copied (None # d) s = deep_copy_loop copy free (copied @ [None]) d s"
| "deep_copy_loop copy free copied (Some x # d) s =
     (case copy x s of
        (None, s) \<Rightarrow> (None, pop_free_loop (\<lambda>_. free) () copied s)
      | (Some y, s) \<Rightarrow> deep_copy_loop copy free (copied @ [Some y]) d s)"

definition OPENSSL_sk_deep_copy ::
    "allocator \<Rightarrow> ('a, 'c) stack option \<Rightarrow> ('g \<Rightarrow> 'a \<Rightarrow> 's \<Rightarrow> 'a option \<times> 's) \<Rightarrow> 'g \<Rightarrow> ('f \<Rightarrow> 'a \<Rightarrow> 's \<Rightarrow> 's) \<Rightarrow> 'f \<Rightarrow> 's \<Rightarrow>
     ('a, 'c) stack option \<times> 's" where
  "OPENSSL_sk_deep_copy al sk call_copy_func copy_func call_free_func free_func s =
     (case OPENSSL_sk_dup al sk of None \<Rightarrow> (None, s)
      | Some ret \<Rightarrow>
          (case deep_copy_loop (call_copy_func copy_func) (call_free_func free_func) [] (take (num ret) (data ret)) s of
             (None, s) \<Rightarrow> (None, s)
           | (Some d, s) \<Rightarrow> (Some (ret\<lparr>data := d @ drop (num ret) (data ret)\<rparr>), s)))"

section \<open>Sorting and searching\<close>

definition OPENSSL_sk_is_sorted :: "('a, 'c) stack option \<Rightarrow> bool" where
  "OPENSSL_sk_is_sorted sk =
     (case sk of None \<Rightarrow> True | Some sk \<Rightarrow> sorted_flag sk \<or> comp sk \<noteq> None \<and> num sk < 2)"

definition OPENSSL_sk_set_cmp_func :: "('a, 'c) stack \<Rightarrow> 'c option \<Rightarrow> 'c option \<times> ('a, 'c) stack" where
  "OPENSSL_sk_set_cmp_func sk cmp =
     (let old = comp sk;
          sk = (if comp sk \<noteq> cmp then sk\<lparr>sorted_flag := False\<rparr> else sk)
      in (old, sk\<lparr>comp := cmp\<rparr>))"

text \<open>The binary search; its result is \<open>*out_index\<close>, if one is found.\<close>

function find_loop :: "('x \<Rightarrow> int) \<Rightarrow> 'x list \<Rightarrow> nat \<Rightarrow> nat \<Rightarrow> nat option" where
  "find_loop cmp_p d lo hi =
     (if lo < hi
      then
        let mid = lo + (hi - lo - 1) div 2;
            r = cmp_p (d ! mid)
        in if r > 0 then find_loop cmp_p d (mid + 1) hi
        else if r < 0 then find_loop cmp_p d lo mid
        else if hi - lo = 1 then Some mid
        else find_loop cmp_p d lo (mid + 1)
      else None)"
  by pat_completeness auto
termination
  by (relation "measure (\<lambda>(_, _, lo, hi). hi - lo)") auto

declare find_loop.simps [simp del]

definition OPENSSL_sk_find ::
    "('a, 'c) stack option \<Rightarrow> 'a option \<Rightarrow> ('c \<Rightarrow> 'a option \<Rightarrow> 'a option \<Rightarrow> int) \<Rightarrow> nat option" where
  "OPENSSL_sk_find sk p call_cmp_func =
     (case sk of None \<Rightarrow> None
      | Some s \<Rightarrow>
     (case comp s of
        None \<Rightarrow> scan_loop (\<lambda>q. q = p) (data s) 0 (num s)
      | Some c \<Rightarrow>
          if p = None then None
          else if \<not> OPENSSL_sk_is_sorted sk then scan_loop (\<lambda>q. call_cmp_func c p q = 0) (data s) 0 (num s)
          else find_loop (call_cmp_func c p) (data s) 0 (num s)))"

definition parent_idx :: "nat \<Rightarrow> nat" where
  "parent_idx idx = (idx - 1) div 2"

definition left_idx :: "nat \<Rightarrow> nat" where
  "left_idx idx = 2 * idx + 1"

function down_heap :: "('x \<Rightarrow> 'x \<Rightarrow> int) \<Rightarrow> 'x list \<Rightarrow> nat \<Rightarrow> nat \<Rightarrow> 'x list" where
  "down_heap cmp d i n =
     (let left = left_idx i
      in if left \<ge> n then d
      else
        let next = (if cmp (d ! i) (d ! left) < 0 then left else i);
            right = left + 1;
            next = (if right < n \<and> cmp (d ! next) (d ! right) < 0 then right else next)
        in if i = next then d
        else down_heap cmp (d[i := d ! next, next := d ! i]) next n)"
  by pat_completeness auto
termination
  by (relation "measure (\<lambda>(_, _, i, n). n - i)") (auto simp: left_idx_def split: if_splits)

declare down_heap.simps [simp del]

text \<open>The first loop of the sort; \<open>i--\<close> at 0 gives the largest \<open>size_t\<close>, which ends it.\<close>

fun build_heap_loop :: "('x \<Rightarrow> 'x \<Rightarrow> int) \<Rightarrow> 'x list \<Rightarrow> nat \<Rightarrow> nat \<Rightarrow> 'x list" where
  "build_heap_loop cmp d 0 n = down_heap cmp d 0 n"
| "build_heap_loop cmp d (Suc i) n = build_heap_loop cmp (down_heap cmp d (Suc i) n) i n"

fun remove_max_loop :: "('x \<Rightarrow> 'x \<Rightarrow> int) \<Rightarrow> 'x list \<Rightarrow> nat \<Rightarrow> 'x list" where
  "remove_max_loop cmp d 0 = d"
| "remove_max_loop cmp d (Suc i) =
     remove_max_loop cmp (down_heap cmp (d[0 := d ! Suc i, Suc i := d ! 0]) 0 (Suc i)) i"

definition OPENSSL_sk_sort ::
    "('a, 'c) stack option \<Rightarrow> ('c \<Rightarrow> 'a option \<Rightarrow> 'a option \<Rightarrow> int) \<Rightarrow> ('a, 'c) stack option" where
  "OPENSSL_sk_sort sk call_cmp_func =
     (case sk of None \<Rightarrow> None
      | Some s \<Rightarrow>
     (case comp s of None \<Rightarrow> sk
      | Some c \<Rightarrow>
          if sorted_flag s then sk
          else
            let d = (if num s \<ge> 2
                     then remove_max_loop (call_cmp_func c)
                       (build_heap_loop (call_cmp_func c) (data s) (parent_idx (num s - 1)) (num s)) (num s - 1)
                     else data s)
            in Some (s\<lparr>data := d, sorted_flag := True\<rparr>)))"

section \<open>The names kept for old callers\<close>

definition sk_new_null :: "allocator \<Rightarrow> ('a, 'c) stack option" where
  "sk_new_null al = OPENSSL_sk_new_null al"

definition sk_num :: "('a, 'c) stack option \<Rightarrow> nat" where
  "sk_num sk = OPENSSL_sk_num sk"

definition sk_value :: "('a, 'c) stack option \<Rightarrow> nat \<Rightarrow> 'a option" where
  "sk_value sk i = OPENSSL_sk_value sk i"

definition sk_push ::
    "allocator \<Rightarrow> (nat \<Rightarrow> 'a option) \<Rightarrow> ('a, 'c) stack \<Rightarrow> 'a option \<Rightarrow> nat \<times> ('a, 'c) stack option" where
  "sk_push al stale sk p = OPENSSL_sk_push al stale sk p"

definition sk_pop :: "('a, 'c) stack option \<Rightarrow> 'a option \<times> ('a, 'c) stack option" where
  "sk_pop sk = OPENSSL_sk_pop sk"

definition sk_pop_free_ex :: "('a, 'c) stack option \<Rightarrow> ('f \<Rightarrow> 'a \<Rightarrow> 's \<Rightarrow> 's) \<Rightarrow> 'f \<Rightarrow> 's \<Rightarrow> 's" where
  "sk_pop_free_ex sk call_free_func free_func = OPENSSL_sk_pop_free_ex sk call_free_func free_func"

section \<open>Loops\<close>

lemma scan_loop_Some: "scan_loop test d i n = Some j \<longleftrightarrow> i \<le> j \<and> j < n \<and> test (d ! j) \<and> (\<forall>k. i \<le> k \<and> k < j \<longrightarrow> \<not> test (d ! k))"
proof (induction test d i n rule: scan_loop.induct)
  case (1 test d i n)
  consider "\<not> i < n" | "i < n" "test (d ! i)" | "i < n" "\<not> test (d ! i)" by blast
  then show ?case
  proof cases
    case 1
    then show ?thesis by (subst scan_loop.simps) simp
  next
    case 2
    then show ?thesis by (subst scan_loop.simps) (auto simp: less_le)
  next
    case 3
    then have "(i \<le> j \<and> j < n \<and> test (d ! j) \<and> (\<forall>k. i \<le> k \<and> k < j \<longrightarrow> \<not> test (d ! k))) \<longleftrightarrow>
        (i + 1 \<le> j \<and> j < n \<and> test (d ! j) \<and> (\<forall>k. i + 1 \<le> k \<and> k < j \<longrightarrow> \<not> test (d ! k)))"
      by (metis Suc_eq_plus1 Suc_leD le_eq_less_or_eq less_eq_Suc_le order_refl)
    with 3 1 show ?thesis by (subst scan_loop.simps) simp
  qed
qed

lemma scan_loop_None: "scan_loop test d i n = None \<longleftrightarrow> (\<forall>k. i \<le> k \<and> k < n \<longrightarrow> \<not> test (d ! k))"
proof (induction test d i n rule: scan_loop.induct)
  case (1 test d i n)
  then show ?case
    by (subst scan_loop.simps) (auto simp: less_le intro: le_neq_implies_less, metis Suc_leI le_neq_implies_less)
qed

lemma delete_if_loop_eq:
  assumes "new_num \<le> i" "i \<le> n" "n \<le> length d"
  shows "length (fst (delete_if_loop test d new_num i n)) = length d \<and>
    snd (delete_if_loop test d new_num i n) \<le> n \<and>
    take (snd (delete_if_loop test d new_num i n)) (fst (delete_if_loop test d new_num i n)) =
      take new_num d @ filter (\<lambda>p. \<not> test p) (drop i (take n d))"
  using assms
proof (induction test d new_num i n rule: delete_if_loop.induct)
  case (1 test d new_num i n)
  show ?case
  proof (cases "i < n")
    case False
    with 1 show ?thesis by (subst (1 2 3 4) delete_if_loop.simps) simp
  next
    case True
    with "1.prems" have cons: "drop i (take n d) = d ! i # drop (i + 1) (take n d)"
      by (simp add: Cons_nth_drop_Suc [symmetric])
    show ?thesis
    proof (cases "test (d ! i)")
      case keep: False
      have "drop (i + 1) (take n (d[new_num := d ! i])) = drop (i + 1) (take n d)"
        using "1.prems" by (simp add: take_update_swap)
      moreover have "take (new_num + 1) (d[new_num := d ! i]) = take new_num d @ [d ! i]"
        using "1.prems" True by (simp add: take_Suc_conv_app_nth)
      ultimately show ?thesis
        using "1.IH"(1) [OF True keep] "1.prems" True keep cons
        by (subst (1 2 3 4) delete_if_loop.simps) simp
    next
      case drop: True
      then show ?thesis
        using "1.IH"(2) [OF True] "1.prems" True cons
        by (subst (1 2 3 4) delete_if_loop.simps) simp
    qed
  qed
qed

section \<open>The heap sort\<close>

lemma mset_swap_update: "i < length d \<Longrightarrow> j < length d \<Longrightarrow> mset (d[i := d ! j, j := d ! i]) = mset d"
  by (rule mset_swap)

lemma left_parent: "0 < k \<Longrightarrow> parent_idx k = i \<longleftrightarrow> k = left_idx i \<or> k = left_idx i + 1"
  by (auto simp: parent_idx_def left_idx_def)

lemma parent_less: "0 < k \<Longrightarrow> parent_idx k < k"
  by (auto simp: parent_idx_def)

context comparison
begin

text \<open>The heap property of the first \<open>n\<close> elements, for parents from \<open>i\<close> on.\<close>

definition heap_from :: "'a list \<Rightarrow> nat \<Rightarrow> nat \<Rightarrow> bool" where
  "heap_from d i n \<longleftrightarrow> (\<forall>k. 0 < k \<and> k < n \<and> i \<le> parent_idx k \<longrightarrow> cmp (d ! k) (d ! parent_idx k) \<le> 0)"

text \<open>The same, but the element at \<open>j\<close> may be too small for its place.\<close>

definition heap_but :: "'a list \<Rightarrow> nat \<Rightarrow> nat \<Rightarrow> nat \<Rightarrow> bool" where
  "heap_but d i j n \<longleftrightarrow>
     (\<forall>k. 0 < k \<and> k < n \<and> i \<le> parent_idx k \<and> parent_idx k \<noteq> j \<longrightarrow> cmp (d ! k) (d ! parent_idx k) \<le> 0) \<and>
     (\<forall>k. 0 < k \<and> k < n \<and> parent_idx k = j \<and> 0 < j \<and> i \<le> parent_idx j \<longrightarrow> cmp (d ! k) (d ! parent_idx j) \<le> 0)"

end

context comparison
begin

lemma down_heap_choice:
  assumes "left_idx j < n"
  obtains m where "down_heap cmp d j n = (if j = m then d else down_heap cmp (d[j := d ! m, m := d ! j]) m n)"
    "m = j \<or> 0 < m \<and> parent_idx m = j \<and> m < n \<and> cmp (d ! j) (d ! m) < 0"
    "\<And>k. 0 < k \<Longrightarrow> k < n \<Longrightarrow> parent_idx k = j \<Longrightarrow> cmp (d ! k) (d ! m) \<le> 0"
proof -
  let ?l = "left_idx j" and ?r = "left_idx j + 1"
  define m0 where "m0 = (if cmp (d ! j) (d ! ?l) < 0 then ?l else j)"
  define m where "m = (if ?r < n \<and> cmp (d ! m0) (d ! ?r) < 0 then ?r else m0)"
  have l: "cmp (d ! ?l) (d ! m0) \<le> 0" "cmp (d ! j) (d ! m0) \<le> 0" "m0 \<noteq> j \<Longrightarrow> cmp (d ! j) (d ! m0) < 0"
    using cmp_swap [of "d ! j" "d ! ?l"] cmp_refl by (auto simp: m0_def not_less)
  have m: "cmp (d ! m0) (d ! m) \<le> 0" "?r < n \<Longrightarrow> cmp (d ! ?r) (d ! m) \<le> 0"
    "m \<noteq> m0 \<Longrightarrow> cmp (d ! m0) (d ! m) < 0"
    using cmp_swap [of "d ! m0" "d ! ?r"] cmp_refl by (auto simp: m_def not_less)
  have "down_heap cmp d j n = (if j = m then d else down_heap cmp (d[j := d ! m, m := d ! j]) m n)"
    using assms unfolding down_heap.simps [of cmp d j n] Let_def m0_def [symmetric] m_def [symmetric] by simp
  moreover have "m = j \<or> 0 < m \<and> parent_idx m = j \<and> m < n \<and> cmp (d ! j) (d ! m) < 0"
  proof (cases "m = j")
    case False
    then have lr: "m = ?l \<or> m = ?r \<and> ?r < n"
      by (auto simp: m_def m0_def split: if_splits)
    have "cmp (d ! j) (d ! m) < 0"
    proof (cases "m = m0")
      case True
      with False l(3) show ?thesis by simp
    next
      case False
      show ?thesis by (rule cmp_le_less_trans [OF l(2) m(3) [OF False]])
    qed
    moreover from lr have "0 < m" "parent_idx m = j" "m < n"
      using assms left_parent [of m j] by (auto simp: left_idx_def)
    ultimately show ?thesis by simp
  qed simp
  moreover have "cmp (d ! k) (d ! m) \<le> 0" if "0 < k" "k < n" "parent_idx k = j" for k
  proof -
    note k = that
    consider "k = ?l" | "k = ?r" using k(1,3) left_parent [of k j] by blast
    then show ?thesis
    proof cases
      case 1
      show ?thesis unfolding 1 by (rule cmp_trans [OF l(1) m(1)])
    next
      case 2
      show ?thesis unfolding 2 by (rule m(2)) (use k(2) 2 in simp)
    qed
  qed
  ultimately show thesis by (rule that)
qed

lemma heap_but_step:
  assumes b: "heap_but d i j n" and "i \<le> j" "j < n" "n \<le> length d"
    and m: "0 < m" "parent_idx m = j" "m < n" "cmp (d ! j) (d ! m) < 0"
    and top: "\<And>k. 0 < k \<Longrightarrow> k < n \<Longrightarrow> parent_idx k = j \<Longrightarrow> cmp (d ! k) (d ! m) \<le> 0"
  shows "heap_but (d[j := d ! m, m := d ! j]) i m n"
proof -
  let ?d = "d[j := d ! m, m := d ! j]"
  have jm: "j < m" "j < length d" using m parent_less [of m] assms(3,4) by simp_all
  have nth: "?d ! k = (if k = m then d ! j else if k = j then d ! m else d ! k)" if "k < n" for k
    using that assms(4) jm by (simp add: nth_list_update)
  have par: "parent_idx k < n" if "0 < k" "k < n" for k
    using that parent_less [of k] by simp
  have "cmp (?d ! k) (?d ! parent_idx k) \<le> 0" if k: "0 < k" "k < n" "i \<le> parent_idx k" "parent_idx k \<noteq> m" for k
  proof -
    consider "k = m" | "parent_idx k = j" "k \<noteq> m" | "k = j" | "k \<noteq> m" "k \<noteq> j" "parent_idx k \<noteq> j" by blast
    then show ?thesis
    proof cases
      case 1
      with k m jm par show ?thesis by (simp add: nth)
    next
      case 2
      with k par parent_less [of k] top [of k] jm show ?thesis by (simp add: nth)
    next
      case 3
      then have "cmp (d ! m) (d ! parent_idx j) \<le> 0"
        using b m k by (simp add: heap_but_def)
      with 3 k par parent_less [of k] jm show ?thesis by (simp add: nth)
    next
      case 4
      then have "cmp (d ! k) (d ! parent_idx k) \<le> 0"
        using b k by (simp add: heap_but_def)
      with 4 k par show ?thesis by (simp add: nth)
    qed
  qed
  moreover have "cmp (?d ! k) (?d ! parent_idx m) \<le> 0" if k: "0 < k" "k < n" "parent_idx k = m" for k
  proof -
    have "cmp (d ! k) (d ! parent_idx k) \<le> 0"
      using b k jm assms(2) unfolding heap_but_def by (metis less_imp_le less_le_trans nat_neq_iff order.trans)
    with k m jm parent_less [of k] assms(3) show ?thesis by (simp add: nth)
  qed
  ultimately show ?thesis by (simp add: heap_but_def)
qed

lemma down_heap_heap:
  assumes "heap_but d i j n" "i \<le> j" "j < n" "n \<le> length d"
  shows "mset (down_heap cmp d j n) = mset d \<and> drop n (down_heap cmp d j n) = drop n d \<and>
    heap_from (down_heap cmp d j n) i n"
  using assms
proof (induction "n - j" arbitrary: d j rule: less_induct)
  case less
  show ?case
  proof (cases "left_idx j < n")
    case False
    then have "down_heap cmp d j n = d"
      by (subst down_heap.simps) simp
    moreover have "parent_idx k \<noteq> j" if "0 < k" "k < n" for k
      using that False left_parent [of k j] by auto
    ultimately show ?thesis
      using less.prems(1) by (auto simp: heap_but_def heap_from_def)
  next
    case True
    obtain m where step: "down_heap cmp d j n = (if j = m then d else down_heap cmp (d[j := d ! m, m := d ! j]) m n)"
      and m: "m = j \<or> 0 < m \<and> parent_idx m = j \<and> m < n \<and> cmp (d ! j) (d ! m) < 0"
      and top: "\<And>k. 0 < k \<Longrightarrow> k < n \<Longrightarrow> parent_idx k = j \<Longrightarrow> cmp (d ! k) (d ! m) \<le> 0"
      by (rule down_heap_choice [OF True]) blast
    show ?thesis
    proof (cases "m = j")
      case True
      with less.prems(1) top step show ?thesis
        by (auto simp: heap_but_def heap_from_def)
    next
      case False
      with m have m: "0 < m" "parent_idx m = j" "m < n" "cmp (d ! j) (d ! m) < 0" by simp_all
      let ?d = "d[j := d ! m, m := d ! j]"
      have "n - m < n - j" "j < m"
        using m parent_less [of m] less.prems by auto
      moreover have "heap_but ?d i m n"
        by (rule heap_but_step [OF less.prems m top])
      ultimately have "mset (down_heap cmp ?d m n) = mset ?d \<and> drop n (down_heap cmp ?d m n) = drop n ?d \<and>
          heap_from (down_heap cmp ?d m n) i n"
        using less.prems m(3) by (intro less.hyps) simp_all
      moreover have "mset ?d = mset d" "drop n ?d = drop n d"
        using less.prems m(3) by (simp_all add: mset_swap_update)
      ultimately show ?thesis
        using False step by simp
    qed
  qed
qed

lemma build_heap_heap:
  assumes "heap_from d (Suc i) n" "i < n" "n \<le> length d"
  shows "mset (build_heap_loop cmp d i n) = mset d \<and> drop n (build_heap_loop cmp d i n) = drop n d \<and>
    heap_from (build_heap_loop cmp d i n) 0 n"
  using assms
proof (induction i arbitrary: d)
  case (0 d)
  then have "heap_but d 0 0 n"
    by (auto simp: heap_but_def heap_from_def)
  from down_heap_heap [OF this] 0 show ?case by simp
next
  case (Suc i d)
  have "parent_idx (Suc i) < Suc i" by (rule parent_less) simp
  with Suc.prems have "heap_but d (Suc i) (Suc i) n"
    by (auto simp: heap_but_def heap_from_def)
  from down_heap_heap [OF this order_refl Suc.prems(2,3)] have
    d: "mset (down_heap cmp d (Suc i) n) = mset d" "drop n (down_heap cmp d (Suc i) n) = drop n d"
      "heap_from (down_heap cmp d (Suc i) n) (Suc i) n"
    by simp_all
  moreover from d(1) have "length (down_heap cmp d (Suc i) n) = length d"
    by (rule mset_eq_length)
  ultimately show ?case
    using Suc.IH [OF d(3)] Suc.prems by simp
qed

lemma heap_root:
  assumes "heap_from d 0 n" "k < n"
  shows "cmp (d ! k) (d ! 0) \<le> 0"
  using assms(2)
proof (induction k rule: less_induct)
  case (less k)
  show ?case
  proof (cases "k = 0")
    case True
    then show ?thesis by (simp add: cmp_refl)
  next
    case False
    then have p: "parent_idx k < k" "cmp (d ! k) (d ! parent_idx k) \<le> 0"
      using assms(1) less.prems by (simp_all add: heap_from_def parent_less)
    with less have "cmp (d ! parent_idx k) (d ! 0) \<le> 0" by simp
    with p(2) show ?thesis by (rule cmp_trans)
  qed
qed

end

lemma mset_take_eq: "mset d = mset e \<Longrightarrow> drop n d = drop n e \<Longrightarrow> mset (take n d) = mset (take n e)"
  by (metis add_right_cancel append_take_drop_id mset_append)

lemma drop_take_eq: "drop i d = drop i e \<Longrightarrow> drop i (take n d) = drop i (take n e)"
  by (simp add: drop_take)

context comparison
begin

abbreviation le :: "'a \<Rightarrow> 'a \<Rightarrow> bool" where
  "le a b \<equiv> cmp a b \<le> 0"

lemma remove_max_sorted:
  assumes "heap_from d 0 (Suc i)" "i < n" "n \<le> length d"
    and "sorted_wrt le (drop (Suc i) (take n d))"
    and "\<forall>k \<le> i. \<forall>b \<in> set (drop (Suc i) (take n d)). le (d ! k) b"
  shows "mset (remove_max_loop cmp d i) = mset d \<and> drop n (remove_max_loop cmp d i) = drop n d \<and>
    sorted_wrt le (take n (remove_max_loop cmp d i))"
  using assms
proof (induction i arbitrary: d)
  case (0 d)
  have eq: "take n d = d ! 0 # drop (Suc 0) (take n d)"
    using "0.prems"(2,3) by (cases d; cases n) auto
  have "sorted_wrt le (take n d)"
    using "0.prems"(4,5) by (subst eq) (simp only: sorted_wrt.simps, blast)
  then show ?case by simp
next
  case (Suc i d)
  define d1 where "d1 = d[0 := d ! Suc i, Suc i := d ! 0]"
  define d2 where "d2 = down_heap cmp d1 0 (Suc i)"
  have len: "length d1 = length d" "Suc i < length d" "0 < length d"
    using Suc.prems(2,3) by (auto simp: d1_def)
  have nth: "d1 ! k = (if k = Suc i then d ! 0 else if k = 0 then d ! Suc i else d ! k)" for k
    using len by (simp add: d1_def nth_list_update)
  have "heap_but d1 0 0 (Suc i)"
    using Suc.prems(1) parent_less by (auto simp: heap_but_def heap_from_def nth) (metis Suc_lessD less_SucI less_trans_Suc not_less_eq)
  from down_heap_heap [OF this order_refl] have d2:
    "mset d2 = mset d1" "drop (Suc i) d2 = drop (Suc i) d1" "heap_from d2 0 (Suc i)"
    using len Suc.prems(2) by (simp_all add: d2_def)
  have md: "mset d1 = mset d" "drop n d1 = drop n d"
    using len Suc.prems(2) by (simp_all add: d1_def mset_swap_update)
  have tail: "drop (Suc i) (take n d1) = d ! 0 # drop (Suc (Suc i)) (take n d)"
  proof -
    have "drop (Suc i) (take n d1) = d1 ! Suc i # drop (Suc (Suc i)) (take n d1)"
      using len Suc.prems(2) by (simp add: Cons_nth_drop_Suc [symmetric])
    moreover have "drop (Suc (Suc i)) (take n d1) = drop (Suc (Suc i)) (take n d)"
      by (rule drop_take_eq) (simp add: d1_def)
    ultimately show ?thesis by (simp add: nth)
  qed
  have tail2: "drop (Suc i) (take n d2) = d ! 0 # drop (Suc (Suc i)) (take n d)"
    using drop_take_eq [OF d2(2)] tail by simp
  have root: "le (d ! k) (d ! 0)" if "k \<le> Suc i" for k
    using heap_root [OF Suc.prems(1)] that by simp
  have front: "\<exists>k \<le> Suc i. d2 ! j = d ! k" if "j \<le> i" for j
  proof -
    have "length d2 = length d"
      using mset_eq_length [OF d2(1)] len by simp
    with that len have "d2 ! j \<in> set (take (Suc i) d2)"
      using nth_mem [of j "take (Suc i) d2"] by simp
    also have "set (take (Suc i) d2) = set (take (Suc i) d1)"
      using mset_take_eq [OF d2(1,2)] by (rule mset_eq_setD)
    finally obtain k where "k < Suc i" "d2 ! j = d1 ! k"
      by (auto simp: in_set_conv_nth)
    then show ?thesis
      by (cases "k = 0") (auto simp: nth intro: exI [of _ k])
  qed
  have "drop n d2 = drop n d1"
    using d2(2) Suc.prems(2) by (metis Suc_lessD drop_drop le_add_diff_inverse2 less_imp_le)
  moreover have "sorted_wrt le (drop (Suc i) (take n d2))"
    unfolding tail2 using Suc.prems(4,5) by simp
  moreover have "\<forall>k \<le> i. \<forall>b \<in> set (drop (Suc i) (take n d2)). le (d2 ! k) b"
    unfolding tail2 using front root Suc.prems(5) by fastforce
  moreover have "n \<le> length d2" "i < n"
    using mset_eq_length [OF d2(1)] len Suc.prems(2,3) by simp_all
  ultimately show ?case
    using Suc.IH [OF d2(3)] d2(1) md by (simp add: d2_def d1_def)
qed

lemma sk_sort_loops:
  assumes "2 \<le> n" "n \<le> length d"
  defines "r \<equiv> remove_max_loop cmp (build_heap_loop cmp d (parent_idx (n - 1)) n) (n - 1)"
  shows "mset r = mset d" "drop n r = drop n d" "sorted_wrt le (take n r)"
proof -
  let ?h = "build_heap_loop cmp d (parent_idx (n - 1)) n"
  have "heap_from d (Suc (parent_idx (n - 1))) n"
    by (auto simp: heap_from_def parent_idx_def)
  moreover have "parent_idx (n - 1) < n"
    using assms(1) parent_less [of "n - 1"] by simp
  ultimately have h: "mset ?h = mset d" "drop n ?h = drop n d" "heap_from ?h 0 n"
    using build_heap_heap [of d "parent_idx (n - 1)" n] assms(2) by simp_all
  have "n \<le> length ?h"
    using mset_eq_length [OF h(1)] assms(2) by simp
  then show "mset r = mset d" "drop n r = drop n d" "sorted_wrt le (take n r)"
    using remove_max_sorted [of ?h "n - 1" n] h assms(1) by (simp_all add: r_def)
qed

text \<open>The binary search narrows the range that holds the first match.\<close>

lemma find_loop_eq:
  assumes "\<And>i j. i \<le> j \<Longrightarrow> j < n \<Longrightarrow> le (d ! i) (d ! j)" "lo \<le> hi" "hi \<le> n"
    and "\<And>k. k < lo \<Longrightarrow> 0 < cmp p (d ! k)"
    and "(\<forall>k. hi \<le> k \<and> k < n \<longrightarrow> cmp p (d ! k) < 0) \<or> lo < hi \<and> cmp p (d ! (hi - 1)) = 0"
  shows "find_loop (cmp p) d lo hi = scan_loop (\<lambda>q. cmp p q = 0) d 0 n"
  using assms(2-)
proof (induction "hi - lo" arbitrary: lo hi rule: less_induct)
  case less
  show ?case
  proof (cases "lo < hi")
    case False
    then have "lo = hi" using less.prems(1) by simp
    have "cmp p (d ! k) \<noteq> 0" if "k < n" for k
    proof (cases "k < lo")
      case True
      with less.prems(3) [of k] show ?thesis by simp
    next
      case False
      with less.prems(4) that \<open>lo = hi\<close> have "cmp p (d ! k) < 0" by simp
      then show ?thesis by simp
    qed
    then have "scan_loop (\<lambda>q. cmp p q = 0) d 0 n = None"
      by (simp add: scan_loop_None)
    with False show ?thesis by (subst find_loop.simps) simp
  next
    case True
    define mid where "mid = lo + (hi - lo - 1) div 2"
    have mid: "lo \<le> mid" "mid < hi" "mid < n"
      using True less.prems(2) by (auto simp: mid_def)
    consider "0 < cmp p (d ! mid)" | "cmp p (d ! mid) < 0" | "cmp p (d ! mid) = 0" "hi - lo = 1"
      | "cmp p (d ! mid) = 0" "hi - lo \<noteq> 1" by linarith
    then show ?thesis
    proof cases
      case 1
      have step: "find_loop (cmp p) d lo hi = find_loop (cmp p) d (mid + 1) hi"
        using True 1 by (subst find_loop.simps) (simp add: mid_def Let_def)
      have "0 < cmp p (d ! k)" if "k < mid + 1" for k
      proof -
        have "d ! mid = d ! mid" "le (d ! k) (d ! mid)" using assms(1) [of k mid] that mid by simp_all
        then show ?thesis
          using 1 cmp_swap [of "d ! mid" p] cmp_swap [of "d ! k" p] cmp_le_less_trans [of "d ! k" "d ! mid" p] by simp
      qed
      moreover have "(\<forall>k. hi \<le> k \<and> k < n \<longrightarrow> cmp p (d ! k) < 0) \<or> mid + 1 < hi \<and> cmp p (d ! (hi - 1)) = 0"
      proof (cases "mid = hi - 1")
        case True
        with 1 less.prems(4) show ?thesis by auto
      qed (use less.prems(4) mid in auto)
      ultimately show ?thesis
        unfolding step using mid less.prems(2) by (intro less.hyps) simp_all
    next
      case 2
      have step: "find_loop (cmp p) d lo hi = find_loop (cmp p) d lo mid"
        using True 2 by (subst find_loop.simps) (simp add: mid_def Let_def)
      have "cmp p (d ! k) < 0" if "mid \<le> k" "k < n" for k
        by (rule cmp_less_trans [OF 2 assms(1) [OF that]])
      then show ?thesis
        unfolding step using mid less.prems(3) by (intro less.hyps) simp_all
    next
      case 3
      then have "mid = lo" using mid by simp
      have found: "find_loop (cmp p) d lo hi = Some mid"
        using True 3 by (subst find_loop.simps) (simp add: mid_def Let_def)
      have "cmp p (d ! k) \<noteq> 0" if "k < lo" for k
        using less.prems(3) [OF that] by simp
      then have "Some mid = scan_loop (\<lambda>q. cmp p q = 0) d 0 n"
        using 3 mid \<open>mid = lo\<close>
        by (intro sym [of _ "Some mid"]) (auto simp: scan_loop_Some)
      with found show ?thesis by simp
    next
      case 4
      have step: "find_loop (cmp p) d lo hi = find_loop (cmp p) d lo (mid + 1)"
        using True 4 by (subst find_loop.simps) (simp add: mid_def Let_def)
      have "mid + 1 < hi" using True 4(2) by (auto simp: mid_def)
      with 4 mid less.prems show ?thesis
        unfolding step by (intro less.hyps) simp_all
    qed
  qed
qed

end

section \<open>A stack as a list\<close>

text \<open>The interface: insertion and deletion by position, as a client sees them.\<close>

locale pointer_sequence =
  fixes ok :: "'s \<Rightarrow> bool" and elems :: "'s \<Rightarrow> 'e list"
    and insert_at :: "'s \<Rightarrow> 'e \<Rightarrow> nat \<Rightarrow> 's option" and delete_at :: "'s \<Rightarrow> nat \<Rightarrow> ('e \<times> 's) option"
  assumes insert_law: "ok s \<Longrightarrow> insert_at s p i = Some s' \<Longrightarrow> ok s' \<and> elems s' = take i (elems s) @ p # drop i (elems s)"
    and delete_law: "ok s \<Longrightarrow> i < length (elems s) \<Longrightarrow>
      \<exists>s'. delete_at s i = Some (elems s ! i, s') \<and> ok s' \<and> elems s' = take i (elems s) @ drop (Suc i) (elems s)"
begin

text \<open>Deleting what was inserted gives it back, and the sequence as it was.\<close>

lemma insert_delete:
  assumes "ok s" "insert_at s p i = Some s'"
  shows "\<exists>s''. delete_at s' (min i (length (elems s))) = Some (p, s'') \<and> ok s'' \<and> elems s'' = elems s"
proof -
  from insert_law [OF assms] have s': "ok s'" "elems s' = take i (elems s) @ p # drop i (elems s)"
    by simp_all
  let ?i = "min i (length (elems s))"
  have "?i = length (take i (elems s))" by simp
  moreover have "?i < length (elems s')" unfolding s'(2) by simp
  from delete_law [OF s'(1) this] obtain s'' where
    "delete_at s' ?i = Some (elems s' ! ?i, s'')" "ok s''" "elems s'' = take ?i (elems s') @ drop (Suc ?i) (elems s')"
    by blast
  ultimately show ?thesis
    unfolding s'(2) by (cases "i \<le> length (elems s)") (simp_all add: nth_append min_def)
qed

fun insert_all :: "'s \<Rightarrow> 'e list \<Rightarrow> 's option" where
  "insert_all s [] = Some s"
| "insert_all s (p # ps) = (case insert_at s p (length (elems s)) of None \<Rightarrow> None | Some s \<Rightarrow> insert_all s ps)"

lemma insert_all_elems: "ok s \<Longrightarrow> insert_all s ps = Some s' \<Longrightarrow> ok s' \<and> elems s' = elems s @ ps"
proof (induction ps arbitrary: s)
  case (Cons p ps)
  then obtain s1 where i: "insert_at s p (length (elems s)) = Some s1" "insert_all s1 ps = Some s'"
    by (auto split: option.splits)
  from insert_law [OF Cons.prems(1) i(1)] Cons.IH [of s1] i(2) show ?case by simp
qed simp

end

definition stack_ok :: "('a, 'c) stack \<Rightarrow> bool" where
  "stack_ok sk \<longleftrightarrow> num sk \<le> num_alloc sk \<and> length (data sk) = num_alloc sk \<and> 0 < num_alloc sk \<and>
     num_alloc sk * pointer_size < SIZE_MOD \<and> num sk \<le> 2147483647"

definition elems :: "('a, 'c) stack \<Rightarrow> 'a option list" where
  "elems sk = take (num sk) (data sk)"

lemma length_elems: "stack_ok sk \<Longrightarrow> length (elems sk) = num sk"
  by (simp add: stack_ok_def elems_def)

lemma nth_elems: "i < num sk \<Longrightarrow> elems sk ! i = data sk ! i"
  by (simp add: elems_def)

lemma OPENSSL_sk_new_ok:
  assumes "OPENSSL_sk_new al c = Some sk"
  shows "stack_ok sk" "elems sk = []" "comp sk = c"
  using assms
  by (auto simp: OPENSSL_sk_new_def stack_ok_def elems_def kMinSize_def pointer_size_def SIZE_MOD_def split: option.splits)

lemma alloc_size_exact:
  assumes "size_mul n pointer_size div pointer_size = n"
  shows "n * pointer_size < SIZE_MOD \<and> size_mul n pointer_size = n * pointer_size"
proof -
  have "n * 8 mod SIZE_MOD = 8 * (n mod 2305843009213693952)"
    by (simp add: SIZE_MOD_def mult_mod_right mult.commute)
  with assms have "n mod 2305843009213693952 = n"
    by (simp add: size_mul_def pointer_size_def)
  then have "n < 2305843009213693952"
    by (metis mod_less_divisor zero_less_numeral)
  then show ?thesis
    by (simp add: size_mul_def pointer_size_def SIZE_MOD_def)
qed

lemma sk_grow_Some:
  assumes "stack_ok sk" "num sk < 2147483647" "sk_grow al stale sk = Some sk'"
  shows "stack_ok sk' \<and> num sk' = num sk \<and> num sk < num_alloc sk' \<and> take (num sk) (data sk') = take (num sk) (data sk) \<and>
    comp sk' = comp sk"
proof (cases "num_alloc sk \<le> num sk + 1")
  case False
  with assms show ?thesis by (simp add: sk_grow_def)
next
  case True
  note ok = assms(1) [unfolded stack_ok_def]
  define double where "double = size_mul (num_alloc sk) 2"
  define fits where "fits \<longleftrightarrow> \<not> (double < num_alloc sk \<or> size_mul double pointer_size div pointer_size \<noteq> double)"
  define new where "new = (if fits then double else size_add (num_alloc sk) 1)"
  have grow: "sk_grow al stale sk = (if new < num_alloc sk \<or> size_mul new pointer_size div pointer_size \<noteq> new then None
      else case realloc_pointers al stale (data sk) (size_mul new pointer_size) of None \<Rightarrow> None
        | Some d \<Rightarrow> Some (sk\<lparr>data := d, num_alloc := new\<rparr>))"
    using True by (cases fits) (auto simp: sk_grow_def double_def [symmetric] fits_def new_def Let_def split: option.splits)
  have run: "\<not> (new < num_alloc sk \<or> size_mul new pointer_size div pointer_size \<noteq> new)"
    "\<exists>d. realloc_pointers al stale (data sk) (size_mul new pointer_size) = Some d \<and> sk' = sk\<lparr>data := d, num_alloc := new\<rparr>"
    using assms(3) unfolding grow by (auto split: if_splits option.splits)
  then obtain d where d: "realloc_pointers al stale (data sk) (size_mul new pointer_size) = Some d"
    "sk' = sk\<lparr>data := d, num_alloc := new\<rparr>" by blast
  have small: "num_alloc sk * 8 < SIZE_MOD" "num_alloc sk \<le> 2147483648"
    using ok True assms(2) by (simp_all add: pointer_size_def)
  have "size_add (num_alloc sk) 1 = num_alloc sk + 1" "double = 2 * num_alloc sk"
    using small by (simp_all add: double_def size_add_def size_mul_def SIZE_MOD_def mult.commute)
  then have new: "num sk < new" "num_alloc sk \<le> new" "0 < new"
    using ok True by (auto simp: new_def)
  have exact: "new * pointer_size < SIZE_MOD" "size_mul new pointer_size = new * pointer_size"
    using alloc_size_exact [of new] run(1) by simp_all
  have "d = data sk @ map stale [length (data sk)..<new]"
    using d(1) new(2) ok unfolding exact(2)
    by (auto simp: realloc_pointers_def pointer_size_def split: option.splits)
  then show ?thesis
    using d(2) ok new exact(1) by (simp add: stack_ok_def)
qed

lemma OPENSSL_sk_insert_Some:
  assumes ok: "stack_ok sk" and i: "OPENSSL_sk_insert al stale (Some sk) p pos = (n, Some sk')" "n \<noteq> 0"
  shows "stack_ok sk' \<and> elems sk' = take pos (elems sk) @ p # drop pos (elems sk) \<and> n = num sk + 1 \<and>
    num sk' = n \<and> \<not> sorted_flag sk' \<and> comp sk' = comp sk"
proof -
  obtain g where g: "sk_grow al stale sk = Some g" and small: "num sk < 2147483647"
    using i by (auto simp: OPENSSL_sk_insert_def split: if_splits option.splits)
  from sk_grow_Some [OF ok small g] have g': "stack_ok g" "num g = num sk" "num sk < num_alloc g"
    "elems g = elems sk" "comp g = comp sk"
    by (simp_all add: elems_def)
  note gok = g'(1) [unfolded stack_ok_def g'(2)]
  show ?thesis
  proof (cases "num sk \<le> pos")
    case True
    then have sk': "sk' = g\<lparr>data := (data g)[num sk := p], num := num sk + 1, sorted_flag := False\<rparr>" "n = num sk + 1"
      using i g small g'(2) by (auto simp: OPENSSL_sk_insert_def Let_def)
    have "elems sk' = elems g @ [p]"
      using gok g'(3) by (simp add: elems_def sk' g'(2) take_Suc_conv_app_nth)
    with True show ?thesis
      using gok g' small by (simp add: sk' stack_ok_def length_elems [OF ok])
  next
    case False
    then have sk': "sk' = g\<lparr>data := (move_pointers (data g) (pos + 1) pos (num sk - pos))[pos := p], num := num sk + 1,
        sorted_flag := False\<rparr>" "n = num sk + 1"
      using i g small g'(2) by (auto simp: OPENSSL_sk_insert_def Let_def)
    have mv: "(move_pointers (data g) (pos + 1) pos (num sk - pos))[pos := p] =
        take pos (elems g) @ p # drop pos (elems g) @ drop (num sk + 1) (data g)"
      using False gok g'(3)
      by (simp add: move_pointers_def elems_def g'(2) take_Suc_conv_app_nth list_update_append drop_take)
    have l: "length (elems g) = num sk" using length_elems [OF g'(1)] g'(2) by simp
    have "length (data sk') = num_alloc g"
      unfolding sk' using False gok g'(3) by (auto simp: move_pointers_def min_def)
    moreover have "elems sk' = take pos (elems g) @ p # drop pos (elems g)"
    proof -
      have "data sk' = take pos (elems g) @ p # drop pos (elems g) @ drop (num sk + 1) (data g)"
        unfolding sk' using mv by simp
      moreover have "num sk' = num sk + 1" by (simp add: sk')
      ultimately show ?thesis
        using False l unfolding elems_def [of sk'] by (simp add: Suc_diff_le)
    qed
    ultimately show ?thesis
      using gok g' small by (simp add: sk' stack_ok_def)
  qed
qed

lemma OPENSSL_sk_insert_fails:
  "OPENSSL_sk_insert al stale (Some sk) p pos = (0, r) \<Longrightarrow> r = Some sk"
  by (auto simp: OPENSSL_sk_insert_def Let_def split: if_splits option.splits)

lemma OPENSSL_sk_delete_eq:
  assumes ok: "stack_ok sk" and "pos < num sk"
  shows "\<exists>sk'. OPENSSL_sk_delete (Some sk) pos = (elems sk ! pos, Some sk') \<and> stack_ok sk' \<and>
    elems sk' = take pos (elems sk) @ drop (Suc pos) (elems sk) \<and> sorted_flag sk' = sorted_flag sk \<and> comp sk' = comp sk"
proof -
  note sok = ok [unfolded stack_ok_def]
  define d where "d = (if pos \<noteq> num sk - 1 then move_pointers (data sk) pos (pos + 1) (num sk - pos - 1) else data sk)"
  have del: "OPENSSL_sk_delete (Some sk) pos = (elems sk ! pos, Some (sk\<lparr>data := d, num := num sk - 1\<rparr>))"
    using assms(2) by (simp add: OPENSSL_sk_delete_def nth_elems d_def)
  have "length d = length (data sk)"
    using sok assms(2) by (auto simp: d_def move_pointers_def min_def)
  moreover have "take (num sk - 1) d = take pos (elems sk) @ drop (Suc pos) (elems sk)"
    using sok assms(2) by (auto simp: d_def move_pointers_def elems_def drop_take min_def)
  ultimately show ?thesis
    using sok unfolding del by (auto simp: stack_ok_def elems_def)
qed

text \<open>The two operations as the interface has them.\<close>

definition sk_insert_at :: "allocator \<Rightarrow> (nat \<Rightarrow> 'a option) \<Rightarrow> ('a, 'c) stack \<Rightarrow> 'a option \<Rightarrow> nat \<Rightarrow> ('a, 'c) stack option" where
  "sk_insert_at al stale sk p pos =
     (case OPENSSL_sk_insert al stale (Some sk) p pos of (n, sk') \<Rightarrow> if n = 0 then None else sk')"

definition sk_delete_at :: "('a, 'c) stack \<Rightarrow> nat \<Rightarrow> ('a option \<times> ('a, 'c) stack) option" where
  "sk_delete_at sk pos =
     (case OPENSSL_sk_delete (Some sk) pos of (p, sk') \<Rightarrow> map_option (Pair p) sk')"

interpretation sk: pointer_sequence stack_ok elems "sk_insert_at al stale" sk_delete_at for al stale
proof
  show "stack_ok s' \<and> elems s' = take i (elems s) @ p # drop i (elems s)"
    if "stack_ok s" "sk_insert_at al stale s p i = Some s'" for s s' :: "('a, 'c) stack" and p i
    using that OPENSSL_sk_insert_Some [of s al stale p i _ s']
    by (auto simp: sk_insert_at_def split: prod.splits if_splits)
  show "\<exists>s'. sk_delete_at s i = Some (elems s ! i, s') \<and> stack_ok s' \<and>
      elems s' = take i (elems s) @ drop (Suc i) (elems s)"
    if "stack_ok s" "i < length (elems s)" for s :: "('a, 'c) stack" and i
    using OPENSSL_sk_delete_eq [of s i] that by (auto simp: sk_delete_at_def length_elems)
qed

section \<open>The other operations on the list\<close>

text \<open>The meaning of the \<open>sorted\<close> field, next to the bounds of the block.\<close>

definition stack_inv :: "('c \<Rightarrow> 'a option \<Rightarrow> 'a option \<Rightarrow> int) \<Rightarrow> ('a, 'c) stack \<Rightarrow> bool" where
  "stack_inv call sk \<longleftrightarrow> stack_ok sk \<and>
     (\<forall>c. sorted_flag sk \<and> comp sk = Some c \<longrightarrow> sorted_wrt (\<lambda>a b. call c a b \<le> 0) (elems sk))"

lemma OPENSSL_sk_zero_ok:
  "stack_ok sk \<Longrightarrow> \<exists>sk'. OPENSSL_sk_zero (Some sk) = Some sk' \<and> stack_ok sk' \<and> elems sk' = [] \<and>
     (sorted_flag sk' \<longrightarrow> sk' = sk)"
  by (auto simp: OPENSSL_sk_zero_def stack_ok_def elems_def)

lemma OPENSSL_sk_set_ok:
  "stack_ok sk \<Longrightarrow> i < num sk \<Longrightarrow> \<exists>sk'. OPENSSL_sk_set (Some sk) i p = (p, Some sk') \<and> stack_ok sk' \<and>
     elems sk' = (elems sk)[i := p]"
  by (auto simp: OPENSSL_sk_set_def stack_ok_def elems_def take_update_swap)

lemma OPENSSL_sk_delete_if_ok:
  assumes "stack_ok sk"
  shows "\<exists>sk'. OPENSSL_sk_delete_if (Some sk) call_func func u = Some sk' \<and> stack_ok sk' \<and>
    elems sk' = filter (\<lambda>p. \<not> call_func func p u) (elems sk) \<and> sorted_flag sk' = sorted_flag sk \<and> comp sk' = comp sk"
proof -
  obtain d n where loop: "delete_if_loop (\<lambda>p. call_func func p u) (data sk) 0 0 (num sk) = (d, n)"
    by (rule prod.exhaust)
  with delete_if_loop_eq [of 0 0 "num sk" "data sk" "\<lambda>p. call_func func p u"] assms
  have "length d = length (data sk)" "n \<le> num sk" "take n d = filter (\<lambda>p. \<not> call_func func p u) (elems sk)"
    by (simp_all add: stack_ok_def elems_def)
  with loop assms show ?thesis
    by (simp add: OPENSSL_sk_delete_if_def stack_ok_def elems_def)
qed

lemma OPENSSL_sk_delete_ptr_ok:
  assumes "stack_ok sk"
  shows "\<exists>sk'. snd (OPENSSL_sk_delete_ptr (Some sk) p) = Some sk' \<and> stack_ok sk' \<and> elems sk' = remove1 p (elems sk) \<and>
    sorted_flag sk' = sorted_flag sk \<and> comp sk' = comp sk"
proof (cases "scan_loop (\<lambda>q. q = p) (data sk) 0 (num sk)")
  case None
  then have "p \<notin> set (elems sk)"
    using length_elems [OF assms] by (auto simp: scan_loop_None in_set_conv_nth nth_elems)
  with None assms show ?thesis
    by (simp add: OPENSSL_sk_delete_ptr_def remove1_idem)
next
  case (Some i)
  then have i: "i < num sk" "elems sk ! i = p" "\<forall>k < i. elems sk ! k \<noteq> p"
    by (auto simp: scan_loop_Some nth_elems)
  have "elems sk = take i (elems sk) @ p # drop (Suc i) (elems sk)"
    using i length_elems [OF assms] by (metis id_take_nth_drop)
  moreover have "p \<notin> set (take i (elems sk))"
    using i length_elems [OF assms] by (auto simp: in_set_conv_nth)
  ultimately have "remove1 p (elems sk) = take i (elems sk) @ drop (Suc i) (elems sk)"
    by (metis remove1.simps(2) remove1_append)
  with OPENSSL_sk_delete_eq [OF assms i(1)] Some show ?thesis
    by (auto simp: OPENSSL_sk_delete_ptr_def)
qed

lemma OPENSSL_sk_dup_ok:
  assumes "stack_ok sk" "OPENSSL_sk_dup al (Some sk) = Some sk'"
  shows "sk' = sk"
proof -
  have "size_mul pointer_size (num_alloc sk) = num_alloc sk * pointer_size"
    using assms(1) by (simp add: stack_ok_def size_mul_def mult.commute)
  with assms show ?thesis
    by (auto simp: OPENSSL_sk_dup_def memdup_pointers_def stack_ok_def pointer_size_def split: option.splits if_splits)
qed

lemma OPENSSL_sk_sort_ok:
  assumes ok: "stack_inv call sk" and cmp: "comp sk = Some c" "comparison (call c)"
  shows "\<exists>sk'. OPENSSL_sk_sort (Some sk) call = Some sk' \<and> stack_ok sk' \<and> sorted_flag sk' \<and> comp sk' = comp sk \<and>
    mset (elems sk') = mset (elems sk) \<and> sorted_wrt (\<lambda>a b. call c a b \<le> 0) (elems sk')"
proof (cases "sorted_flag sk")
  case True
  with assms show ?thesis
    by (auto simp: OPENSSL_sk_sort_def stack_inv_def)
next
  case False
  have sok: "stack_ok sk" "num sk \<le> length (data sk)"
    using ok by (auto simp: stack_inv_def stack_ok_def)
  show ?thesis
  proof (cases "2 \<le> num sk")
    case short: False
    then have "sorted_wrt (\<lambda>a b. call c a b \<le> 0) (elems sk)"
      using length_elems [OF sok(1)] by (cases "elems sk"; cases "tl (elems sk)") auto
    with short False cmp(1) sok show ?thesis
      by (simp add: OPENSSL_sk_sort_def stack_ok_def elems_def)
  next
    case long: True
    let ?r = "remove_max_loop (call c) (build_heap_loop (call c) (data sk) (parent_idx (num sk - 1)) (num sk)) (num sk - 1)"
    note r = comparison.sk_sort_loops [OF cmp(2) long sok(2)]
    have "mset (take (num sk) ?r) = mset (elems sk)"
      unfolding elems_def by (rule mset_take_eq [OF r(1,2)])
    moreover have "OPENSSL_sk_sort (Some sk) call = Some (sk\<lparr>data := ?r, sorted_flag := True\<rparr>)"
      using False long cmp(1) by (simp add: OPENSSL_sk_sort_def)
    ultimately show ?thesis
      using r(3) mset_eq_length [OF r(1)] sok(1) by (simp add: stack_ok_def elems_def)
  qed
qed

text \<open>The binary search and the linear one agree.\<close>

lemma OPENSSL_sk_find_first:
  assumes "stack_inv call sk" "comp sk = Some c" "comparison (call c)" "p \<noteq> None"
  shows "OPENSSL_sk_find (Some sk) p call = scan_loop (\<lambda>q. call c p q = 0) (data sk) 0 (num sk)"
proof (cases "OPENSSL_sk_is_sorted (Some sk)")
  case False
  with assms show ?thesis by (auto simp: OPENSSL_sk_find_def)
next
  case True
  have ok: "stack_ok sk" using assms(1) by (simp add: stack_inv_def)
  have s: "sorted_wrt (\<lambda>a b. call c a b \<le> 0) (elems sk)"
  proof (cases "sorted_flag sk")
    case True
    with assms show ?thesis by (simp add: stack_inv_def)
  next
    case False
    with \<open>OPENSSL_sk_is_sorted (Some sk)\<close> have "num sk < 2"
      by (simp add: OPENSSL_sk_is_sorted_def)
    then show ?thesis
      using length_elems [OF ok] by (cases "elems sk"; cases "tl (elems sk)") auto
  qed
  have sorted: "call c (data sk ! i) (data sk ! j) \<le> 0" if "i \<le> j" "j < num sk" for i j
  proof (cases "i = j")
    case True
    then show ?thesis by (simp add: comparison.cmp_refl [OF assms(3)])
  next
    case False
    with that sorted_wrt_nth_less [OF s, of i j] length_elems [OF ok] show ?thesis
      by (simp add: nth_elems)
  qed
  have "find_loop (call c p) (data sk) 0 (num sk) = scan_loop (\<lambda>q. call c p q = 0) (data sk) 0 (num sk)"
    by (rule comparison.find_loop_eq [OF assms(3) sorted]) simp_all
  with True assms show ?thesis by (auto simp: OPENSSL_sk_find_def)
qed

text \<open>What is alive during a deep copy.\<close>

definition objects :: "'a option list \<Rightarrow> 'a multiset" where
  "objects d = mset (List.map_filter (\<lambda>p. p) d)"

lemma objects_simps [simp]:
  "objects [] = {#}" "objects (None # d) = objects d" "objects (Some x # d) = add_mset x (objects d)"
  "objects (d @ e) = objects d + objects e"
  by (simp_all add: objects_def List.map_filter_def)

lemma pop_free_live:
  assumes "\<And>x s. live (free x s) = live s - {#x#}"
  shows "live (pop_free_loop (\<lambda>_. free) u d s) = live s - objects d"
proof (induction d arbitrary: s)
  case (Cons p d)
  then show ?case by (cases p) (simp_all add: assms)
qed simp

lemma deep_copy_loop_live:
  assumes copied: "\<And>x s y s'. copy x s = (Some y, s') \<Longrightarrow> live s' = add_mset y (live s)"
    and failed: "\<And>x s s'. copy x s = (None, s') \<Longrightarrow> live s' = live s"
    and freed: "\<And>x s. live (free x s) = live s - {#x#}"
  shows "deep_copy_loop copy free c d s = (r, s') \<Longrightarrow> live s = L + objects c \<Longrightarrow>
    (case r of None \<Rightarrow> live s' = L
     | Some d' \<Rightarrow> live s' = L + objects d' \<and> length d' = length c + length d)"
proof (induction d arbitrary: c s)
  case (Cons p d)
  show ?case
  proof (cases p)
    case None
    with Cons show ?thesis by (auto split: option.splits)
  next
    case (Some x)
    obtain y s1 where cp: "copy x s = (y, s1)" by (rule prod.exhaust)
    show ?thesis
    proof (cases y)
      case None
      with Cons.prems(1) Some cp have "r = None" "s' = pop_free_loop (\<lambda>_. free) () c s1" by simp_all
      with failed [of x s s1] cp None Cons.prems(2) show ?thesis
        by (simp add: pop_free_live [of live free, OF freed])
    next
      case (Some z)
      with Cons.prems(1) \<open>p = Some x\<close> cp have "deep_copy_loop copy free (c @ [Some z]) d s1 = (r, s')" by simp
      moreover have "live s1 = L + objects (c @ [Some z])"
        using copied [of x s z s1] cp Some Cons.prems(2) by simp
      ultimately show ?thesis
        using Cons.IH [of "c @ [Some z]" s1] by (simp split: option.splits)
    qed
  qed
qed auto

text \<open>The invariant, operation by operation.\<close>

lemma stack_invI: "stack_ok sk \<Longrightarrow> \<not> sorted_flag sk \<Longrightarrow> stack_inv call sk"
  by (simp add: stack_inv_def)

lemma stack_inv_insert:
  assumes "stack_inv call sk"
  shows "\<forall>sk'. snd (OPENSSL_sk_insert al stale (Some sk) p i) = Some sk' \<longrightarrow> stack_inv call sk'"
proof (intro allI impI)
  fix sk' assume s: "snd (OPENSSL_sk_insert al stale (Some sk) p i) = Some sk'"
  obtain n where i: "OPENSSL_sk_insert al stale (Some sk) p i = (n, Some sk')"
    using s by (metis prod.collapse)
  show "stack_inv call sk'"
  proof (cases "n = 0")
    case True
    with i OPENSSL_sk_insert_fails assms show ?thesis by fastforce
  next
    case False
    with i OPENSSL_sk_insert_Some [of sk al stale p i n sk'] assms show ?thesis
      by (simp add: stack_inv_def)
  qed
qed

lemma stack_inv_part:
  assumes "stack_inv call sk" "stack_ok sk'" "sorted_flag sk' = sorted_flag sk" "comp sk' = comp sk"
    and "\<And>P. sorted_wrt P (elems sk) \<Longrightarrow> sorted_wrt P (elems sk')"
  shows "stack_inv call sk'"
  using assms by (auto simp: stack_inv_def)

lemma stack_inv_delete:
  assumes "stack_inv call sk"
  shows "\<forall>sk'. snd (OPENSSL_sk_delete (Some sk) i) = Some sk' \<longrightarrow> stack_inv call sk'"
proof (cases "i < num sk")
  case False
  with assms show ?thesis by (simp add: OPENSSL_sk_delete_def)
next
  case True
  have part: "sorted_wrt P (take i xs @ drop (Suc i) xs)" if "sorted_wrt P xs" for P xs
  proof -
    have "sorted_wrt P (take i xs @ drop i xs)" using that by simp
    then show ?thesis
      unfolding sorted_wrt_append by (metis drop_Suc drop_tl in_set_dropD in_set_dropD sorted_wrt_drop drop_drop plus_1_eq_Suc)
  qed
  have "stack_ok sk" using assms by (simp add: stack_inv_def)
  from OPENSSL_sk_delete_eq [OF this True] obtain sk' where sk':
    "OPENSSL_sk_delete (Some sk) i = (elems sk ! i, Some sk')" "stack_ok sk'"
    "elems sk' = take i (elems sk) @ drop (Suc i) (elems sk)" "sorted_flag sk' = sorted_flag sk" "comp sk' = comp sk"
    by blast
  have "stack_inv call sk'"
    by (rule stack_inv_part [OF assms sk'(2,4,5)]) (unfold sk'(3), rule part)
  with sk'(1) show ?thesis by simp
qed

lemma stack_inv_delete_ptr:
  assumes "stack_inv call sk"
  shows "\<forall>sk'. snd (OPENSSL_sk_delete_ptr (Some sk) p) = Some sk' \<longrightarrow> stack_inv call sk'"
  using stack_inv_delete [OF assms] assms by (auto simp: OPENSSL_sk_delete_ptr_def split: option.splits)

lemma stack_inv_delete_if:
  assumes "stack_inv call sk"
  shows "\<forall>sk'. OPENSSL_sk_delete_if (Some sk) test func u = Some sk' \<longrightarrow> stack_inv call sk'"
proof -
  have "stack_ok sk" using assms by (simp add: stack_inv_def)
  from OPENSSL_sk_delete_if_ok [OF this, of test func u] obtain sk' where
    "OPENSSL_sk_delete_if (Some sk) test func u = Some sk'" "stack_ok sk'"
    "elems sk' = filter (\<lambda>p. \<not> test func p u) (elems sk)" "sorted_flag sk' = sorted_flag sk" "comp sk' = comp sk"
    by blast
  moreover from this have "stack_inv call sk'"
    by (intro stack_inv_part [OF assms]) (simp_all add: sorted_wrt_filter)
  ultimately show ?thesis by simp
qed

lemma stack_inv_zero:
  "stack_inv call sk \<Longrightarrow> \<forall>sk'. OPENSSL_sk_zero (Some sk) = Some sk' \<longrightarrow> stack_inv call sk'"
  using OPENSSL_sk_zero_ok [of sk] by (auto simp: stack_inv_def)

lemma stack_inv_sort:
  assumes "stack_inv call sk" "\<forall>c. comparison (call c)"
  shows "\<forall>sk'. OPENSSL_sk_sort (Some sk) call = Some sk' \<longrightarrow> stack_inv call sk'"
proof (cases "comp sk")
  case None
  with assms show ?thesis by (simp add: OPENSSL_sk_sort_def)
next
  case (Some c)
  from OPENSSL_sk_sort_ok [OF assms(1) Some] assms(2) Some show ?thesis
    by (auto simp: stack_inv_def)
qed

lemma stack_inv_dup:
  "stack_inv call sk \<Longrightarrow> \<forall>sk'. OPENSSL_sk_dup al (Some sk) = Some sk' \<longrightarrow> stack_inv call sk'"
  using OPENSSL_sk_dup_ok [of sk al] by (auto simp: stack_inv_def)

lemma stack_inv_set_cmp: "stack_inv call sk \<Longrightarrow> stack_inv call (snd (OPENSSL_sk_set_cmp_func sk cmp))"
  by (auto simp: OPENSSL_sk_set_cmp_func_def stack_inv_def stack_ok_def elems_def Let_def)

section \<open>Properties\<close>


definition plain_allocator :: allocator where
  "plain_allocator = \<lparr>malloc_ok = (\<lambda>_. True), junk = (\<lambda>_. 0xa5)\<rparr>"

definition example_stack :: "(nat, unit) stack" where
  "example_stack = \<lparr>num = 3, data = [Some 7, None, Some 2, Some 99, None], sorted_flag = False, num_alloc = 5, comp = Some ()\<rparr>"

lemma example_stack_ok: "stack_ok example_stack" "elems example_stack = [Some 7, None, Some 2]"
  by (simp_all add: stack_ok_def example_stack_def elems_def pointer_size_def SIZE_MOD_def)

lemma example_insert:
  "OPENSSL_sk_insert plain_allocator (\<lambda>_. None) (Some example_stack) (Some 5) 1 =
     (4, Some (example_stack\<lparr>num := 4, data := [Some 7, Some 5, None, Some 2, None]\<rparr>))"
  by (simp add: OPENSSL_sk_insert_def example_stack_def sk_grow_def Let_def move_pointers_def numeral_2_eq_2)


text \<open>
  C22: every operation but \<open>OPENSSL_sk_set\<close> keeps the invariant of the structure: the elements fit into the
  block, and they are in order whenever the \<open>sorted\<close> field is set.
\<close>

theorem stack_invariant_kept:
  assumes "stack_inv call sk" "\<forall>c. comparison (call c)"
  shows "(\<forall>sk'. snd (OPENSSL_sk_insert al stale (Some sk) p i) = Some sk' \<longrightarrow> stack_inv call sk') \<and>
    (\<forall>sk'. snd (OPENSSL_sk_delete (Some sk) i) = Some sk' \<longrightarrow> stack_inv call sk') \<and>
    (\<forall>sk'. snd (OPENSSL_sk_delete_ptr (Some sk) p) = Some sk' \<longrightarrow> stack_inv call sk') \<and>
    (\<forall>sk'. OPENSSL_sk_delete_if (Some sk) test func u = Some sk' \<longrightarrow> stack_inv call sk') \<and>
    (\<forall>sk'. OPENSSL_sk_zero (Some sk) = Some sk' \<longrightarrow> stack_inv call sk') \<and>
    (\<forall>sk'. OPENSSL_sk_sort (Some sk) call = Some sk' \<longrightarrow> stack_inv call sk') \<and>
    (\<forall>sk'. OPENSSL_sk_dup al (Some sk) = Some sk' \<longrightarrow> stack_inv call sk') \<and>
    stack_inv call (snd (OPENSSL_sk_set_cmp_func sk cmp))"
  using stack_inv_insert [OF assms(1)] stack_inv_delete [OF assms(1)] stack_inv_delete_ptr [OF assms(1)]
    stack_inv_delete_if [OF assms(1)] stack_inv_zero [OF assms(1)] stack_inv_sort [OF assms] stack_inv_dup [OF assms(1)]
    stack_inv_set_cmp [OF assms(1)]
  by simp

theorem stack_invariant_kept_witness:
  "\<exists>sk'. OPENSSL_sk_sort (Some example_stack) (\<lambda>_ a b. 0) = Some sk' \<and> stack_inv (\<lambda>_ a b. 0) sk'"
proof -
  have inv: "stack_inv (\<lambda>_ a b. 0) example_stack"
    using example_stack_ok(1) by (simp add: stack_inv_def example_stack_def)
  have cmp: "\<forall>c :: unit. comparison (\<lambda>(a :: nat option) b. 0)"
    by (simp add: comparison_def)
  show ?thesis
  proof -
    obtain sk' where "OPENSSL_sk_sort (Some example_stack) (\<lambda>_ a b. 0) = Some sk'"
      by (auto simp: OPENSSL_sk_sort_def example_stack_def)
    moreover note stack_invariant_kept [OF inv cmp, THEN conjunct2, THEN conjunct2, THEN conjunct2, THEN conjunct2,
        THEN conjunct2, THEN conjunct1]
    ultimately show ?thesis by blast
  qed
qed

text \<open>
  C17: \<open>OPENSSL_sk_sort\<close> leaves the same elements in ascending order, whatever the comparison function, as
  long as it is one.
\<close>

theorem sort_sorts:
  assumes "stack_inv call sk" "comp sk = Some c" "comparison (call c)"
  shows "\<exists>sk'. OPENSSL_sk_sort (Some sk) call = Some sk' \<and> mset (elems sk') = mset (elems sk) \<and>
    sorted_wrt (\<lambda>a b. call c a b \<le> 0) (elems sk')"
  using OPENSSL_sk_sort_ok [OF assms] by blast

text \<open>A comparison function to evaluate with: numbers by size, \<open>NULL\<close> first.\<close>

definition compare_nats :: "unit \<Rightarrow> nat option \<Rightarrow> nat option \<Rightarrow> int" where
  "compare_nats u a b =
     (case (a, b) of
        (None, None) \<Rightarrow> 0 | (None, Some _) \<Rightarrow> - 1 | (Some _, None) \<Rightarrow> 1 | (Some m, Some n) \<Rightarrow> int m - int n)"

interpretation compare_nats: comparison "compare_nats u" for u
  by unfold_locales (auto simp: compare_nats_def split: option.splits)

lemma example_stack_inv: "stack_inv compare_nats example_stack" "comp example_stack = Some ()"
  using example_stack_ok(1) by (simp_all add: stack_inv_def example_stack_def)

theorem sort_sorts_witness:
  "\<exists>sk'. OPENSSL_sk_sort (Some example_stack) compare_nats = Some sk' \<and> mset (elems sk') = {#Some 2, Some 7, None#} \<and>
    sorted_wrt (\<lambda>a b. compare_nats () a b \<le> 0) (elems sk')"
  using sort_sorts [OF example_stack_inv compare_nats.comparison_axioms]
  by (simp add: example_stack_ok add_mset_commute)

text \<open>
  C20: \<open>OPENSSL_sk_find\<close> returns the first match and finds one if there is one, whether it searches from the
  front or, on a sorted stack, by halving.
\<close>

theorem find_returns_first:
  assumes "stack_inv call sk" "comp sk = Some c" "comparison (call c)"
  shows "OPENSSL_sk_find (Some sk) (Some x) call = Some i \<longleftrightarrow>
    i < length (elems sk) \<and> call c (Some x) (elems sk ! i) = 0 \<and> (\<forall>k < i. call c (Some x) (elems sk ! k) \<noteq> 0)"
proof -
  have "length (elems sk) = num sk"
    using assms(1) by (simp add: stack_inv_def length_elems)
  then show ?thesis
    unfolding OPENSSL_sk_find_first [OF assms option.distinct(2)] scan_loop_Some by (auto simp: nth_elems)
qed

theorem find_returns_first_witness:
  "OPENSSL_sk_find (Some example_stack) (Some 2) compare_nats = Some 2"
  unfolding find_returns_first [OF example_stack_inv compare_nats.comparison_axioms, of 2 2]
  by (simp add: example_stack_ok compare_nats_def less_Suc_eq numeral_2_eq_2)


text \<open>Copies that fail from the second on: the state counts them.\<close>

definition copy_once :: "unit \<Rightarrow> nat \<Rightarrow> nat multiset \<Rightarrow> nat option \<times> nat multiset" where
  "copy_once u x s = (if s = {#} then (Some x, add_mset x s) else (None, s))"

definition free_one :: "unit \<Rightarrow> nat \<Rightarrow> nat multiset \<Rightarrow> nat multiset" where
  "free_one u x s = s - {#x#}"


text \<open>
  What the invariant leaves out: \<open>OPENSSL_sk_set\<close> changes an element of a sorted stack and leaves the field
  \<open>sorted\<close> set, so that a search by halving misses an element that is there.
\<close>

lemma set_keeps_sorted_flag:
  fixes sk defines "sk \<equiv> \<lparr>num = 3, data = [Some 1, Some 2, Some 3 :: nat option], sorted_flag = True, num_alloc = 3, comp = Some ()\<rparr>"
  shows "stack_inv compare_nats sk" "\<exists>sk'. OPENSSL_sk_set (Some sk) 1 (Some 9) = (Some 9, Some sk') \<and> Some 3 \<in> set (elems sk') \<and>
    elems sk' = [Some 1, Some 9, Some 3] \<and> OPENSSL_sk_find (Some sk') (Some 3) compare_nats = None"
proof -
  show "stack_inv compare_nats sk"
    by (simp add: sk_def stack_inv_def stack_ok_def elems_def pointer_size_def SIZE_MOD_def compare_nats_def)
  show "\<exists>sk'. OPENSSL_sk_set (Some sk) 1 (Some 9) = (Some 9, Some sk') \<and> Some 3 \<in> set (elems sk') \<and>
    elems sk' = [Some 1, Some 9, Some 3] \<and> OPENSSL_sk_find (Some sk') (Some 3) compare_nats = None"
    by (simp add: sk_def OPENSSL_sk_set_def elems_def OPENSSL_sk_find_def OPENSSL_sk_is_sorted_def find_loop.simps
        compare_nats_def)
qed

end
