(* ===== verification/LHash.thy ===== *)
theory LHash
  imports Prelude Mem "HOL-Library.Multiset"
begin

text \<open>
  \<open>crypto/lhash/lhash.c\<close>: the chained hash table that grows and shrinks with the number of its items.

  A chain is the list of its items; the pointer to a pointer that the lookup functions return is the
  number of the bucket and a position in its chain, which is the length of the chain when the pointer it
  points to is \<open>NULL\<close>. The function pointers \<open>hash\<close> and \<open>comp\<close> are values that only the helpers
  \<open>call_hash_func\<close> and \<open>call_cmp_func\<close> can apply. The objects stored are not \<open>NULL\<close>.
\<close>

section \<open>Tables\<close>

definition kMinNumBuckets :: nat where "kMinNumBuckets = 16"
definition kMaxAverageChainLength :: nat where "kMaxAverageChainLength = 2"
definition kMinAverageChainLength :: nat where "kMinAverageChainLength = 1"

record 'a lhash_item =
  item_data :: 'a
  item_hash :: u32

record ('a, 'h, 'c) lhash =
  num_items :: nat
  buckets :: "'a lhash_item list list"
  num_buckets :: nat
  callback_depth :: u32
  lh_comp :: 'c
  lh_hash :: 'h

definition lhash_struct_size :: nat where "lhash_struct_size = 48"
definition item_struct_size :: nat where "item_struct_size = 24"
definition item_pointer_size :: nat where "item_pointer_size = 8"

definition OPENSSL_lh_new :: "allocator \<Rightarrow> 'h \<Rightarrow> 'c \<Rightarrow> ('a, 'h, 'c) lhash option" where
  "OPENSSL_lh_new al hash cmp =
     (case OPENSSL_zalloc al lhash_struct_size of None \<Rightarrow> None
      | Some _ \<Rightarrow>
     (case OPENSSL_calloc al kMinNumBuckets item_pointer_size of None \<Rightarrow> None
      | Some _ \<Rightarrow>
          Some \<lparr>num_items = 0, buckets = replicate kMinNumBuckets [], num_buckets = kMinNumBuckets, callback_depth = 0,
            lh_comp = cmp, lh_hash = hash\<rparr>))"

definition OPENSSL_lh_num_items :: "('a, 'h, 'c) lhash \<Rightarrow> nat" where
  "OPENSSL_lh_num_items lh = num_items lh"

text \<open>The walk along a chain: the position of the first item that matches, or the end.\<close>

fun chain_search :: "('i \<Rightarrow> bool) \<Rightarrow> 'i list \<Rightarrow> nat" where
  "chain_search match [] = 0"
| "chain_search match (cur # chain) = (if match cur then 0 else Suc (chain_search match chain))"

text \<open>The hash value, the bucket and the position.\<close>

definition get_next_ptr_and_hash ::
    "('h \<Rightarrow> 'a \<Rightarrow> u32) \<Rightarrow> ('c \<Rightarrow> 'a \<Rightarrow> 'a \<Rightarrow> int) \<Rightarrow> ('a, 'h, 'c) lhash \<Rightarrow> 'a \<Rightarrow> u32 \<times> nat \<times> nat" where
  "get_next_ptr_and_hash call_hash_func call_cmp_func lh data =
     (let hash = call_hash_func (lh_hash lh) data;
          b = unat hash mod num_buckets lh
      in (hash, b, chain_search (\<lambda>cur. call_cmp_func (lh_comp lh) (item_data cur) data = 0) (buckets lh ! b)))"

definition get_next_ptr_by_key :: "('k \<Rightarrow> 'a \<Rightarrow> int) \<Rightarrow> ('a, 'h, 'c) lhash \<Rightarrow> 'k \<Rightarrow> u32 \<Rightarrow> nat \<times> nat" where
  "get_next_ptr_by_key cmp_key lh key key_hash =
     (let b = unat key_hash mod num_buckets lh
      in (b, chain_search (\<lambda>cur. cmp_key key (item_data cur) = 0) (buckets lh ! b)))"

text \<open>\<open>*next_ptr\<close>.\<close>

definition item_at :: "('a, 'h, 'c) lhash \<Rightarrow> nat \<Rightarrow> nat \<Rightarrow> 'a lhash_item option" where
  "item_at lh b k = (if k < length (buckets lh ! b) then Some (buckets lh ! b ! k) else None)"

definition OPENSSL_lh_retrieve ::
    "('h \<Rightarrow> 'a \<Rightarrow> u32) \<Rightarrow> ('c \<Rightarrow> 'a \<Rightarrow> 'a \<Rightarrow> int) \<Rightarrow> ('a, 'h, 'c) lhash \<Rightarrow> 'a \<Rightarrow> 'a option" where
  "OPENSSL_lh_retrieve call_hash_func call_cmp_func lh data =
     (case get_next_ptr_and_hash call_hash_func call_cmp_func lh data of
        (_, b, k) \<Rightarrow> map_option item_data (item_at lh b k))"

definition OPENSSL_lh_retrieve_key :: "('k \<Rightarrow> 'a \<Rightarrow> int) \<Rightarrow> ('a, 'h, 'c) lhash \<Rightarrow> 'k \<Rightarrow> u32 \<Rightarrow> 'a option" where
  "OPENSSL_lh_retrieve_key cmp_key lh key key_hash =
     (case get_next_ptr_by_key cmp_key lh key key_hash of (b, k) \<Rightarrow> map_option item_data (item_at lh b k))"

section \<open>Resizing\<close>

text \<open>Each item is put in front of the chain of its new bucket.\<close>

fun move_chain :: "nat \<Rightarrow> 'a lhash_item list \<Rightarrow> 'a lhash_item list list \<Rightarrow> 'a lhash_item list list" where
  "move_chain n [] new = new"
| "move_chain n (cur # chain) new =
     (let b = unat (item_hash cur) mod n in move_chain n chain (new[b := cur # new ! b]))"

fun move_buckets :: "nat \<Rightarrow> 'a lhash_item list list \<Rightarrow> 'a lhash_item list list \<Rightarrow> 'a lhash_item list list" where
  "move_buckets n [] new = new"
| "move_buckets n (chain # old) new = move_buckets n old (move_chain n chain new)"

definition lh_rebucket :: "allocator \<Rightarrow> ('a, 'h, 'c) lhash \<Rightarrow> nat \<Rightarrow> ('a, 'h, 'c) lhash" where
  "lh_rebucket al lh new_num_buckets =
     (let alloc_size = size_mul item_pointer_size new_num_buckets
      in if alloc_size div item_pointer_size \<noteq> new_num_buckets then lh
      else case OPENSSL_zalloc al alloc_size of None \<Rightarrow> lh
      | Some _ \<Rightarrow>
          lh\<lparr>buckets := move_buckets new_num_buckets (take (num_buckets lh) (buckets lh)) (replicate new_num_buckets []),
             num_buckets := new_num_buckets\<rparr>)"

definition lh_maybe_resize :: "allocator \<Rightarrow> ('a, 'h, 'c) lhash \<Rightarrow> ('a, 'h, 'c) lhash" where
  "lh_maybe_resize al lh =
     (if callback_depth lh > 0 then lh
      else
        let avg_chain_length = num_items lh div num_buckets lh
        in if avg_chain_length > kMaxAverageChainLength
        then
          let new_num_buckets = size_mul (num_buckets lh) 2
          in if new_num_buckets > num_buckets lh then lh_rebucket al lh new_num_buckets else lh
        else if avg_chain_length < kMinAverageChainLength \<and> num_buckets lh > kMinNumBuckets
        then
          let new_num_buckets = num_buckets lh div 2;
              new_num_buckets = (if new_num_buckets < kMinNumBuckets then kMinNumBuckets else new_num_buckets)
          in lh_rebucket al lh new_num_buckets
        else lh)"

section \<open>Insertion, deletion and iteration\<close>

text \<open>Success, \<open>*old_data\<close> and the table.\<close>

definition OPENSSL_lh_insert ::
    "allocator \<Rightarrow> ('h \<Rightarrow> 'a \<Rightarrow> u32) \<Rightarrow> ('c \<Rightarrow> 'a \<Rightarrow> 'a \<Rightarrow> int) \<Rightarrow> ('a, 'h, 'c) lhash \<Rightarrow> 'a \<Rightarrow> bool \<times> 'a option \<times> ('a, 'h, 'c) lhash" where
  "OPENSSL_lh_insert al call_hash_func call_cmp_func lh data =
     (case get_next_ptr_and_hash call_hash_func call_cmp_func lh data of (hash, b, k) \<Rightarrow>
     (case item_at lh b k of
        Some item \<Rightarrow>
          (True, Some (item_data item), lh\<lparr>buckets := (buckets lh)[b := (buckets lh ! b)[k := item\<lparr>item_data := data\<rparr>]]\<rparr>)
      | None \<Rightarrow>
     (case OPENSSL_malloc al item_struct_size of None \<Rightarrow> (False, None, lh)
      | Some _ \<Rightarrow>
          let lh = lh\<lparr>buckets := (buckets lh)[b := take k (buckets lh ! b) @ [\<lparr>item_data = data, item_hash = hash\<rparr>]],
                 num_items := size_add (num_items lh) 1\<rparr>
          in (True, None, lh_maybe_resize al lh))))"

definition OPENSSL_lh_delete ::
    "allocator \<Rightarrow> ('h \<Rightarrow> 'a \<Rightarrow> u32) \<Rightarrow> ('c \<Rightarrow> 'a \<Rightarrow> 'a \<Rightarrow> int) \<Rightarrow> ('a, 'h, 'c) lhash \<Rightarrow> 'a \<Rightarrow> 'a option \<times> ('a, 'h, 'c) lhash" where
  "OPENSSL_lh_delete al call_hash_func call_cmp_func lh data =
     (case get_next_ptr_and_hash call_hash_func call_cmp_func lh data of (_, b, k) \<Rightarrow>
     (case item_at lh b k of
        None \<Rightarrow> (None, lh)
      | Some item \<Rightarrow>
          let lh = lh\<lparr>buckets := (buckets lh)[b := take k (buckets lh ! b) @ drop (Suc k) (buckets lh ! b)],
                 num_items := num_items lh - 1\<rparr>
          in (Some (item_data item), lh_maybe_resize al lh)))"

text \<open>
  Iteration, for a callback that works on a state of its own and leaves the table alone; \<open>None\<close> is the
  \<open>NULL\<close> table. \<open>callback_depth\<close> saturates.
\<close>

fun doall_chain :: "('a \<Rightarrow> 's \<Rightarrow> 's) \<Rightarrow> 'a lhash_item list \<Rightarrow> 's \<Rightarrow> 's" where
  "doall_chain func [] s = s"
| "doall_chain func (cur # chain) s = doall_chain func chain (func (item_data cur) s)"

fun doall_buckets :: "('a \<Rightarrow> 's \<Rightarrow> 's) \<Rightarrow> 'a lhash_item list list \<Rightarrow> 's \<Rightarrow> 's" where
  "doall_buckets func [] s = s"
| "doall_buckets func (chain # rest) s = doall_buckets func rest (doall_chain func chain s)"

definition OPENSSL_lh_doall_arg ::
    "allocator \<Rightarrow> ('a, 'h, 'c) lhash option \<Rightarrow> ('a \<Rightarrow> 's \<Rightarrow> 's) \<Rightarrow> 's \<Rightarrow> ('a, 'h, 'c) lhash option \<times> 's" where
  "OPENSSL_lh_doall_arg al lh func s =
     (case lh of None \<Rightarrow> (None, s)
      | Some lh \<Rightarrow>
          let lh = (if callback_depth lh < 0xffffffff then lh\<lparr>callback_depth := callback_depth lh + 1\<rparr> else lh);
              s = doall_buckets func (take (num_buckets lh) (buckets lh)) s;
              lh = (if callback_depth lh < 0xffffffff then lh\<lparr>callback_depth := callback_depth lh - 1\<rparr> else lh)
          in (Some (lh_maybe_resize al lh), s))"

section \<open>Contracts\<close>

text \<open>What a table needs of its two functions: equality that the hash respects.\<close>

locale hash_functions =
  fixes hash :: "'a \<Rightarrow> u32" and cmp :: "'a \<Rightarrow> 'a \<Rightarrow> int"
  assumes cmp_refl: "cmp a a = 0"
    and cmp_sym: "cmp a b = 0 \<Longrightarrow> cmp b a = 0"
    and cmp_trans: "cmp a b = 0 \<Longrightarrow> cmp b c = 0 \<Longrightarrow> cmp a c = 0"
    and hash_cmp: "cmp a b = 0 \<Longrightarrow> hash a = hash b"

text \<open>The invariant of a table, and the map it stands for: from any object to the one stored that equals it.\<close>

definition lh_items :: "('a, 'h, 'c) lhash \<Rightarrow> 'a list" where
  "lh_items lh = map item_data (concat (buckets lh))"

definition chains_ok :: "('a \<Rightarrow> u32) \<Rightarrow> nat \<Rightarrow> 'a lhash_item list list \<Rightarrow> bool" where
  "chains_ok hash n bs \<longleftrightarrow>
     (\<forall>b < length bs. \<forall>it \<in> set (bs ! b). item_hash it = hash (item_data it) \<and> unat (item_hash it) mod n = b)"

text \<open>No two items are equal.\<close>

definition unique :: "('a \<Rightarrow> 'a \<Rightarrow> int) \<Rightarrow> 'a multiset \<Rightarrow> bool" where
  "unique cmp M \<longleftrightarrow> (\<forall>x y. {#x, y#} \<subseteq># M \<longrightarrow> cmp x y \<noteq> 0)"

definition lh_ok :: "('h \<Rightarrow> 'a \<Rightarrow> u32) \<Rightarrow> ('c \<Rightarrow> 'a \<Rightarrow> 'a \<Rightarrow> int) \<Rightarrow> ('a, 'h, 'c) lhash \<Rightarrow> bool" where
  "lh_ok call_hash_func call_cmp_func lh \<longleftrightarrow>
     length (buckets lh) = num_buckets lh \<and> kMinNumBuckets \<le> num_buckets lh \<and>
     num_items lh = length (lh_items lh) \<and>
     chains_ok (call_hash_func (lh_hash lh)) (num_buckets lh) (buckets lh) \<and>
     unique (call_cmp_func (lh_comp lh)) (mset (lh_items lh))"

definition lookup_in :: "('a \<Rightarrow> 'a \<Rightarrow> int) \<Rightarrow> 'a list \<Rightarrow> 'a \<Rightarrow> 'a option" where
  "lookup_in cmp xs x = find (\<lambda>y. cmp y x = 0) xs"

definition lh_map :: "('c \<Rightarrow> 'a \<Rightarrow> 'a \<Rightarrow> int) \<Rightarrow> ('a, 'h, 'c) lhash \<Rightarrow> 'a \<Rightarrow> 'a option" where
  "lh_map call_cmp_func lh = lookup_in (call_cmp_func (lh_comp lh)) (lh_items lh)"

section \<open>Items and chains\<close>

lemma unique_subset: "unique cmp M \<Longrightarrow> N \<subseteq># M \<Longrightarrow> unique cmp N"
  unfolding unique_def using subset_mset.order_trans by blast

lemma pair_subset_add: "{#x, y#} \<subseteq># add_mset d M \<Longrightarrow> {#x, y#} \<subseteq># M \<or> x = d \<and> y \<in># M \<or> y = d \<and> x \<in># M"
proof -
  assume a: "{#x, y#} \<subseteq># add_mset d M"
  consider "x = d" | "y = d" | "x \<noteq> d" "y \<noteq> d" by blast
  then show ?thesis
  proof cases
    case 1
    with a have "{#y#} \<subseteq># M" by simp
    with 1 show ?thesis by simp
  next
    case 2
    with a have "add_mset d {#x#} \<subseteq># add_mset d M" by (simp add: add_mset_commute)
    then have "{#x#} \<subseteq># M" by (simp only: mset_subset_eq_add_mset_cancel)
    with 2 show ?thesis by simp
  next
    case 3
    have "count {#x, y#} z \<le> count M z" for z
      using mset_subset_eq_count [OF a, of z] 3 by (cases "z = d") auto
    then show ?thesis by (simp add: subseteq_mset_def)
  qed
qed

lemma mset_concat_update:
  "b < length xs \<Longrightarrow> mset (concat (xs[b := ys])) + mset (xs ! b) = mset (concat xs) + mset ys"
proof (induction xs arbitrary: b)
  case (Cons x xs)
  show ?case
  proof (cases b)
    case 0
    then show ?thesis by (simp add: ac_simps)
  next
    case (Suc c)
    with Cons have "mset (concat (xs[c := ys])) + mset (xs ! c) = mset (concat xs) + mset ys" by simp
    with Suc show ?thesis by (simp add: add.assoc)
  qed
qed simp

lemma chain_search_le: "chain_search match xs \<le> length xs"
  by (induction xs) auto

lemma chain_search_found: "chain_search match xs < length xs \<Longrightarrow> match (xs ! chain_search match xs)"
  by (induction xs) auto

lemma chain_search_end: "chain_search match xs = length xs \<longleftrightarrow> (\<forall>x \<in> set xs. \<not> match x)"
  by (induction xs) (auto dest: le_neq_implies_less)

lemma chains_okD:
  "chains_ok hash n bs \<Longrightarrow> b < length bs \<Longrightarrow> it \<in> set (bs ! b) \<Longrightarrow>
     item_hash it = hash (item_data it) \<and> unat (item_hash it) mod n = b"
  unfolding chains_ok_def by blast

lemma move_chain_ok:
  assumes "0 < n" "length new = n" "chains_ok hash n new" "\<forall>it \<in> set chain. item_hash it = hash (item_data it)"
  shows "length (move_chain n chain new) = n \<and> chains_ok hash n (move_chain n chain new) \<and>
    mset (concat (move_chain n chain new)) = mset chain + mset (concat new)"
  using assms
proof (induction chain arbitrary: new)
  case (Cons cur chain)
  let ?b = "unat (item_hash cur) mod n"
  let ?new = "new[?b := cur # new ! ?b]"
  have b: "?b < length new" using Cons.prems(1,2) by simp
  have "item_hash it = hash (item_data it) \<and> unat (item_hash it) mod n = c"
    if "c < length ?new" "it \<in> set (?new ! c)" for c it
  proof (cases "c = ?b \<and> it = cur")
    case True
    with Cons.prems(4) show ?thesis by simp
  next
    case False
    have "c < length new" using that(1) by simp
    moreover have "it \<in> set (new ! c)"
    proof (cases "c = ?b")
      case True
      with that(2) b have "it \<in> set (cur # new ! c)" by (simp only: nth_list_update_eq)
      with False True show ?thesis by simp
    next
      case False
      with that(2) show ?thesis by (simp only: nth_list_update_neq [OF not_sym [OF False]])
    qed
    ultimately show ?thesis by (rule chains_okD [OF Cons.prems(3)])
  qed
  then have "chains_ok hash n ?new"
    unfolding chains_ok_def by blast
  moreover have "length ?new = n" "\<forall>it \<in> set chain. item_hash it = hash (item_data it)"
    using Cons.prems(2,4) by simp_all
  ultimately have ih: "length (move_chain n chain ?new) = n \<and> chains_ok hash n (move_chain n chain ?new) \<and>
      mset (concat (move_chain n chain ?new)) = mset chain + mset (concat ?new)"
    by (intro Cons.IH [OF Cons.prems(1)])
  have "mset (concat ?new) = add_mset cur (mset (concat new))"
    using mset_concat_update [OF b, of "cur # new ! ?b"] by simp
  with ih show ?case by (simp add: Let_def)
qed simp

lemma move_buckets_ok:
  assumes "0 < n" "length new = n" "chains_ok hash n new"
    and "\<forall>it \<in> set (concat old). item_hash it = hash (item_data it)"
  shows "length (move_buckets n old new) = n \<and> chains_ok hash n (move_buckets n old new) \<and>
    mset (concat (move_buckets n old new)) = mset (concat old) + mset (concat new)"
  using assms
proof (induction old arbitrary: new)
  case (Cons chain old)
  have step: "length (move_chain n chain new) = n" "chains_ok hash n (move_chain n chain new)"
    "mset (concat (move_chain n chain new)) = mset chain + mset (concat new)"
    using move_chain_ok [OF Cons.prems(1-3), of chain] Cons.prems(4) by simp_all
  from Cons.IH [OF Cons.prems(1) step(1,2)] Cons.prems(4) step(3) show ?case
    by (simp add: ac_simps)
qed simp

lemma chains_ok_hash: "chains_ok hash n bs \<Longrightarrow> it \<in> set (concat bs) \<Longrightarrow> item_hash it = hash (item_data it)"
  unfolding chains_ok_def by (auto simp: in_set_conv_nth [of _ bs])

text \<open>What resizing keeps.\<close>

definition same_items :: "('a, 'h, 'c) lhash \<Rightarrow> ('a, 'h, 'c) lhash \<Rightarrow> bool" where
  "same_items lh lh' \<longleftrightarrow> mset (lh_items lh') = mset (lh_items lh) \<and> num_items lh' = num_items lh \<and>
     lh_comp lh' = lh_comp lh \<and> lh_hash lh' = lh_hash lh \<and> callback_depth lh' = callback_depth lh"

lemma lh_rebucket_ok:
  assumes "lh_ok call_hash_func call_cmp_func lh" "kMinNumBuckets \<le> n"
  shows "lh_ok call_hash_func call_cmp_func (lh_rebucket al lh n) \<and> same_items lh (lh_rebucket al lh n)"
proof -
  let ?hash = "call_hash_func (lh_hash lh)"
  note ok = assms(1) [unfolded lh_ok_def]
  have "\<forall>it \<in> set (concat (buckets lh)). item_hash it = ?hash (item_data it)"
    using ok chains_ok_hash by blast
  moreover have "0 < n" using assms(2) by (simp add: kMinNumBuckets_def)
  moreover have "chains_ok ?hash n (replicate n [])" by (simp add: chains_ok_def)
  ultimately have moved: "length (move_buckets n (buckets lh) (replicate n [])) = n"
    "chains_ok ?hash n (move_buckets n (buckets lh) (replicate n []))"
    "mset (concat (move_buckets n (buckets lh) (replicate n []))) = mset (concat (buckets lh))"
    using move_buckets_ok [of n "replicate n []" ?hash "buckets lh"] by simp_all
  define new where "new = lh\<lparr>buckets := move_buckets n (buckets lh) (replicate n []), num_buckets := n\<rparr>"
  have items: "mset (lh_items new) = mset (lh_items lh)"
    unfolding lh_items_def mset_map by (simp add: new_def moved(3))
  then have "length (lh_items new) = length (lh_items lh)"
    by (rule mset_eq_length)
  with items moved ok assms(2) have "lh_ok call_hash_func call_cmp_func new" "same_items lh new"
    by (simp_all add: lh_ok_def same_items_def new_def)
  moreover have "lh_rebucket al lh n = lh \<or> lh_rebucket al lh n = new"
    using ok by (simp add: lh_rebucket_def new_def Let_def split: option.splits)
  ultimately show ?thesis
    using assms(1) by (auto simp: same_items_def)
qed

lemma lh_maybe_resize_ok:
  assumes "lh_ok call_hash_func call_cmp_func lh"
  shows "lh_ok call_hash_func call_cmp_func (lh_maybe_resize al lh) \<and> same_items lh (lh_maybe_resize al lh)"
proof -
  have min: "kMinNumBuckets \<le> num_buckets lh"
    using assms by (simp add: lh_ok_def)
  have refl: "same_items lh lh" by (simp add: same_items_def)
  note rebucket = lh_rebucket_ok [OF assms, of _ al]
  show ?thesis
    unfolding lh_maybe_resize_def Let_def
    using min refl assms by (auto simp: not_less rebucket)
qed

lemma in_bucket:
  assumes "lh_ok call_hash_func call_cmp_func lh" "x \<in> set (lh_items lh)"
  shows "\<exists>it \<in> set (buckets lh ! (unat (call_hash_func (lh_hash lh) x) mod num_buckets lh)). item_data it = x"
proof -
  from assms(2) obtain b it where it: "b < length (buckets lh)" "it \<in> set (buckets lh ! b)" "item_data it = x"
    by (auto simp: lh_items_def in_set_conv_nth [of _ "buckets lh"])
  have "chains_ok (call_hash_func (lh_hash lh)) (num_buckets lh) (buckets lh)"
    using assms(1) by (simp add: lh_ok_def)
  from chains_okD [OF this it(1,2)]
  have "item_hash it = call_hash_func (lh_hash lh) x" "unat (item_hash it) mod num_buckets lh = b"
    unfolding it(3) by blast+
  then have "unat (call_hash_func (lh_hash lh) x) mod num_buckets lh = b" by metis
  with it show ?thesis by blast
qed

context hash_functions
begin

lemma lookup_Some:
  assumes "unique cmp (mset xs)"
  shows "lookup_in cmp xs x = Some y \<longleftrightarrow> y \<in> set xs \<and> cmp y x = 0"
proof
  assume "lookup_in cmp xs x = Some y"
  then show "y \<in> set xs \<and> cmp y x = 0"
    unfolding lookup_in_def by (auto simp: find_Some_iff)
next
  assume y: "y \<in> set xs \<and> cmp y x = 0"
  then obtain z where z: "lookup_in cmp xs x = Some z"
    unfolding lookup_in_def by (cases "find (\<lambda>y. cmp y x = 0) xs") (auto simp: find_None_iff)
  then have z': "z \<in> set xs" "cmp z x = 0"
    unfolding lookup_in_def by (auto simp: find_Some_iff)
  have "cmp z y = 0"
    using cmp_trans [OF z'(2) cmp_sym] y by simp
  have "z = y"
  proof (rule ccontr)
    assume "z \<noteq> y"
    have "y \<in># mset xs - {#z#}"
      using y \<open>z \<noteq> y\<close> by (simp add: in_diff_count)
    with z'(1) have "{#z, y#} \<subseteq># mset xs"
      by (simp add: insert_subset_eq_iff)
    with assms \<open>cmp z y = 0\<close> show False by (simp add: unique_def)
  qed
  with z show "lookup_in cmp xs x = Some y" by simp
qed

lemma lookup_None: "lookup_in cmp xs x = None \<longleftrightarrow> (\<forall>y \<in> set xs. cmp y x \<noteq> 0)"
  by (auto simp: lookup_in_def find_None_iff)

lemma lookup_mset:
  assumes "unique cmp (mset xs)" "mset ys = mset xs"
  shows "lookup_in cmp ys = lookup_in cmp xs"
proof
  fix x
  have "unique cmp (mset ys)" "set ys = set xs"
    using assms mset_eq_setD by auto
  then have "lookup_in cmp ys x = Some y \<longleftrightarrow> lookup_in cmp xs x = Some y" for y
    using assms(1) by (simp add: lookup_Some)
  then show "lookup_in cmp ys x = lookup_in cmp xs x"
    by (metis option.exhaust)
qed

lemma unique_add:
  assumes "unique cmp M" "\<And>y. y \<in># M \<Longrightarrow> cmp d y \<noteq> 0"
  shows "unique cmp (add_mset d M)"
  unfolding unique_def
proof (intro allI impI)
  fix x y assume "{#x, y#} \<subseteq># add_mset d M"
  from pair_subset_add [OF this] assms show "cmp x y \<noteq> 0"
    by (auto simp: unique_def dest: cmp_sym)
qed

end

context hash_functions
begin

lemma unique_minus:
  assumes "unique cmp M" "z \<in># M" "cmp z d = 0"
  shows "y \<in># M - {#z#} \<longleftrightarrow> y \<in># M \<and> cmp d y \<noteq> 0"
proof
  assume "y \<in># M - {#z#}"
  with assms(2) have "{#z, y#} \<subseteq># M" by (simp add: insert_subset_eq_iff)
  with assms(1) have "cmp z y \<noteq> 0" by (simp add: unique_def)
  with assms(3) \<open>y \<in># M - {#z#}\<close> show "y \<in># M \<and> cmp d y \<noteq> 0"
    using cmp_trans [of z d y] by (auto dest: in_diffD)
next
  assume "y \<in># M \<and> cmp d y \<noteq> 0"
  moreover from this have "y \<noteq> z" using assms(3) cmp_sym by blast
  ultimately show "y \<in># M - {#z#}" by (simp add: in_diff_count)
qed

lemma lookup_update:
  assumes "unique cmp (mset xs)" "unique cmp (mset ys)" "\<And>y. y \<in> set ys \<longleftrightarrow> y = d \<or> y \<in> set xs \<and> cmp d y \<noteq> 0"
  shows "lookup_in cmp ys x = (if cmp d x = 0 then Some d else lookup_in cmp xs x)"
proof (cases "cmp d x = 0")
  case True
  with assms show ?thesis by (simp add: lookup_Some)
next
  case False
  have "lookup_in cmp ys x = Some y \<longleftrightarrow> lookup_in cmp xs x = Some y" for y
    using assms False cmp_trans [of d y x] by (auto simp: lookup_Some)
  with False show ?thesis by (metis option.exhaust)
qed

lemma lookup_remove:
  assumes "unique cmp (mset xs)" "unique cmp (mset ys)" "\<And>y. y \<in> set ys \<longleftrightarrow> y \<in> set xs \<and> cmp d y \<noteq> 0"
  shows "lookup_in cmp ys x = (if cmp d x = 0 then None else lookup_in cmp xs x)"
proof (cases "cmp d x = 0")
  case True
  have "cmp y x \<noteq> 0" if "y \<in> set ys" for y
    using that assms(3) [of y] True cmp_trans [of d x y] cmp_sym [of y x] by auto
  with True show ?thesis by (simp add: lookup_None)
next
  case False
  have "lookup_in cmp ys x = Some y \<longleftrightarrow> lookup_in cmp xs x = Some y" for y
    using assms False cmp_trans [of d y x] by (auto simp: lookup_Some)
  with False show ?thesis by (metis option.exhaust)
qed

end

section \<open>The operations on the map\<close>

text \<open>The two functions of a table.\<close>

definition lh_functions :: "('h \<Rightarrow> 'a \<Rightarrow> u32) \<Rightarrow> ('c \<Rightarrow> 'a \<Rightarrow> 'a \<Rightarrow> int) \<Rightarrow> ('a, 'h, 'c) lhash \<Rightarrow> bool" where
  "lh_functions call_hash_func call_cmp_func lh \<longleftrightarrow>
     hash_functions (call_hash_func (lh_hash lh)) (call_cmp_func (lh_comp lh))"

lemma lookup_bucket:
  assumes ok: "lh_ok call_hash_func call_cmp_func lh" and hf: "lh_functions call_hash_func call_cmp_func lh"
    and ptr: "get_next_ptr_and_hash call_hash_func call_cmp_func lh x = (h, b, k)"
  shows "h = call_hash_func (lh_hash lh) x \<and> b = unat h mod num_buckets lh \<and> b < length (buckets lh) \<and>
    (case item_at lh b k of
       None \<Rightarrow> k = length (buckets lh ! b) \<and> (\<forall>y \<in> set (lh_items lh). call_cmp_func (lh_comp lh) y x \<noteq> 0)
     | Some it \<Rightarrow> k < length (buckets lh ! b) \<and> it = buckets lh ! b ! k \<and> item_data it \<in> set (lh_items lh) \<and>
         call_cmp_func (lh_comp lh) (item_data it) x = 0)"
proof -
  let ?hash = "call_hash_func (lh_hash lh)" and ?cmp = "call_cmp_func (lh_comp lh)"
  have h: "h = ?hash x" "b = unat h mod num_buckets lh"
    "k = chain_search (\<lambda>cur. ?cmp (item_data cur) x = 0) (buckets lh ! b)"
    using ptr by (auto simp: get_next_ptr_and_hash_def Let_def)
  have b: "b < length (buckets lh)"
    using ok by (simp add: lh_ok_def h(2) kMinNumBuckets_def)
  show ?thesis
  proof (cases "k < length (buckets lh ! b)")
    case True
    then have "?cmp (item_data (buckets lh ! b ! k)) x = 0"
      using chain_search_found unfolding h(3) by fastforce
    moreover have "item_data (buckets lh ! b ! k) \<in> set (lh_items lh)"
      using True b by (auto simp: lh_items_def intro!: imageI) (metis nth_mem)
    ultimately show ?thesis
      using True h b by (simp add: item_at_def)
  next
    case False
    with chain_search_le have "k = length (buckets lh ! b)"
      unfolding h(3) by (metis le_neq_implies_less)
    then have none: "?cmp (item_data it) x \<noteq> 0" if "it \<in> set (buckets lh ! b)" for it
      using that unfolding h(3) chain_search_end by blast
    have "?cmp y x \<noteq> 0" if y: "y \<in> set (lh_items lh)" for y
    proof
      assume "?cmp y x = 0"
      with hf have "?hash y = ?hash x"
        unfolding lh_functions_def by (rule hash_functions.hash_cmp)
      with in_bucket [OF ok y] h obtain it where "it \<in> set (buckets lh ! b)" "item_data it = y" by auto
      with none \<open>?cmp y x = 0\<close> show False by blast
    qed
    with False \<open>k = length (buckets lh ! b)\<close> show ?thesis
      using h b by (simp add: item_at_def)
  qed
qed

lemma OPENSSL_lh_retrieve_eq:
  assumes ok: "lh_ok call_hash_func call_cmp_func lh" and hf: "lh_functions call_hash_func call_cmp_func lh"
  shows "OPENSSL_lh_retrieve call_hash_func call_cmp_func lh x = lh_map call_cmp_func lh x"
proof -
  obtain h b k where ptr: "get_next_ptr_and_hash call_hash_func call_cmp_func lh x = (h, b, k)"
    by (rule prod_cases3)
  have u: "unique (call_cmp_func (lh_comp lh)) (mset (lh_items lh))"
    using ok by (simp add: lh_ok_def)
  note hf' = hf [unfolded lh_functions_def]
  note bucket = lookup_bucket [OF ok hf ptr]
  show ?thesis
  proof (cases "item_at lh b k")
    case None
    with bucket have "lh_map call_cmp_func lh x = None"
      by (simp add: lh_map_def hash_functions.lookup_None [OF hf'])
    with None show ?thesis by (simp add: OPENSSL_lh_retrieve_def ptr)
  next
    case (Some it)
    have "item_data it \<in> set (lh_items lh) \<and> call_cmp_func (lh_comp lh) (item_data it) x = 0"
      using bucket unfolding Some option.case by blast
    then have "lh_map call_cmp_func lh x = Some (item_data it)"
      unfolding lh_map_def hash_functions.lookup_Some [OF hf' u] .
    with Some show ?thesis by (simp add: OPENSSL_lh_retrieve_def ptr)
  qed
qed

lemma lh_map_same:
  assumes "lh_ok call_hash_func call_cmp_func lh" "lh_functions call_hash_func call_cmp_func lh" "same_items lh lh'"
  shows "lh_map call_cmp_func lh' = lh_map call_cmp_func lh"
  using assms unfolding lh_map_def same_items_def
  by (metis hash_functions.lookup_mset lh_functions_def lh_ok_def)

lemma chains_ok_update:
  assumes "chains_ok hash n bs" "b < length bs"
    and "\<And>it. it \<in> set chain \<Longrightarrow> item_hash it = hash (item_data it) \<and> unat (item_hash it) mod n = b"
  shows "chains_ok hash n (bs[b := chain])"
  unfolding chains_ok_def
proof (intro allI impI ballI)
  fix c it assume "c < length (bs[b := chain])" "it \<in> set (bs[b := chain] ! c)"
  show "item_hash it = hash (item_data it) \<and> unat (item_hash it) mod n = c"
  proof (cases "c = b")
    case True
    with \<open>it \<in> set (bs[b := chain] ! c)\<close> assms(2) have "it \<in> set chain" by simp
    from assms(3) [OF this] True show ?thesis by blast
  next
    case False
    with \<open>it \<in> set (bs[b := chain] ! c)\<close> have "it \<in> set (bs ! c)" by simp
    moreover have "c < length bs" using \<open>c < length (bs[b := chain])\<close> by simp
    ultimately show ?thesis using chains_okD [OF assms(1)] by blast
  qed
qed

lemma mset_items_update:
  assumes "b < length (buckets lh)"
  shows "mset (map item_data (concat ((buckets lh)[b := chain]))) + mset (map item_data (buckets lh ! b)) =
    mset (lh_items lh) + mset (map item_data chain)"
  using arg_cong [OF mset_concat_update [OF assms, of chain], of "image_mset item_data"]
  by (simp add: lh_items_def)

lemma lh_ok_update:
  assumes ok: "lh_ok call_hash_func call_cmp_func lh" and b: "b < length (buckets lh)"
    and chain: "\<And>it. it \<in> set chain \<Longrightarrow> item_hash it = call_hash_func (lh_hash lh) (item_data it) \<and>
      unat (item_hash it) mod num_buckets lh = b"
    and items: "mset (map item_data (concat ((buckets lh)[b := chain]))) = M"
    and M: "unique (call_cmp_func (lh_comp lh)) M" "n = size M"
  shows "lh_ok call_hash_func call_cmp_func (lh\<lparr>buckets := (buckets lh)[b := chain], num_items := n\<rparr>)"
proof -
  have "chains_ok (call_hash_func (lh_hash lh)) (num_buckets lh) (buckets lh)"
    using ok by (simp add: lh_ok_def)
  note chains_ok_update [OF this b chain]
  moreover have "n = length (map item_data (concat ((buckets lh)[b := chain])))"
    unfolding M(2) items [symmetric] by (rule size_mset)
  ultimately show ?thesis
    using ok M(1) items by (simp add: lh_ok_def lh_items_def)
qed

lemma resized:
  assumes "lh_ok call_hash_func call_cmp_func lh" "lh_functions call_hash_func call_cmp_func lh" "lh' = lh_maybe_resize al lh"
  shows "lh_ok call_hash_func call_cmp_func lh'" "lh_functions call_hash_func call_cmp_func lh'"
    "lh_map call_cmp_func lh' = lh_map call_cmp_func lh" "num_items lh' = num_items lh"
proof -
  from lh_maybe_resize_ok [OF assms(1), of al]
  have ok: "lh_ok call_hash_func call_cmp_func lh'" and same: "same_items lh lh'"
    unfolding assms(3) by simp_all
  show "lh_ok call_hash_func call_cmp_func lh'" by (rule ok)
  show "lh_functions call_hash_func call_cmp_func lh'" "num_items lh' = num_items lh"
    using same assms(2) by (simp_all add: same_items_def lh_functions_def)
  show "lh_map call_cmp_func lh' = lh_map call_cmp_func lh"
    by (rule lh_map_same [OF assms(1,2) same])
qed

lemma mset_exchange:
  fixes X :: "'x multiset"
  assumes "X + P = C + Q" "Q + A = P + B"
  shows "X + A = C + B"
proof -
  have "P + (X + A) = (X + P) + A" by (simp add: ac_simps)
  also have "\<dots> = C + (Q + A)" unfolding assms(1) by (simp add: ac_simps)
  also have "\<dots> = P + (C + B)" unfolding assms(2) by (simp add: ac_simps)
  finally show ?thesis by simp
qed

lemma mset_update_exchange: "k < length xs \<Longrightarrow> mset (xs[k := y]) + {#xs ! k#} = mset xs + {#y#}"
  by (simp add: mset_update)

lemma OPENSSL_lh_insert_ok:
  assumes ok: "lh_ok call_hash_func call_cmp_func lh" and hf: "lh_functions call_hash_func call_cmp_func lh"
    and room: "num_items lh + 1 < SIZE_MOD"
    and ins: "OPENSSL_lh_insert al call_hash_func call_cmp_func lh x = (True, old, lh')"
  shows "lh_ok call_hash_func call_cmp_func lh' \<and> lh_functions call_hash_func call_cmp_func lh' \<and>
    old = lh_map call_cmp_func lh x \<and>
    lh_map call_cmp_func lh' = (\<lambda>y. if call_cmp_func (lh_comp lh) x y = 0 then Some x else lh_map call_cmp_func lh y) \<and>
    num_items lh' = (if old = None then num_items lh + 1 else num_items lh)"
proof -
  let ?hash = "call_hash_func (lh_hash lh)" and ?cmp = "call_cmp_func (lh_comp lh)"
  obtain h b k where ptr: "get_next_ptr_and_hash call_hash_func call_cmp_func lh x = (h, b, k)"
    by (rule prod_cases3)
  note bucket = lookup_bucket [OF ok hf ptr]
  have h: "h = ?hash x" "b = unat h mod num_buckets lh" "b < length (buckets lh)"
    using bucket by blast+
  have u: "unique ?cmp (mset (lh_items lh))" and chains: "chains_ok ?hash (num_buckets lh) (buckets lh)"
    using ok by (simp_all add: lh_ok_def)
  note hf' = hf [unfolded lh_functions_def]
  note in_chain = chains_okD [OF chains h(3)]
  show ?thesis
  proof (cases "item_at lh b k")
    case (Some it)
    have it: "k < length (buckets lh ! b)" "it = buckets lh ! b ! k" "item_data it \<in># mset (lh_items lh)"
      "?cmp (item_data it) x = 0"
      using bucket unfolding Some option.case set_mset_mset by blast+
    define chain where "chain = (buckets lh ! b)[k := it\<lparr>item_data := x\<rparr>]"
    have lh': "lh' = lh\<lparr>buckets := (buckets lh)[b := chain]\<rparr>" "old = Some (item_data it)"
      using ins by (simp_all add: OPENSSL_lh_insert_def ptr Some chain_def)
    have found: "lh_map call_cmp_func lh x = Some (item_data it)"
      unfolding lh_map_def hash_functions.lookup_Some [OF hf' u] using it(3,4) by simp
    then have old: "old = lh_map call_cmp_func lh x" by (simp add: lh')
    have chain: "map item_data chain = (map item_data (buckets lh ! b))[k := x]"
      by (simp add: chain_def map_update)
    have "mset (map item_data chain) + {#item_data it#} = mset (map item_data (buckets lh ! b)) + {#x#}"
      using mset_update_exchange [of k "map item_data (buckets lh ! b)" x] it(1,2) unfolding chain by simp
    from mset_exchange [OF mset_items_update [OF h(3)] this]
    have "mset (lh_items lh') + {#item_data it#} = mset (lh_items lh) + {#x#}"
      by (simp add: lh' lh_items_def)
    then have "mset (lh_items lh') = (mset (lh_items lh) + {#x#}) - {#item_data it#}"
      by (metis add_diff_cancel_right')
    with it(3) have items: "mset (lh_items lh') = add_mset x (mset (lh_items lh) - {#item_data it#})"
      by (simp add: diff_union_swap2)
    have fresh: "\<And>y. y \<in># mset (lh_items lh) - {#item_data it#} \<longleftrightarrow> y \<in># mset (lh_items lh) \<and> ?cmp x y \<noteq> 0"
      by (rule hash_functions.unique_minus [OF hf' u it(3,4)])
    have "unique ?cmp (mset (lh_items lh) - {#item_data it#})"
      by (rule unique_subset [OF u]) simp
    then have u': "unique ?cmp (mset (lh_items lh'))"
      unfolding items by (rule hash_functions.unique_add [OF hf']) (simp add: fresh)
    have sz: "num_items lh = size (mset (lh_items lh'))"
      using ok it(3) unfolding items by (simp add: lh_ok_def size_Diff_singleton) (metis length_pos_if_in_set Suc_pred)
    have entries: "item_hash i = ?hash (item_data i) \<and> unat (item_hash i) mod num_buckets lh = b" if "i \<in> set chain" for i
    proof (cases "i = it\<lparr>item_data := x\<rparr>")
      case True
      have "?hash (item_data it) = ?hash x"
        using hf' it(4) by (rule hash_functions.hash_cmp)
      moreover have "it \<in> set (buckets lh ! b)" using it(1,2) by simp
      note in_chain [OF this]
      moreover have "item_hash i = item_hash it" "item_data i = x" by (simp_all add: True)
      ultimately show ?thesis by metis
    next
      case False
      with that have "i \<in> set (buckets lh ! b)"
        unfolding chain_def using set_update_subset_insert by fastforce
      then show ?thesis by (rule in_chain)
    qed
    have "mset (map item_data (concat ((buckets lh)[b := chain]))) = mset (lh_items lh')"
      by (simp add: lh' lh_items_def)
    from lh_ok_update [OF ok h(3) entries this u' sz] have "lh_ok call_hash_func call_cmp_func lh'" by (simp add: lh')
    moreover have "lh_map call_cmp_func lh' = (\<lambda>y. if ?cmp x y = 0 then Some x else lh_map call_cmp_func lh y)"
    proof
      fix y
      have "z \<in> set (lh_items lh') \<longleftrightarrow> z = x \<or> z \<in> set (lh_items lh) \<and> ?cmp x z \<noteq> 0" for z
        using fresh [of z] unfolding set_mset_mset [symmetric] items by simp
      from hash_functions.lookup_update [OF hf' u u' this]
      show "lh_map call_cmp_func lh' y = (if ?cmp x y = 0 then Some x else lh_map call_cmp_func lh y)"
        by (simp add: lh_map_def lh')
    qed
    ultimately show ?thesis
      using hf found by (simp add: lh' lh_functions_def)
  next
    case None
    have none: "k = length (buckets lh ! b)" "\<And>y. y \<in> set (lh_items lh) \<Longrightarrow> ?cmp y x \<noteq> 0"
      using bucket unfolding None option.case by blast+
    have none': "?cmp x y \<noteq> 0" if "y \<in> set (lh_items lh)" for y
      using none(2) [OF that] hash_functions.cmp_sym [OF hf'] by blast
    have old: "lh_map call_cmp_func lh x = None"
      unfolding lh_map_def hash_functions.lookup_None [OF hf'] using none(2) by blast
    define chain where "chain = buckets lh ! b @ [\<lparr>item_data = x, item_hash = h\<rparr>]"
    define lh1 where "lh1 = lh\<lparr>buckets := (buckets lh)[b := chain], num_items := num_items lh + 1\<rparr>"
    have lh': "lh' = lh_maybe_resize al lh1" "old = None"
      using ins room None [unfolded none(1)] by (auto simp: OPENSSL_lh_insert_def ptr none(1) chain_def lh1_def size_add_def Let_def
          split: option.splits)
    have items: "mset (lh_items lh1) = add_mset x (mset (lh_items lh))"
      using mset_items_update [OF h(3), of chain] by (simp add: chain_def lh1_def lh_items_def)
    have u': "unique ?cmp (mset (lh_items lh1))"
      unfolding items by (rule hash_functions.unique_add [OF hf' u]) (simp add: none')
    have sz: "num_items lh + 1 = size (mset (lh_items lh1))"
      using ok unfolding items by (simp add: lh_ok_def)
    have entries: "item_hash i = ?hash (item_data i) \<and> unat (item_hash i) mod num_buckets lh = b" if "i \<in> set chain" for i
      using that in_chain h(1,2) unfolding chain_def by auto
    have "mset (map item_data (concat ((buckets lh)[b := chain]))) = mset (lh_items lh1)"
      by (simp add: lh1_def lh_items_def)
    from lh_ok_update [OF ok h(3) entries this u' sz] have ok1: "lh_ok call_hash_func call_cmp_func lh1"
      by (simp add: lh1_def)
    have hf1: "lh_functions call_hash_func call_cmp_func lh1"
      using hf by (simp add: lh1_def lh_functions_def)
    have "lh_map call_cmp_func lh1 = (\<lambda>y. if ?cmp x y = 0 then Some x else lh_map call_cmp_func lh y)"
    proof
      fix y
      have "z \<in> set (lh_items lh1) \<longleftrightarrow> z = x \<or> z \<in> set (lh_items lh) \<and> ?cmp x z \<noteq> 0" for z
        using none' unfolding set_mset_mset [symmetric] items by auto
      from hash_functions.lookup_update [OF hf' u u' this]
      show "lh_map call_cmp_func lh1 y = (if ?cmp x y = 0 then Some x else lh_map call_cmp_func lh y)"
        by (simp add: lh_map_def lh1_def)
    qed
    with resized [OF ok1 hf1 lh'(1)] old lh'(2) show ?thesis
      by (simp add: lh1_def)
  qed
qed

lemma OPENSSL_lh_insert_fails:
  "OPENSSL_lh_insert al call_hash_func call_cmp_func lh x = (False, old, lh') \<Longrightarrow> lh' = lh \<and> old = None"
  by (auto simp: OPENSSL_lh_insert_def Let_def split: prod.splits option.splits)

lemma OPENSSL_lh_delete_ok:
  assumes ok: "lh_ok call_hash_func call_cmp_func lh" and hf: "lh_functions call_hash_func call_cmp_func lh"
    and del: "OPENSSL_lh_delete al call_hash_func call_cmp_func lh x = (old, lh')"
  shows "lh_ok call_hash_func call_cmp_func lh' \<and> lh_functions call_hash_func call_cmp_func lh' \<and>
    old = lh_map call_cmp_func lh x \<and>
    lh_map call_cmp_func lh' = (\<lambda>y. if call_cmp_func (lh_comp lh) x y = 0 then None else lh_map call_cmp_func lh y) \<and>
    num_items lh' = (if old = None then num_items lh else num_items lh - 1)"
proof -
  let ?hash = "call_hash_func (lh_hash lh)" and ?cmp = "call_cmp_func (lh_comp lh)"
  obtain h b k where ptr: "get_next_ptr_and_hash call_hash_func call_cmp_func lh x = (h, b, k)"
    by (rule prod_cases3)
  note bucket = lookup_bucket [OF ok hf ptr]
  have h: "b < length (buckets lh)"
    using bucket by blast
  have u: "unique ?cmp (mset (lh_items lh))" and chains: "chains_ok ?hash (num_buckets lh) (buckets lh)"
    using ok by (simp_all add: lh_ok_def)
  note hf' = hf [unfolded lh_functions_def]
  show ?thesis
  proof (cases "item_at lh b k")
    case None
    have none: "\<And>y. y \<in> set (lh_items lh) \<Longrightarrow> ?cmp y x \<noteq> 0"
      using bucket unfolding None option.case by blast
    have "lh_map call_cmp_func lh y = None" if "?cmp x y = 0" for y
    proof -
      have "?cmp z y \<noteq> 0" if "z \<in> set (lh_items lh)" for z
        using none [OF that] \<open>?cmp x y = 0\<close> hash_functions.cmp_trans [OF hf', of z y x] hash_functions.cmp_sym [OF hf', of x y]
        by blast
      then show ?thesis
        by (simp add: lh_map_def hash_functions.lookup_None [OF hf'])
    qed
    moreover have "old = None" "lh' = lh"
      using del None by (simp_all add: OPENSSL_lh_delete_def ptr)
    moreover have "lh_map call_cmp_func lh x = None"
      using none by (simp add: lh_map_def hash_functions.lookup_None [OF hf'])
    ultimately show ?thesis
      using ok hf by auto
  next
    case (Some it)
    have it: "k < length (buckets lh ! b)" "it = buckets lh ! b ! k" "item_data it \<in># mset (lh_items lh)"
      "?cmp (item_data it) x = 0"
      using bucket unfolding Some option.case set_mset_mset by blast+
    define chain where "chain = take k (buckets lh ! b) @ drop (Suc k) (buckets lh ! b)"
    define lh1 where "lh1 = lh\<lparr>buckets := (buckets lh)[b := chain], num_items := num_items lh - 1\<rparr>"
    have lh': "lh' = lh_maybe_resize al lh1" "old = Some (item_data it)"
      using del by (simp_all add: OPENSSL_lh_delete_def ptr Some chain_def lh1_def Let_def)
    have found: "lh_map call_cmp_func lh x = Some (item_data it)"
      unfolding lh_map_def hash_functions.lookup_Some [OF hf' u] using it(3,4) by simp
    have parts: "buckets lh ! b = take k (buckets lh ! b) @ it # drop (Suc k) (buckets lh ! b)"
      unfolding it(2) by (rule id_take_nth_drop [OF it(1)])
    have "mset (map item_data chain) + {#item_data it#} = mset (map item_data (buckets lh ! b)) + {#}"
      using arg_cong [OF parts, of "\<lambda>c. mset (map item_data c)"] by (simp add: chain_def)
    from mset_exchange [OF mset_items_update [OF h] this]
    have "mset (lh_items lh1) + {#item_data it#} = mset (lh_items lh)"
      by (simp add: lh1_def lh_items_def)
    then have items: "mset (lh_items lh1) = mset (lh_items lh) - {#item_data it#}"
      by (metis add_diff_cancel_right')
    have fresh: "\<And>y. y \<in># mset (lh_items lh) - {#item_data it#} \<longleftrightarrow> y \<in># mset (lh_items lh) \<and> ?cmp x y \<noteq> 0"
      by (rule hash_functions.unique_minus [OF hf' u it(3,4)])
    have u': "unique ?cmp (mset (lh_items lh1))"
      unfolding items by (rule unique_subset [OF u]) simp
    have sz: "num_items lh - 1 = size (mset (lh_items lh1))"
      using ok it(3) unfolding items by (simp add: lh_ok_def size_Diff_singleton)
    have entries: "item_hash i = ?hash (item_data i) \<and> unat (item_hash i) mod num_buckets lh = b" if "i \<in> set chain" for i
    proof -
      have "i \<in> set (buckets lh ! b)"
        using that unfolding chain_def by (auto dest: in_set_takeD in_set_dropD)
      then show ?thesis by (rule chains_okD [OF chains h])
    qed
    have "mset (map item_data (concat ((buckets lh)[b := chain]))) = mset (lh_items lh1)"
      by (simp add: lh1_def lh_items_def)
    from lh_ok_update [OF ok h entries this u' sz] have ok1: "lh_ok call_hash_func call_cmp_func lh1"
      by (simp add: lh1_def)
    have hf1: "lh_functions call_hash_func call_cmp_func lh1"
      using hf by (simp add: lh1_def lh_functions_def)
    have "lh_map call_cmp_func lh1 = (\<lambda>y. if ?cmp x y = 0 then None else lh_map call_cmp_func lh y)"
    proof
      fix y
      have "z \<in> set (lh_items lh1) \<longleftrightarrow> z \<in> set (lh_items lh) \<and> ?cmp x z \<noteq> 0" for z
        using fresh [of z] unfolding set_mset_mset [symmetric] items by simp
      from hash_functions.lookup_remove [OF hf' u u' this]
      show "lh_map call_cmp_func lh1 y = (if ?cmp x y = 0 then None else lh_map call_cmp_func lh y)"
        by (simp add: lh_map_def lh1_def)
    qed
    with resized [OF ok1 hf1 lh'(1)] found lh'(2) show ?thesis
      by (simp add: lh1_def)
  qed
qed

section \<open>Iteration and load\<close>

lemma doall_chain_fold: "doall_chain func chain s = fold func (map item_data chain) s"
  by (induction chain arbitrary: s) simp_all

lemma doall_buckets_fold: "doall_buckets func bs s = fold func (map item_data (concat bs)) s"
  by (induction bs arbitrary: s) (simp_all add: doall_chain_fold)

text \<open>The average chain length stays at most 2.\<close>

definition load_ok :: "('a, 'h, 'c) lhash \<Rightarrow> bool" where
  "load_ok lh \<longleftrightarrow> num_items lh < 3 * num_buckets lh"

lemma rebucket_num:
  assumes "\<forall>n. malloc_ok al n" "n * 8 + 8 < SIZE_MOD"
  shows "num_buckets (lh_rebucket al lh n) = n" "num_items (lh_rebucket al lh n) = num_items lh"
proof -
  have "size_mul item_pointer_size n = n * 8"
    using assms(2) by (simp add: size_mul_def item_pointer_size_def mult.commute)
  moreover have "size_add (n * 8) OPENSSL_MALLOC_PREFIX = n * 8 + 8"
    using assms(2) by (simp add: size_add_def OPENSSL_MALLOC_PREFIX_def)
  ultimately show "num_buckets (lh_rebucket al lh n) = n" "num_items (lh_rebucket al lh n) = num_items lh"
    using assms(1) by (simp_all add: lh_rebucket_def item_pointer_size_def OPENSSL_zalloc_def OPENSSL_malloc_def Let_def)
qed

lemma resize_load:
  assumes "\<forall>n. malloc_ok al n" "callback_depth lh = 0" "kMinNumBuckets \<le> num_buckets lh"
    and "16 * num_buckets lh + 8 < SIZE_MOD" "num_items lh \<le> 3 * num_buckets lh"
  shows "load_ok (lh_maybe_resize al lh)"
proof -
  let ?n = "num_buckets lh"
  have n: "16 \<le> ?n" using assms(3) by (simp add: kMinNumBuckets_def)
  consider "num_items lh = 3 * ?n" | "?n \<le> num_items lh" "num_items lh < 3 * ?n"
    | "num_items lh < ?n" "?n = 16" | "num_items lh < ?n" "16 < ?n"
    using assms(5) n by linarith
  then show ?thesis
  proof cases
    case 1
    have "size_mul ?n 2 = ?n * 2" using assms(4) by (simp add: size_mul_def)
    with 1 n have "lh_maybe_resize al lh = lh_rebucket al lh (?n * 2)"
      using assms(2) by (simp add: lh_maybe_resize_def kMaxAverageChainLength_def Let_def)
    with rebucket_num [OF assms(1), of "?n * 2" lh] assms(4) 1 n show ?thesis
      by (simp add: load_ok_def)
  next
    case 2
    then have "num_items lh div ?n \<le> 2" "\<not> num_items lh div ?n < 1"
      using n by (simp_all add: div_less_iff_less_mult less_Suc_eq_le [symmetric] div_greater_zero_iff)
    with 2 assms(2) show ?thesis
      by (simp add: lh_maybe_resize_def kMaxAverageChainLength_def kMinAverageChainLength_def load_ok_def)
  next
    case 3
    with assms(2) show ?thesis
      by (simp add: lh_maybe_resize_def kMaxAverageChainLength_def kMinAverageChainLength_def kMinNumBuckets_def load_ok_def)
  next
    case 4
    let ?m = "if ?n div 2 < 16 then 16 else ?n div 2"
    have "lh_maybe_resize al lh = lh_rebucket al lh ?m"
      using assms(2) 4 by (simp add: lh_maybe_resize_def kMaxAverageChainLength_def kMinAverageChainLength_def
          kMinNumBuckets_def Let_def)
    moreover have "?m * 8 + 8 < SIZE_MOD" "num_items lh < 3 * ?m"
      using assms(4) 4 n by (auto split: if_splits)
    ultimately show ?thesis
      using rebucket_num [OF assms(1), of ?m lh] by (simp add: load_ok_def)
  qed
qed

lemma OPENSSL_lh_new_ok:
  assumes "OPENSSL_lh_new al h c = Some lh"
  shows "lh_ok call_hash_func call_cmp_func lh" "lh_items lh = []" "lh_hash lh = h" "lh_comp lh = c" "num_items lh = 0"
  using assms
  by (auto simp: OPENSSL_lh_new_def lh_ok_def lh_items_def chains_ok_def unique_def split: option.splits)

section \<open>Properties\<close>

text \<open>
  C5: a table is a map from objects to the stored objects that equal them, whatever its size: retrieving
  looks up, inserting updates and returns what was replaced, deleting removes and returns what was
  removed, and a failed insertion changes nothing.
\<close>

theorem lhash_refines_map:
  assumes "lh_ok call_hash_func call_cmp_func lh" "lh_functions call_hash_func call_cmp_func lh" "num_items lh + 1 < SIZE_MOD"
  shows "OPENSSL_lh_retrieve call_hash_func call_cmp_func lh x = lh_map call_cmp_func lh x \<and>
    (case OPENSSL_lh_insert al call_hash_func call_cmp_func lh x of (ok, old, lh') \<Rightarrow>
       if ok then
         lh_ok call_hash_func call_cmp_func lh' \<and> lh_functions call_hash_func call_cmp_func lh' \<and>
         old = lh_map call_cmp_func lh x \<and>
         lh_map call_cmp_func lh' = (\<lambda>y. if call_cmp_func (lh_comp lh) x y = 0 then Some x else lh_map call_cmp_func lh y)
       else lh' = lh \<and> old = None) \<and>
    (case OPENSSL_lh_delete al call_hash_func call_cmp_func lh x of (old, lh') \<Rightarrow>
       lh_ok call_hash_func call_cmp_func lh' \<and> lh_functions call_hash_func call_cmp_func lh' \<and>
       old = lh_map call_cmp_func lh x \<and>
       lh_map call_cmp_func lh' = (\<lambda>y. if call_cmp_func (lh_comp lh) x y = 0 then None else lh_map call_cmp_func lh y))"
proof (intro conjI)
  show "OPENSSL_lh_retrieve call_hash_func call_cmp_func lh x = lh_map call_cmp_func lh x"
    by (rule OPENSSL_lh_retrieve_eq [OF assms(1,2)])
  obtain ok old lh' where i: "OPENSSL_lh_insert al call_hash_func call_cmp_func lh x = (ok, old, lh')"
    by (rule prod_cases3)
  show "case OPENSSL_lh_insert al call_hash_func call_cmp_func lh x of (ok, old, lh') \<Rightarrow>
       if ok then
         lh_ok call_hash_func call_cmp_func lh' \<and> lh_functions call_hash_func call_cmp_func lh' \<and>
         old = lh_map call_cmp_func lh x \<and>
         lh_map call_cmp_func lh' = (\<lambda>y. if call_cmp_func (lh_comp lh) x y = 0 then Some x else lh_map call_cmp_func lh y)
       else lh' = lh \<and> old = None"
  proof (cases ok)
    case True
    with i OPENSSL_lh_insert_ok [OF assms, of al x old lh'] show ?thesis by simp
  next
    case False
    with i OPENSSL_lh_insert_fails [of al call_hash_func call_cmp_func lh x old lh'] show ?thesis by simp
  qed
  obtain old lh' where d: "OPENSSL_lh_delete al call_hash_func call_cmp_func lh x = (old, lh')"
    by (rule prod.exhaust)
  with OPENSSL_lh_delete_ok [OF assms(1,2) d] show
    "case OPENSSL_lh_delete al call_hash_func call_cmp_func lh x of (old, lh') \<Rightarrow>
       lh_ok call_hash_func call_cmp_func lh' \<and> lh_functions call_hash_func call_cmp_func lh' \<and>
       old = lh_map call_cmp_func lh x \<and>
       lh_map call_cmp_func lh' = (\<lambda>y. if call_cmp_func (lh_comp lh) x y = 0 then None else lh_map call_cmp_func lh y)"
    by simp
qed

text \<open>Numbers in an empty table, to evaluate with.\<close>

definition number_hash :: "unit \<Rightarrow> nat \<Rightarrow> u32" where
  "number_hash u n = word_of_nat n"

definition number_cmp :: "unit \<Rightarrow> nat \<Rightarrow> nat \<Rightarrow> int" where
  "number_cmp u m n = int m - int n"

interpretation numbers: hash_functions "number_hash u" "number_cmp u" for u
  by unfold_locales (simp_all add: number_hash_def number_cmp_def)

definition empty_table :: "(nat, unit, unit) lhash" where
  "empty_table = \<lparr>num_items = 0, buckets = replicate 16 [], num_buckets = 16, callback_depth = 0, lh_comp = (), lh_hash = ()\<rparr>"

definition ample_memory :: allocator where
  "ample_memory = \<lparr>malloc_ok = (\<lambda>_. True), junk = (\<lambda>_. 0)\<rparr>"

lemma empty_table_ok: "lh_ok number_hash number_cmp empty_table" "lh_functions number_hash number_cmp empty_table"
    "load_ok empty_table" "lh_items empty_table = []" "lh_map number_cmp empty_table = (\<lambda>_. None)"
  using numbers.hash_functions_axioms
  by (simp_all add: lh_ok_def empty_table_def lh_items_def kMinNumBuckets_def chains_ok_def unique_def lh_functions_def
      load_ok_def lh_map_def lookup_in_def fun_eq_iff)

lemma empty_table_insert: "\<exists>lh'. OPENSSL_lh_insert ample_memory number_hash number_cmp empty_table n = (True, None, lh')"
  by (simp add: OPENSSL_lh_insert_def get_next_ptr_and_hash_def Let_def item_at_def empty_table_def OPENSSL_malloc_def
      ample_memory_def item_struct_size_def size_add_def OPENSSL_MALLOC_PREFIX_def SIZE_MOD_def)

theorem lhash_refines_map_witness:
  "\<exists>lh'. OPENSSL_lh_insert ample_memory number_hash number_cmp empty_table 5 = (True, None, lh') \<and>
     lh_map number_cmp lh' 5 = Some 5 \<and> lh_map number_cmp lh' 6 = None"
proof -
  obtain lh' where "OPENSSL_lh_insert ample_memory number_hash number_cmp empty_table 5 = (True, None, lh')"
    using empty_table_insert by blast
  moreover have "num_items empty_table + 1 < SIZE_MOD"
    by (simp add: empty_table_def SIZE_MOD_def)
  ultimately show ?thesis
    using lhash_refines_map [OF empty_table_ok(1,2), of 5 ample_memory] by (simp add: empty_table_ok number_cmp_def)
qed





end
