(* ===== verification/Buf.thy ===== *)
theory Buf
  imports Mem
begin

text \<open>
  \<open>crypto/buf/buf.c\<close>: \<open>BUF_MEM\<close>, a growable buffer. \<open>buf_data\<close> is the whole allocated block, \<open>None\<close> for
  \<open>NULL\<close>; the first \<open>buf_length\<close> bytes are the contents. A function that fails returns 0 and, as in the
  code, may have nothing changed.
\<close>

record buf_mem =
  buf_length :: nat
  buf_data :: "bytes option"
  buf_max :: nat

definition buf_struct_size :: nat where "buf_struct_size = 24"

definition BUF_MEM_new :: "allocator \<Rightarrow> buf_mem option" where
  "BUF_MEM_new al =
     (case OPENSSL_zalloc al buf_struct_size of None \<Rightarrow> None
      | Some _ \<Rightarrow> Some \<lparr>buf_length = 0, buf_data = None, buf_max = 0\<rparr>)"

definition BUF_MEM_reserve :: "allocator \<Rightarrow> buf_mem \<Rightarrow> nat \<Rightarrow> bool \<times> buf_mem" where
  "BUF_MEM_reserve al buf cap =
     (if buf_max buf \<ge> cap then (True, buf)
      else
        let n = size_add cap 3
        in if n < cap then (False, buf)
        else
          let n = n div 3;
              alloc_size = size_mul n 4
          in if alloc_size div 4 \<noteq> n then (False, buf)
          else case OPENSSL_realloc al (buf_data buf) alloc_size of None \<Rightarrow> (False, buf)
          | Some new_buf \<Rightarrow> (True, buf\<lparr>buf_data := Some new_buf, buf_max := alloc_size\<rparr>))"

text \<open>Writing \<open>bs\<close> at the position \<open>pos\<close> of the block; without bytes to write nothing is touched.\<close>

definition buf_put :: "buf_mem \<Rightarrow> nat \<Rightarrow> bytes \<Rightarrow> buf_mem" where
  "buf_put buf pos bs =
     (case buf_data buf of None \<Rightarrow> buf
      | Some d \<Rightarrow> buf\<lparr>buf_data := Some (take pos d @ bs @ drop (pos + length bs) d)\<rparr>)"

definition BUF_MEM_grow :: "allocator \<Rightarrow> buf_mem \<Rightarrow> nat \<Rightarrow> nat \<times> buf_mem" where
  "BUF_MEM_grow al buf len =
     (case BUF_MEM_reserve al buf len of
        (False, buf) \<Rightarrow> (0, buf)
      | (True, buf) \<Rightarrow>
          let buf = (if buf_length buf < len then buf_put buf (buf_length buf) (replicate (len - buf_length buf) 0) else buf)
          in (len, buf\<lparr>buf_length := len\<rparr>))"

definition BUF_MEM_grow_clean :: "allocator \<Rightarrow> buf_mem \<Rightarrow> nat \<Rightarrow> nat \<times> buf_mem" where
  "BUF_MEM_grow_clean al buf len = BUF_MEM_grow al buf len"

definition BUF_MEM_append :: "allocator \<Rightarrow> buf_mem \<Rightarrow> bytes \<Rightarrow> nat \<Rightarrow> bool \<times> buf_mem" where
  "BUF_MEM_append al buf inp len =
     (if len = 0 then (True, buf)
      else
        let new_len = size_add (buf_length buf) len
        in if new_len < len then (False, buf)
        else case BUF_MEM_reserve al buf new_len of
          (False, buf) \<Rightarrow> (False, buf)
        | (True, buf) \<Rightarrow> (True, (buf_put buf (buf_length buf) (take len inp))\<lparr>buf_length := new_len\<rparr>))"

definition BUF_strdup :: "allocator \<Rightarrow> bytes option \<Rightarrow> bytes option" where
  "BUF_strdup al str = OPENSSL_strdup al str"

definition BUF_strnlen :: "bytes \<Rightarrow> nat \<Rightarrow> nat" where
  "BUF_strnlen str max_len = OPENSSL_strnlen str max_len"

definition BUF_strndup :: "allocator \<Rightarrow> bytes \<Rightarrow> nat \<Rightarrow> bytes option" where
  "BUF_strndup al str sz = OPENSSL_strndup al str sz"

definition BUF_strlcpy :: "bytes \<Rightarrow> bytes \<Rightarrow> nat \<Rightarrow> bytes \<times> nat" where
  "BUF_strlcpy dst src dst_size = OPENSSL_strlcpy dst src dst_size"

definition BUF_strlcat :: "bytes \<Rightarrow> bytes \<Rightarrow> nat \<Rightarrow> bytes \<times> nat" where
  "BUF_strlcat dst src dst_size = OPENSSL_strlcat dst src dst_size"

definition BUF_memdup :: "allocator \<Rightarrow> bytes \<Rightarrow> nat \<Rightarrow> bytes option" where
  "BUF_memdup al d sz = OPENSSL_memdup al d sz"

section \<open>The contents\<close>

definition buf_mem_ok :: "buf_mem \<Rightarrow> bool" where
  "buf_mem_ok buf \<longleftrightarrow> buf_length buf \<le> buf_max buf \<and> buf_max buf < SIZE_MOD \<and>
     (case buf_data buf of None \<Rightarrow> buf_max buf = 0 | Some d \<Rightarrow> length d = buf_max buf)"

definition buf_contents :: "buf_mem \<Rightarrow> bytes" where
  "buf_contents buf = (case buf_data buf of None \<Rightarrow> [] | Some d \<Rightarrow> take (buf_length buf) d)"

lemma length_buf_contents: "buf_mem_ok buf \<Longrightarrow> length (buf_contents buf) = buf_length buf"
  by (auto simp: buf_mem_ok_def buf_contents_def split: option.splits)

lemma size_div3: "n * 3 \<le> cap + 3 \<Longrightarrow> cap + 3 < n * 3 + 3 \<Longrightarrow> cap \<le> n * (4 :: nat)"
  by simp

lemma BUF_MEM_reserve_fails: "BUF_MEM_reserve al buf cap = (False, buf') \<Longrightarrow> buf' = buf"
  by (auto simp: BUF_MEM_reserve_def Let_def split: if_splits option.splits)

lemma BUF_MEM_reserve_ok:
  assumes ok: "buf_mem_ok buf" and r: "BUF_MEM_reserve al buf cap = (True, buf')" and cap: "cap < SIZE_MOD"
  shows "buf_mem_ok buf' \<and> buf_contents buf' = buf_contents buf \<and> buf_length buf' = buf_length buf \<and> cap \<le> buf_max buf'"
proof (cases "cap \<le> buf_max buf")
  case True
  with r ok show ?thesis by (simp add: BUF_MEM_reserve_def)
next
  case False
  define n where "n = size_add cap 3 div 3"
  from r False obtain d where d: "\<not> size_add cap 3 < cap" "size_mul n 4 div 4 = n"
    "OPENSSL_realloc al (buf_data buf) (size_mul n 4) = Some d"
    "buf' = buf\<lparr>buf_data := Some d, buf_max := size_mul n 4\<rparr>"
    by (auto simp: BUF_MEM_reserve_def n_def Let_def split: if_splits option.splits)
  have "cap + 3 < SIZE_MOD"
  proof (rule ccontr)
    assume "\<not> cap + 3 < SIZE_MOD"
    then have "(cap + 3) mod SIZE_MOD = cap + 3 - SIZE_MOD"
      using cap by (subst le_mod_geq) (simp_all add: SIZE_MOD_def)
    with d(1) cap \<open>\<not> cap + 3 < SIZE_MOD\<close> show False
      by (simp add: size_add_def SIZE_MOD_def)
  qed
  then have n: "n = (cap + 3) div 3"
    by (simp add: n_def size_add_def)
  have m: "size_mul n 4 = n * 4"
  proof -
    have "n * 4 < SIZE_MOD \<or> size_mul n 4 div 4 < n"
    proof (cases "n * 4 < SIZE_MOD")
      case big: False
      have "size_mul n 4 < SIZE_MOD" by (simp add: size_mul_def)
      with big show ?thesis by (simp add: SIZE_MOD_def)
    qed simp
    with d(2) show ?thesis by (auto simp: size_mul_def)
  qed
  have big: "cap \<le> n * 4"
    unfolding n by presburger
  have "length d = n * 4 \<and> take (buf_length buf) d = buf_contents buf"
  proof (cases "buf_data buf")
    case None
    with d(3) ok m show ?thesis
      by (auto simp: OPENSSL_realloc_def buf_mem_ok_def buf_contents_def dest: OPENSSL_malloc_length)
  next
    case (Some old)
    with ok have "length old = buf_max buf" "buf_length buf \<le> buf_max buf"
      by (simp_all add: buf_mem_ok_def)
    with Some d(3) m False big show ?thesis
      by (auto simp: OPENSSL_realloc_def buf_contents_def Let_def dest: OPENSSL_malloc_length split: option.splits)
  qed
  moreover have "n * 4 < SIZE_MOD"
    unfolding m [symmetric] by (simp add: size_mul_def)
  ultimately show ?thesis
    using ok False big by (simp add: d(4) m buf_mem_ok_def buf_contents_def)
qed

lemma buf_put_ok:
  assumes "buf_mem_ok buf" "buf_length buf + length bs \<le> buf_max buf" "bs \<noteq> []"
  shows "buf_mem_ok ((buf_put buf (buf_length buf) bs)\<lparr>buf_length := buf_length buf + length bs\<rparr>) \<and>
    buf_contents ((buf_put buf (buf_length buf) bs)\<lparr>buf_length := buf_length buf + length bs\<rparr>) = buf_contents buf @ bs"
  using assms by (auto simp: buf_mem_ok_def buf_put_def buf_contents_def split: option.splits)

lemma BUF_MEM_grow_ok:
  assumes ok: "buf_mem_ok buf" and g: "BUF_MEM_grow al buf len = (n, buf')" "n \<noteq> 0" and len: "len < SIZE_MOD"
  shows "buf_mem_ok buf' \<and> n = len \<and>
    buf_contents buf' = take len (buf_contents buf) @ replicate (len - buf_length buf) 0"
proof -
  obtain buf1 where r: "BUF_MEM_reserve al buf len = (True, buf1)"
    using g by (auto simp: BUF_MEM_grow_def split: prod.splits bool.splits)
  note b1 = BUF_MEM_reserve_ok [OF ok r len]
  have n: "n = len" using g r by (simp add: BUF_MEM_grow_def Let_def)
  show ?thesis
  proof (cases "buf_length buf1 < len")
    case True
    then have "buf' = (buf_put buf1 (buf_length buf1) (replicate (len - buf_length buf1) 0))\<lparr>buf_length := len\<rparr>"
      using g r by (auto simp: BUF_MEM_grow_def Let_def)
    with buf_put_ok [of buf1 "replicate (len - buf_length buf1) 0"] b1 True n length_buf_contents [OF ok] show ?thesis
      by simp
  next
    case False
    then have "buf' = buf1\<lparr>buf_length := len\<rparr>"
      using g r by (auto simp: BUF_MEM_grow_def Let_def)
    moreover have "buf_contents (buf1\<lparr>buf_length := len\<rparr>) = take len (buf_contents buf1)"
      using False by (auto simp: buf_contents_def min_def split: option.splits)
    moreover have "buf_mem_ok (buf1\<lparr>buf_length := len\<rparr>)"
      using False b1 by (auto simp: buf_mem_ok_def split: option.splits)
    ultimately show ?thesis
      using False b1 n by simp
  qed
qed

section \<open>Appending\<close>

text \<open>Appending to a well-formed buffer adds the bytes behind its contents, or changes nothing when the
  length overflows or memory runs out.
\<close>

lemma append_appends:
  assumes "buf_mem_ok buf" "len \<le> length inp" "len < SIZE_MOD"
  shows "case BUF_MEM_append al buf inp len of (ok, buf') \<Rightarrow>
    buf_mem_ok buf' \<and> buf_contents buf' = (if ok then buf_contents buf @ take len inp else buf_contents buf)"
proof (cases "len = 0")
  case True
  with assms(1) show ?thesis by (simp add: BUF_MEM_append_def)
next
  case False
  let ?new = "size_add (buf_length buf) len"
  obtain ok buf1 where r: "BUF_MEM_reserve al buf ?new = (ok, buf1)" by (rule prod.exhaust)
  show ?thesis
  proof (cases "ok \<and> \<not> ?new < len")
    case fails: False
    with False r assms(1) BUF_MEM_reserve_fails [of al buf ?new buf1] show ?thesis
      by (cases ok) (auto simp: BUF_MEM_append_def Let_def)
  next
    case True
    have "buf_length buf + len < SIZE_MOD"
    proof (rule ccontr)
      assume a: "\<not> buf_length buf + len < SIZE_MOD"
      have "buf_length buf < SIZE_MOD" using assms(1) by (auto simp: buf_mem_ok_def)
      with a assms(3) have "?new = buf_length buf + len - SIZE_MOD"
        by (simp add: size_add_def mod_if)
      with True a \<open>buf_length buf < SIZE_MOD\<close> show False by linarith
    qed
    then have new: "?new = buf_length buf + len" by (simp add: size_add_def)
    have b1: "buf_mem_ok buf1" "buf_contents buf1 = buf_contents buf" "buf_length buf1 = buf_length buf" "?new \<le> buf_max buf1"
      using BUF_MEM_reserve_ok [OF assms(1), of al ?new buf1] r True by simp_all
    have "BUF_MEM_append al buf inp len =
        (True, (buf_put buf1 (buf_length buf1) (take len inp))\<lparr>buf_length := buf_length buf1 + length (take len inp)\<rparr>)"
      using False True r assms(2) b1(3) new by (simp add: BUF_MEM_append_def Let_def)
    moreover have "inp \<noteq> []" using False assms(2) by auto
    ultimately show ?thesis
      using buf_put_ok [OF b1(1), of "take len inp"] b1 new assms(2) False by simp
  qed
qed

section \<open>Properties\<close>

text \<open>
  C40: every operation that changes a buffer keeps it well formed, whatever the allocator does and whatever
  the requested size: the length within the capacity, the capacity that of the block and a \<open>size_t\<close>.
  Reserving keeps the contents, growing cuts them or fills them up with zeros, appending adds the bytes,
  and an operation that fails keeps the contents.
\<close>

theorem buffer_stays_well_formed:
  assumes "buf_mem_ok buf" "len < SIZE_MOD" "len \<le> length inp"
  shows "(case BUF_MEM_reserve al buf len of (ok, buf') \<Rightarrow>
      buf_mem_ok buf' \<and> buf_contents buf' = buf_contents buf \<and> (ok \<longrightarrow> len \<le> buf_max buf')) \<and>
    (case BUF_MEM_grow al buf len of (n, buf') \<Rightarrow>
      buf_mem_ok buf' \<and> (if n = len then buf_contents buf' = take len (buf_contents buf) @ replicate (len - buf_length buf) 0
        else n = 0 \<and> buf_contents buf' = buf_contents buf)) \<and>
    (case BUF_MEM_append al buf inp len of (ok, buf') \<Rightarrow>
      buf_mem_ok buf' \<and> buf_contents buf' = (if ok then buf_contents buf @ take len inp else buf_contents buf))"
proof (intro conjI)
  obtain ok buf1 where r: "BUF_MEM_reserve al buf len = (ok, buf1)" by (rule prod.exhaust)
  then have b1: "buf_mem_ok buf1 \<and> buf_contents buf1 = buf_contents buf \<and> (ok \<longrightarrow> len \<le> buf_max buf1)"
    using BUF_MEM_reserve_ok [OF assms(1), of al len buf1] BUF_MEM_reserve_fails [of al buf len buf1] assms by (cases ok) auto
  then show "case BUF_MEM_reserve al buf len of (ok, buf') \<Rightarrow>
      buf_mem_ok buf' \<and> buf_contents buf' = buf_contents buf \<and> (ok \<longrightarrow> len \<le> buf_max buf')"
    by (simp add: r)
  obtain n buf2 where g: "BUF_MEM_grow al buf len = (n, buf2)" by (rule prod.exhaust)
  show "case BUF_MEM_grow al buf len of (n, buf') \<Rightarrow>
      buf_mem_ok buf' \<and> (if n = len then buf_contents buf' = take len (buf_contents buf) @ replicate (len - buf_length buf) 0
        else n = 0 \<and> buf_contents buf' = buf_contents buf)"
  proof (cases "n = 0")
    case False
    with BUF_MEM_grow_ok [OF assms(1) g False assms(2)] show ?thesis by (simp add: g)
  next
    case True
    show ?thesis
    proof (cases ok)
      case False
      with r g b1 BUF_MEM_reserve_fails [of al buf len buf1] show ?thesis
        using True assms(1) by (auto simp: BUF_MEM_grow_def BUF_MEM_reserve_def)
    next
      case reserved: True
      with r g True have "len = 0" "buf2 = buf1\<lparr>buf_length := 0\<rparr>"
        by (auto simp: BUF_MEM_grow_def Let_def)
      with b1 show ?thesis
        using True g by (auto simp: buf_mem_ok_def buf_contents_def split: option.splits)
    qed
  qed
qed (rule append_appends [OF assms(1,3,2)])

theorem buffer_stays_well_formed_witness:
  "case BUF_MEM_append \<lparr>malloc_ok = (\<lambda>n. n < 20), junk = (\<lambda>_. 7)\<rparr> \<lparr>buf_length = 1, buf_data = Some [5, 6], buf_max = 2\<rparr> [8, 9] 2 of (ok, buf') \<Rightarrow>
     ok \<and> buf_contents buf' = [5, 8, 9] \<and> buf_mem_ok buf'"
proof -
  let ?buf = "\<lparr>buf_length = 1, buf_data = Some [5, 6], buf_max = 2\<rparr> :: buf_mem"
  have "buf_mem_ok ?buf" by (simp add: buf_mem_ok_def SIZE_MOD_def)
  moreover have "fst (BUF_MEM_append \<lparr>malloc_ok = (\<lambda>n. n < 20), junk = (\<lambda>_. 7)\<rparr> ?buf [8, 9] 2)"
    by (simp add: BUF_MEM_append_def BUF_MEM_reserve_def OPENSSL_realloc_def OPENSSL_malloc_def OPENSSL_MALLOC_PREFIX_def
        size_add_def size_mul_def SIZE_MOD_def Let_def)
  moreover have "buf_contents ?buf = [5]" by (simp add: buf_contents_def)
  ultimately show ?thesis
    using buffer_stays_well_formed [of ?buf 2 "[8, 9]" "\<lparr>malloc_ok = (\<lambda>n. n < 20), junk = (\<lambda>_. 7)\<rparr>"]
    by (auto simp: SIZE_MOD_def split: prod.splits)
qed

end
