(* ===== verification/Conf.thy ===== *)
theory Conf
  imports LHash Buf
begin

text \<open>
  \<open>crypto/conf/conf.c\<close>: the keys of the configuration's hash tables, and the functions that take lines of
  text apart. A C string is the memory from its pointer on, as in the theory Mem; reading where a list
  ends gives NUL, which for a terminated string never happens.
\<close>

section \<open>Keys\<close>

text \<open>The C library's \<open>strcmp\<close>: the sign of the first difference between unsigned characters.\<close>

fun strcmp :: "bytes \<Rightarrow> bytes \<Rightarrow> int" where
  "strcmp [] [] = 0"
| "strcmp [] (d # t) = (if d = 0 then 0 else - 1)"
| "strcmp (c # s) [] = (if c = 0 then 0 else 1)"
| "strcmp (c # s) (d # t) = (if c < d then - 1 else if d < c then 1 else if c = 0 then 0 else strcmp s t)"

text \<open>Sections as the table of sections sees them, by their names, and values.\<close>

record conf_value =
  value_section :: bytes
  value_name :: bytes
  value_value :: bytes

definition conf_section_hash :: "bytes \<Rightarrow> u32" where
  "conf_section_hash s = OPENSSL_strhash s"

definition conf_section_cmp :: "bytes \<Rightarrow> bytes \<Rightarrow> int" where
  "conf_section_cmp a b = strcmp a b"

definition conf_value_hash :: "conf_value \<Rightarrow> u32" where
  "conf_value_hash v =
     (let section_hash = OPENSSL_strhash (value_section v);
          name_hash = OPENSSL_strhash (value_name v)
      in push_bit 2 section_hash XOR name_hash)"

definition conf_value_cmp :: "conf_value \<Rightarrow> conf_value \<Rightarrow> int" where
  "conf_value_cmp a b =
     (let cmp = strcmp (value_section a) (value_section b)
      in if cmp \<noteq> 0 then cmp else strcmp (value_name a) (value_name b))"

lemma strcmp_zero: "strcmp s t = 0 \<longleftrightarrow> cstr s = cstr t"
  by (induction s t rule: strcmp.induct) (auto simp: cstr_def)

lemma OPENSSL_strhash_cstr: "OPENSSL_strhash s = OPENSSL_hash32 (cstr s) (length (cstr s))"
proof -
  have nth: "s ! i = cstr s ! i" if "i < length (cstr s)" for i
    using that unfolding cstr_def by (simp add: takeWhile_nth)
  show ?thesis
    unfolding OPENSSL_strhash_def OPENSSL_hash32_def strlen_def
    by (rule foldl_cong) (simp_all add: nth)
qed

lemma conf_value_cmp_zero:
  "conf_value_cmp a b = 0 \<longleftrightarrow> cstr (value_section a) = cstr (value_section b) \<and> cstr (value_name a) = cstr (value_name b)"
  by (simp add: conf_value_cmp_def Let_def strcmp_zero)

interpretation conf_section: hash_functions conf_section_hash conf_section_cmp
  by unfold_locales (simp_all add: conf_section_cmp_def conf_section_hash_def strcmp_zero OPENSSL_strhash_cstr)

interpretation conf_value: hash_functions conf_value_hash conf_value_cmp
  by unfold_locales (simp_all add: conf_value_cmp_zero conf_value_hash_def OPENSSL_strhash_cstr)

section \<open>Character classes\<close>

definition CONF_type_default :: "16 word list" where
  "CONF_type_default = [
    0x0008, 0x0000, 0x0000, 0x0000, 0x0000, 0x0000, 0x0000, 0x0000, 0x0000, 0x0010, 0x0010, 0x0000, 0x0000, 0x0010, 0x0000, 0x0000,
    0x0000, 0x0000, 0x0000, 0x0000, 0x0000, 0x0000, 0x0000, 0x0000, 0x0000, 0x0000, 0x0000, 0x0000, 0x0000, 0x0000, 0x0000, 0x0000,
    0x0010, 0x0200, 0x0040, 0x0080, 0x0000, 0x0200, 0x0200, 0x0040, 0x0000, 0x0000, 0x0200, 0x0200, 0x0200, 0x0200, 0x0200, 0x0200,
    0x0001, 0x0001, 0x0001, 0x0001, 0x0001, 0x0001, 0x0001, 0x0001, 0x0001, 0x0001, 0x0000, 0x0200, 0x0000, 0x0000, 0x0000, 0x0200,
    0x0200, 0x0002, 0x0002, 0x0002, 0x0002, 0x0002, 0x0002, 0x0002, 0x0002, 0x0002, 0x0002, 0x0002, 0x0002, 0x0002, 0x0002, 0x0002,
    0x0002, 0x0002, 0x0002, 0x0002, 0x0002, 0x0002, 0x0002, 0x0002, 0x0002, 0x0002, 0x0002, 0x0000, 0x0020, 0x0000, 0x0200, 0x0100,
    0x0040, 0x0004, 0x0004, 0x0004, 0x0004, 0x0004, 0x0004, 0x0004, 0x0004, 0x0004, 0x0004, 0x0004, 0x0004, 0x0004, 0x0004, 0x0004,
    0x0004, 0x0004, 0x0004, 0x0004, 0x0004, 0x0004, 0x0004, 0x0004, 0x0004, 0x0004, 0x0004, 0x0000, 0x0200, 0x0000, 0x0200, 0x0000,
    0x1000, 0x1000, 0x1000, 0x1000, 0x1000, 0x1000, 0x1000, 0x1000, 0x1000, 0x1000, 0x1000, 0x1000, 0x1000, 0x1000, 0x1000, 0x1000,
    0x1000, 0x1000, 0x1000, 0x1000, 0x1000, 0x1000, 0x1000, 0x1000, 0x1000, 0x1000, 0x1000, 0x1000, 0x1000, 0x1000, 0x1000, 0x1000,
    0x1000, 0x1000, 0x1000, 0x1000, 0x1000, 0x1000, 0x1000, 0x1000, 0x1000, 0x1000, 0x1000, 0x1000, 0x1000, 0x1000, 0x1000, 0x1000,
    0x1000, 0x1000, 0x1000, 0x1000, 0x1000, 0x1000, 0x1000, 0x1000, 0x1000, 0x1000, 0x1000, 0x1000, 0x1000, 0x1000, 0x1000, 0x1000,
    0x1000, 0x1000, 0x1000, 0x1000, 0x1000, 0x1000, 0x1000, 0x1000, 0x1000, 0x1000, 0x1000, 0x1000, 0x1000, 0x1000, 0x1000, 0x1000,
    0x1000, 0x1000, 0x1000, 0x1000, 0x1000, 0x1000, 0x1000, 0x1000, 0x1000, 0x1000, 0x1000, 0x1000, 0x1000, 0x1000, 0x1000, 0x1000,
    0x1000, 0x1000, 0x1000, 0x1000, 0x1000, 0x1000, 0x1000, 0x1000, 0x1000, 0x1000, 0x1000, 0x1000, 0x1000, 0x1000, 0x1000, 0x1000,
    0x1000, 0x1000, 0x1000, 0x1000, 0x1000, 0x1000, 0x1000, 0x1000, 0x1000, 0x1000, 0x1000, 0x1000, 0x1000, 0x1000, 0x1000, 0x1000]"

definition CONF_NUMBER :: "16 word" where "CONF_NUMBER = 1"
definition CONF_UPPER :: "16 word" where "CONF_UPPER = 2"
definition CONF_LOWER :: "16 word" where "CONF_LOWER = 4"
definition CONF_UNDER :: "16 word" where "CONF_UNDER = 256"
definition CONF_PUNCTUATION :: "16 word" where "CONF_PUNCTUATION = 512"
definition CONF_WS :: "16 word" where "CONF_WS = 16"
definition CONF_ESC :: "16 word" where "CONF_ESC = 32"
definition CONF_QUOTE :: "16 word" where "CONF_QUOTE = 64"
definition CONF_COMMENT :: "16 word" where "CONF_COMMENT = 128"
definition CONF_EOF :: "16 word" where "CONF_EOF = 8"

definition CONF_ALPHA_NUMERIC_PUNCT :: "16 word" where
  "CONF_ALPHA_NUMERIC_PUNCT = (CONF_UPPER OR CONF_LOWER) OR CONF_NUMBER OR CONF_UNDER OR CONF_PUNCTUATION"

definition conf_class :: "16 word \<Rightarrow> byte \<Rightarrow> bool" where
  "conf_class cls a \<longleftrightarrow> CONF_type_default ! unat (a AND 0xff) AND cls \<noteq> 0"

definition IS_COMMENT :: "byte \<Rightarrow> bool" where "IS_COMMENT a = conf_class CONF_COMMENT a"
definition IS_EOF :: "byte \<Rightarrow> bool" where "IS_EOF a = conf_class CONF_EOF a"
definition IS_ESC :: "byte \<Rightarrow> bool" where "IS_ESC a = conf_class CONF_ESC a"
definition IS_WS :: "byte \<Rightarrow> bool" where "IS_WS a = conf_class CONF_WS a"
definition IS_QUOTE :: "byte \<Rightarrow> bool" where "IS_QUOTE a = conf_class CONF_QUOTE a"
definition IS_ALPHA_NUMERIC_PUNCT :: "byte \<Rightarrow> bool" where
  "IS_ALPHA_NUMERIC_PUNCT a = conf_class CONF_ALPHA_NUMERIC_PUNCT a"

lemma upt_256: "[0..<256] = 0 # 1 # [2..<256]"
  by (simp add: upt_conv_Cons numeral_2_eq_2)

lemma class_table:
  "map (\<lambda>w. w AND CONF_EOF \<noteq> 0) CONF_type_default = map (\<lambda>n. n = 0) [0..<256]"
  "map (\<lambda>w. w AND CONF_WS \<noteq> 0) CONF_type_default = map (\<lambda>n. n \<in> {9, 10, 13, 32}) [0..<256]"
  "map (\<lambda>w. w AND CONF_ESC \<noteq> 0) CONF_type_default = map (\<lambda>n. n = 92) [0..<256]"
  "map (\<lambda>w. w AND CONF_QUOTE \<noteq> 0) CONF_type_default = map (\<lambda>n. n \<in> {34, 39, 96}) [0..<256]"
  "map (\<lambda>w. w AND CONF_COMMENT \<noteq> 0) CONF_type_default = map (\<lambda>n. n = 35) [0..<256]"
  unfolding CONF_type_default_def CONF_EOF_def CONF_WS_def CONF_ESC_def CONF_QUOTE_def CONF_COMMENT_def upt_256
  by simp_all

lemma conf_class_table:
  assumes "map (\<lambda>w. w AND cls \<noteq> 0) CONF_type_default = map P [0..<256]"
  shows "conf_class cls a \<longleftrightarrow> P (unat a)"
proof -
  have "a AND 0xff = a"
  proof -
    have "(0xff :: byte) = - 1" by simp
    then show ?thesis by (simp only: and.right_neutral)
  qed
  moreover have "unat a < length (map P [0..<256])" by simp
  ultimately show ?thesis
    unfolding conf_class_def using arg_cong [OF assms, of "\<lambda>xs. xs ! unat a"] arg_cong [OF assms, of length]
    by simp
qed

lemma classes:
  "IS_EOF a \<longleftrightarrow> unat a = 0" "IS_WS a \<longleftrightarrow> unat a \<in> {9, 10, 13, 32}" "IS_ESC a \<longleftrightarrow> unat a = 92"
  "IS_QUOTE a \<longleftrightarrow> unat a \<in> {34, 39, 96}" "IS_COMMENT a \<longleftrightarrow> unat a = 35"
  unfolding IS_EOF_def IS_WS_def IS_ESC_def IS_QUOTE_def IS_COMMENT_def
  by (rule conf_class_table, rule class_table)+

end
