(* ===== verification/Conf_Text.thy ===== *)
theory Conf_Text
  imports Conf
begin

text \<open>
  The functions of \<open>crypto/conf/conf.c\<close> that take a line of a configuration file apart. A \<open>char\<close> pointer
  is the memory from it on; a function that returns a pointer returns the rest of that memory, and one
  that writes through its pointer returns the memory after the writes.
\<close>

section \<open>Scanning\<close>

definition deref :: "bytes \<Rightarrow> byte" where
  "deref p = (case p of [] \<Rightarrow> 0 | c # _ \<Rightarrow> c)"

lemma deref_simps [simp]: "deref [] = 0" "deref (c # p) = c"
  by (simp_all add: deref_def)

lemma class_0 [simp]: "IS_EOF 0" "\<not> IS_WS 0" "\<not> IS_ESC 0" "\<not> IS_QUOTE 0" "\<not> IS_COMMENT 0" "\<not> IS_ALPHA_NUMERIC_PUNCT 0"
proof -
  show "\<not> IS_ALPHA_NUMERIC_PUNCT 0"
    by (simp add: IS_ALPHA_NUMERIC_PUNCT_def conf_class_def CONF_type_default_def CONF_ALPHA_NUMERIC_PUNCT_def
        CONF_UPPER_def CONF_LOWER_def CONF_NUMBER_def CONF_UNDER_def CONF_PUNCTUATION_def)
qed (simp_all add: classes)

fun eat_ws :: "bytes \<Rightarrow> bytes" where
  "eat_ws [] = []"
| "eat_ws (c # p) = (if IS_WS c \<and> \<not> IS_EOF c then eat_ws p else c # p)"

definition scan_esc :: "bytes \<Rightarrow> bytes" where
  "scan_esc p = (if IS_EOF (deref (tl p)) then tl p else tl (tl p))"

function eat_alpha_numeric :: "bytes \<Rightarrow> bytes" where
  "eat_alpha_numeric p =
     (if IS_ESC (deref p) then eat_alpha_numeric (scan_esc p)
      else if \<not> IS_ALPHA_NUMERIC_PUNCT (deref p) then p
      else eat_alpha_numeric (tl p))"
  by pat_completeness auto
termination
  by (relation "measure length") (auto simp: scan_esc_def neq_Nil_conv deref_def split: list.splits)

declare eat_alpha_numeric.simps [simp del]

function scan_quote_loop :: "byte \<Rightarrow> bytes \<Rightarrow> bytes" where
  "scan_quote_loop q p =
     (if \<not> IS_EOF (deref p) \<and> deref p \<noteq> q
      then
        if IS_ESC (deref p)
        then let p = tl p in if IS_EOF (deref p) then p else scan_quote_loop q (tl p)
        else scan_quote_loop q (tl p)
      else if deref p = q then tl p
      else p)"
  by pat_completeness auto
termination
  by (relation "measure (\<lambda>(_, p). length p)") (auto simp: deref_def split: list.splits)

declare scan_quote_loop.simps [simp del]

definition scan_quote :: "bytes \<Rightarrow> bytes" where
  "scan_quote p = scan_quote_loop (deref p) (tl p)"

lemma scan_quote_loop_length: "length (scan_quote_loop q p) \<le> length p"
proof (induction q p rule: scan_quote_loop.induct)
  case (1 q p)
  show ?case
    by (subst scan_quote_loop.simps) (use 1 in \<open>auto simp: Let_def intro: order_trans\<close>)
qed

text \<open>The main loop of \<open>clear_comments\<close>; the comment sign is overwritten with NUL.\<close>

function clear_loop :: "bytes \<Rightarrow> bytes" where
  "clear_loop p =
     (if IS_COMMENT (deref p) then 0 # tl p
      else if IS_QUOTE (deref p)
      then let r = scan_quote p in take (length p - length r) p @ clear_loop r
      else if IS_ESC (deref p)
      then let r = scan_esc p in take (length p - length r) p @ clear_loop r
      else if IS_EOF (deref p) then p
      else deref p # clear_loop (tl p))"
  by pat_completeness auto
termination
proof (relation "measure length", goal_cases)
  case (2 p r)
  then obtain c q where "p = c # q" by (cases p) auto
  with 2 scan_quote_loop_length [of c q] show ?case by (simp add: scan_quote_def)
next
  case (3 p r)
  then obtain c q where "p = c # q" by (cases p) auto
  with 3 show ?case by (auto simp: scan_esc_def)
next
  case (4 p)
  then show ?case by (cases p) auto
qed simp

declare clear_loop.simps [simp del]

definition clear_comments :: "bytes \<Rightarrow> bytes" where
  "clear_comments p = takeWhile IS_WS p @ clear_loop (dropWhile IS_WS p)"

section \<open>Copying a value\<close>

text \<open>Inside quotes: the pointer \<open>from\<close>, the buffer and \<open>to\<close> afterwards.\<close>

function copy_quoted :: "byte \<Rightarrow> bytes \<Rightarrow> bytes \<Rightarrow> nat \<Rightarrow> bytes \<times> bytes \<times> nat" where
  "copy_quoted q frm d to =
     (if \<not> IS_EOF (deref frm) \<and> deref frm \<noteq> q
      then
        if IS_ESC (deref frm)
        then
          let frm = tl frm
          in if IS_EOF (deref frm) then (frm, d, to)
          else copy_quoted q (tl frm) (d[to := deref frm]) (to + 1)
        else copy_quoted q (tl frm) (d[to := deref frm]) (to + 1)
      else (frm, d, to))"
  by pat_completeness auto
termination
  by (relation "measure (\<lambda>(_, frm, _). length frm)") (auto simp: deref_def split: list.splits)

declare copy_quoted.simps [simp del]

lemma copy_quoted_length: "copy_quoted q frm d to = (frm', d', to') \<Longrightarrow> length frm' \<le> length frm"
proof (induction q frm d to rule: copy_quoted.induct)
  case (1 q frm d to)
  show ?case
    using "1.prems" "1.IH"
    by (subst (asm) copy_quoted.simps) (fastforce simp: Let_def split: if_splits)
qed

definition escaped_char :: "byte \<Rightarrow> byte" where
  "escaped_char v =
     (if v = 0x72 then 0x0d else if v = 0x6e then 0x0a else if v = 0x62 then 0x08 else if v = 0x74 then 0x09 else v)"

text \<open>The loop of \<open>str_copy\<close>: the buffer and \<open>to\<close>, or \<open>None\<close> for a variable.\<close>

function str_copy_loop :: "bytes \<Rightarrow> bytes \<Rightarrow> nat \<Rightarrow> (bytes \<times> nat) option" where
  "str_copy_loop frm d to =
     (if IS_QUOTE (deref frm)
      then
        (case copy_quoted (deref frm) (tl frm) d to of (frm', d', to') \<Rightarrow>
           str_copy_loop (if deref frm' = deref frm then tl frm' else frm') d' to')
      else if IS_ESC (deref frm)
      then
        let v = deref (tl frm)
        in if IS_EOF v then Some (d, to)
        else str_copy_loop (tl (tl frm)) (d[to := escaped_char v]) (to + 1)
      else if IS_EOF (deref frm) then Some (d, to)
      else if deref frm = 0x24 then None
      else str_copy_loop (tl frm) (d[to := deref frm]) (to + 1))"
  by pat_completeness auto
termination
proof (relation "measure (\<lambda>(frm, _). length frm)", goal_cases)
  case (2 frm)
  then show ?case by (cases frm) (auto dest!: copy_quoted_length [OF sym])
next
  case (3 frm d to v)
  then show ?case by (cases frm) auto
next
  case (4 frm d to)
  then show ?case by (cases frm) auto
qed simp

declare str_copy_loop.simps [simp del]

text \<open>The new value of \<open>*pto\<close>, the whole block; \<open>None\<close> for the return value 0.\<close>

definition str_copy :: "allocator \<Rightarrow> bytes \<Rightarrow> bytes option" where
  "str_copy al frm =
     (case BUF_MEM_new al of None \<Rightarrow> None
      | Some buf \<Rightarrow>
          let len = strlen frm + 1
          in case BUF_MEM_grow al buf len of (n, buf) \<Rightarrow>
            if n = 0 then None
            else
              case buf_data buf of None \<Rightarrow> None
              | Some d \<Rightarrow>
                  (case str_copy_loop frm d 0 of None \<Rightarrow> None
                   | Some (d, to) \<Rightarrow> Some (d[to := 0])))"

section \<open>Lists\<close>

text \<open>The C library's \<open>strchr\<close>.\<close>

fun strchr :: "bytes \<Rightarrow> byte \<Rightarrow> bytes option" where
  "strchr [] c = None"
| "strchr (x # s) c = (if x = c then Some (x # s) else if x = 0 then None else strchr s c)"

definition is_space :: "byte \<Rightarrow> bool" where
  "is_space c = OPENSSL_isspace (uint c)"

text \<open>
  \<open>tmpend\<close> as an index, moved back over white space. The element starts with another character, so that
  the loop stops at index 0 at the latest.
\<close>

fun trim_end :: "bytes \<Rightarrow> nat \<Rightarrow> nat" where
  "trim_end s 0 = 0"
| "trim_end s (Suc i) = (if is_space (s ! Suc i) then trim_end s i else Suc i)"

lemma strchr_length: "strchr s c = Some p \<Longrightarrow> p \<noteq> [] \<and> length p \<le> length s"
  by (induction s) (auto split: if_splits)

text \<open>The callback gets the element, or \<open>None\<close> for \<open>NULL\<close>, and its length.\<close>

function parse_list_loop ::
    "(bytes option \<Rightarrow> nat \<Rightarrow> 's \<Rightarrow> int \<times> 's) \<Rightarrow> bool \<Rightarrow> byte \<Rightarrow> bytes \<Rightarrow> 's \<Rightarrow> int \<times> 's" where
  "parse_list_loop list_cb remove_whitespace sep lstart s =
     (let lstart = (if remove_whitespace then dropWhile (\<lambda>c. c \<noteq> 0 \<and> is_space c) lstart else lstart);
          p = strchr lstart sep;
          (ret, s) =
            (if p = Some lstart \<or> deref lstart = 0 then list_cb None 0 s
             else
               let tmpend = (case p of Some p \<Rightarrow> length lstart - length p - 1 | None \<Rightarrow> strlen lstart - 1);
                   tmpend = (if remove_whitespace then trim_end lstart tmpend else tmpend)
               in list_cb (Some lstart) (tmpend + 1) s)
      in if ret \<le> 0 then (ret, s)
      else case p of None \<Rightarrow> (1, s)
      | Some p \<Rightarrow> parse_list_loop list_cb remove_whitespace sep (tl p) s)"
  by pat_completeness auto
termination
proof (relation "measure (\<lambda>(_, _, _, lstart, _). length lstart)", goal_cases)
  case (2 list_cb ws sep lstart s l p x ret s' q)
  then have "q \<noteq> []" "length q \<le> length l"
    using strchr_length [of l sep q] by auto
  moreover have "length l \<le> length lstart"
    using 2 by (auto intro: length_dropWhile_le)
  ultimately show ?case by (cases q) auto
qed simp

declare parse_list_loop.simps [simp del]

definition CONF_parse_list ::
    "bytes option \<Rightarrow> byte \<Rightarrow> bool \<Rightarrow> (bytes option \<Rightarrow> nat \<Rightarrow> 's \<Rightarrow> int \<times> 's) \<Rightarrow> 's \<Rightarrow> int \<times> 's" where
  "CONF_parse_list ls sep remove_whitespace list_cb s =
     (case ls of None \<Rightarrow> (0, s) | Some lstart \<Rightarrow> parse_list_loop list_cb remove_whitespace sep lstart s)"

section \<open>What a copy writes\<close>

text \<open>A block with the bytes \<open>t\<close> written at \<open>to\<close>.\<close>

definition put :: "bytes \<Rightarrow> nat \<Rightarrow> bytes \<Rightarrow> bytes" where
  "put d to t = take to d @ t @ drop (to + length t) d"

lemma put_Nil [simp]: "put d to [] = d"
  by (simp add: put_def)

lemma put_Cons: "to < length d \<Longrightarrow> put (d[to := c]) (to + 1) t = put d to (c # t)"
  by (simp add: put_def take_Suc_conv_app_nth)

lemma put_put: "to + length t \<le> length d \<Longrightarrow> put (put d to t) (to + length t) u = put d to (t @ u)"
  by (simp add: put_def ac_simps)

lemma length_put: "to + length t \<le> length d \<Longrightarrow> length (put d to t) = length d"
  by (simp add: put_def)

lemma strlen_deref: "deref frm \<noteq> 0 \<Longrightarrow> strlen frm = Suc (strlen (tl frm))"
  by (cases frm) simp_all

lemma not_eof: "\<not> IS_EOF c \<longleftrightarrow> c \<noteq> 0"
  by (simp add: classes word_unat_eq_iff)

lemma esc_nonzero: "IS_ESC c \<Longrightarrow> c \<noteq> 0" "IS_QUOTE c \<Longrightarrow> c \<noteq> 0"
  by (auto simp: classes)

text \<open>Both loops write a string that is no longer than what they have read.\<close>

definition writes :: "bytes \<Rightarrow> bytes \<Rightarrow> nat \<Rightarrow> bytes \<Rightarrow> bytes \<Rightarrow> nat \<Rightarrow> bool" where
  "writes frm d to frm' d' to' \<longleftrightarrow>
     (\<exists>t. d' = put d to t \<and> to' = to + length t \<and> 0 \<notin> set t \<and> length t + strlen frm' \<le> strlen frm)"

lemma writes_refl: "strlen frm' \<le> strlen frm \<Longrightarrow> writes frm d to frm' d to"
  unfolding writes_def by (intro exI [of _ "[]"]) simp

lemma writes_char:
  assumes "writes frm1 (d[to := c]) (to + 1) frm' d' to'" "c \<noteq> 0" "to < length d" "Suc (strlen frm1) \<le> strlen frm"
  shows "writes frm d to frm' d' to'"
proof -
  from assms(1) obtain t where "d' = put (d[to := c]) (to + 1) t" "to' = to + 1 + length t" "0 \<notin> set t"
    "length t + strlen frm' \<le> strlen frm1"
    unfolding writes_def by blast
  with assms(2-4) show ?thesis
    unfolding writes_def by (intro exI [of _ "c # t"]) (simp add: put_Cons [unfolded Suc_eq_plus1 [symmetric]])
qed

lemma writes_trans:
  assumes "writes frm d to frm1 d1 to1" "writes frm1 d1 to1 frm2 d2 to2" "to + strlen frm \<le> length d"
  shows "writes frm d to frm2 d2 to2"
proof -
  from assms(1) obtain t where t: "d1 = put d to t" "to1 = to + length t" "0 \<notin> set t" "length t + strlen frm1 \<le> strlen frm"
    unfolding writes_def by blast
  from assms(2) obtain u where u: "d2 = put d1 to1 u" "to2 = to1 + length u" "0 \<notin> set u" "length u + strlen frm2 \<le> strlen frm1"
    unfolding writes_def by blast
  have "d2 = put d to (t @ u)"
    using put_put [of to t d u] t assms(3) u(1) by simp
  with t u show ?thesis
    unfolding writes_def by (intro exI [of _ "t @ u"]) simp
qed

lemma strlen_tl: "strlen (tl frm) \<le> strlen frm" if "deref frm \<noteq> 0" for frm
  using strlen_deref [OF that] by simp

lemma copy_quoted_writes:
  assumes "to + strlen frm \<le> length d" "q \<noteq> 0"
  shows "case copy_quoted q frm d to of (frm', d', to') \<Rightarrow> writes frm d to frm' d' to'"
  using assms(1)
proof (induction q frm d to rule: copy_quoted.induct)
  case (1 q frm d to)
  show ?case
  proof (cases "\<not> IS_EOF (deref frm) \<and> deref frm \<noteq> q")
    case False
    then have "copy_quoted q frm d to = (frm, d, to)"
      by (subst copy_quoted.simps) auto
    then show ?thesis by (simp add: writes_refl)
  next
    case True
    then have s: "strlen frm = Suc (strlen (tl frm))"
      by (simp add: not_eof strlen_deref)
    show ?thesis
    proof (cases "IS_ESC (deref frm)")
      case plain: False
      have "case copy_quoted q (tl frm) (d[to := deref frm]) (to + 1) of (frm', d', to') \<Rightarrow>
          writes (tl frm) (d[to := deref frm]) (to + 1) frm' d' to'"
        using "1.IH"(2) [OF True plain] "1.prems" s by simp
      with True plain s "1.prems" show ?thesis
        by (subst copy_quoted.simps) (auto simp: not_eof split: prod.splits intro: writes_char)
    next
      case esc: True
      show ?thesis
      proof (cases "IS_EOF (deref (tl frm))")
        case stop: True
        with True esc s show ?thesis
          by (subst copy_quoted.simps) (simp add: writes_refl)
      next
        case go: False
        then have s': "strlen (tl frm) = Suc (strlen (tl (tl frm)))"
          by (simp add: not_eof strlen_deref)
        have "case copy_quoted q (tl (tl frm)) (d[to := deref (tl frm)]) (to + 1) of (frm', d', to') \<Rightarrow>
            writes (tl (tl frm)) (d[to := deref (tl frm)]) (to + 1) frm' d' to'"
          using "1.IH"(1) [OF True esc refl go] "1.prems" s s' by simp
        moreover have "copy_quoted q frm d to = copy_quoted q (tl (tl frm)) (d[to := deref (tl frm)]) (to + 1)"
          using True esc go by (subst copy_quoted.simps) (simp add: Let_def)
        ultimately show ?thesis
          using go s s' "1.prems" by (auto simp: not_eof split: prod.splits intro: writes_char)
      qed
    qed
  qed
qed

lemma escaped_char_nonzero: "v \<noteq> 0 \<Longrightarrow> escaped_char v \<noteq> 0"
  by (simp add: escaped_char_def)

lemma str_copy_loop_writes:
  assumes "to + strlen frm \<le> length d" "str_copy_loop frm d to = Some (d', to')"
  shows "writes frm d to [] d' to'"
  using assms
proof (induction frm d to rule: str_copy_loop.induct)
  case (1 frm d to)
  note run = "1.prems"(2) [unfolded str_copy_loop.simps [of frm d to]]
  consider "IS_QUOTE (deref frm)" | "\<not> IS_QUOTE (deref frm)" "IS_ESC (deref frm)"
    | "\<not> IS_QUOTE (deref frm)" "\<not> IS_ESC (deref frm)" by blast
  then show ?case
  proof cases
    case 1
    then have s: "strlen frm = Suc (strlen (tl frm))"
      by (simp add: esc_nonzero strlen_deref)
    obtain f1 d1 to1 where q: "copy_quoted (deref frm) (tl frm) d to = (f1, d1, to1)" by (rule prod_cases3)
    let ?f = "if deref f1 = deref frm then tl f1 else f1"
    have w: "writes (tl frm) d to f1 d1 to1"
      using copy_quoted_writes [of to "tl frm" d "deref frm"] "1.prems"(1) s q 1 by (simp add: esc_nonzero)
    have f: "strlen ?f \<le> strlen f1"
      using 1 strlen_tl [of f1] by (auto simp: esc_nonzero)
    have w': "writes frm d to ?f d1 to1"
      using w s f unfolding writes_def by fastforce
    then have "to1 + strlen ?f \<le> length d1"
      using "1.prems"(1) unfolding writes_def by (auto simp: length_put)
    with 1 q run have "writes ?f d1 to1 [] d' to'"
      by (intro "1.IH"(1) [OF 1 q [symmetric] refl]) simp_all
    from writes_trans [OF w' this "1.prems"(1)] show ?thesis .
  next
    case 2
    then have s: "strlen frm = Suc (strlen (tl frm))"
      by (simp add: esc_nonzero strlen_deref)
    show ?thesis
    proof (cases "IS_EOF (deref (tl frm))")
      case True
      with 2 run show ?thesis by (auto simp: strlen_def cstr_def intro: writes_refl)
    next
      case False
      then have s': "strlen (tl frm) = Suc (strlen (tl (tl frm)))"
        by (simp add: not_eof strlen_deref)
      have "writes (tl (tl frm)) (d[to := escaped_char (deref (tl frm))]) (to + 1) [] d' to'"
      proof (rule "1.IH"(2) [OF 2 refl False])
        show "to + 1 + strlen (tl (tl frm)) \<le> length (d[to := escaped_char (deref (tl frm))])"
          using "1.prems"(1) s s' by simp
        show "str_copy_loop (tl (tl frm)) (d[to := escaped_char (deref (tl frm))]) (to + 1) = Some (d', to')"
          using run 2 False by (simp add: Let_def)
      qed
      then show ?thesis
        by (rule writes_char) (use False "1.prems"(1) s s' in \<open>simp_all add: not_eof escaped_char_nonzero\<close>)
    qed
  next
    case 3
    show ?thesis
    proof (cases "IS_EOF (deref frm)")
      case True
      with 3 run show ?thesis by (auto simp: strlen_def cstr_def intro: writes_refl)
    next
      case False
      then have s: "strlen frm = Suc (strlen (tl frm))"
        by (simp add: not_eof strlen_deref)
      from 3 False run have v: "deref frm \<noteq> 0x24" by auto
      have "writes (tl frm) (d[to := deref frm]) (to + 1) [] d' to'"
      proof (rule "1.IH"(3) [OF 3 False v])
        show "to + 1 + strlen (tl frm) \<le> length (d[to := deref frm])"
          using "1.prems"(1) s by simp
        show "str_copy_loop (tl frm) (d[to := deref frm]) (to + 1) = Some (d', to')"
          using run 3 False v by simp
      qed
      then show ?thesis
        by (rule writes_char) (use False "1.prems"(1) s in \<open>simp_all add: not_eof\<close>)
    qed
  qed
qed

section \<open>Quoting\<close>

text \<open>A way to write any value: a backslash before what the reader gives a meaning.\<close>

definition escape :: "byte \<Rightarrow> bytes" where
  "escape c = (if IS_QUOTE c \<or> IS_ESC c \<or> c = 0x24 then [0x5c, c] else [c])"

definition escape_all :: "bytes \<Rightarrow> bytes" where
  "escape_all t = concat (map escape t) @ [0]"

lemma backslash: "IS_ESC 0x5c" "\<not> IS_QUOTE 0x5c"
  by (simp_all add: classes)

lemma escaped_special: "IS_QUOTE c \<or> IS_ESC c \<or> c = 0x24 \<Longrightarrow> escaped_char c = c"
  by (auto simp: escaped_char_def classes)

lemma str_copy_loop_escape:
  assumes "0 \<notin> set t" "to + length t \<le> length d"
  shows "str_copy_loop (concat (map escape t) @ [0]) d to = Some (put d to t, to + length t)"
  using assms
proof (induction t arbitrary: d to)
  case Nil
  then show ?case by (subst str_copy_loop.simps) simp
next
  case (Cons c t)
  have c: "\<not> IS_EOF c" "to < length d"
    using Cons.prems by (auto simp: not_eof)
  have rest: "str_copy_loop (concat (map escape t) @ [0]) (d[to := c]) (to + 1) = Some (put (d[to := c]) (to + 1) t, to + 1 + length t)"
    using Cons.prems by (intro Cons.IH) simp_all
  have "str_copy_loop (concat (map escape (c # t)) @ [0]) d to = str_copy_loop (concat (map escape t) @ [0]) (d[to := c]) (to + 1)"
  proof (cases "IS_QUOTE c \<or> IS_ESC c \<or> c = 0x24")
    case True
    with c(1) show ?thesis
      by (subst str_copy_loop.simps) (simp add: escape_def backslash escaped_special)
  next
    case False
    with c(1) show ?thesis
      by (subst str_copy_loop.simps) (simp add: escape_def)
  qed
  with rest put_Cons [OF c(2), of c t] show ?case by simp
qed

lemma escape_nonzero: "0 \<notin> set t \<Longrightarrow> strlen (escape_all t) = length (concat (map escape t))"
  by (induction t) (auto simp: escape_all_def escape_def strlen_def cstr_def)

lemma length_escape: "length t \<le> length (concat (map escape t))"
  by (induction t) (auto simp: escape_def)

text \<open>With memory to spare, \<open>BUF_MEM_grow\<close> on a new buffer gives a block that is long enough.\<close>

lemma new_buffer_ok: "BUF_MEM_new al = Some buf \<Longrightarrow> buf_mem_ok buf"
  by (auto simp: BUF_MEM_new_def buf_mem_ok_def SIZE_MOD_def split: option.splits)

lemma grown_block:
  assumes "BUF_MEM_new al = Some buf" "BUF_MEM_grow al buf len = (n, buf')" "n \<noteq> 0" "len < SIZE_MOD" "buf_data buf' = Some d"
  shows "len \<le> length d"
proof -
  from BUF_MEM_grow_ok [OF new_buffer_ok [OF assms(1)] assms(2-4)] have "buf_mem_ok buf'"
    "length (buf_contents buf') = len"
    using length_buf_contents [OF new_buffer_ok [OF assms(1)]] by auto
  with assms(5) show ?thesis
    by (simp add: buf_mem_ok_def buf_contents_def)
qed

lemma ample_grow:
  assumes "\<forall>n. malloc_ok al n" "0 < len" "len < 2 ^ 60"
  shows "\<exists>buf buf' d. BUF_MEM_new al = Some buf \<and> BUF_MEM_grow al buf len = (len, buf') \<and> buf_data buf' = Some d"
proof -
  have "size_add len 3 = len + 3" "\<not> len + 3 < len"
    using assms(3) by (simp_all add: size_add_def SIZE_MOD_def)
  moreover have "size_mul ((len + 3) div 3) 4 = (len + 3) div 3 * 4"
    using assms(3) by (simp add: size_mul_def SIZE_MOD_def)
  moreover have "size_add ((len + 3) div 3 * 4) 8 = (len + 3) div 3 * 4 + 8"
    using assms(3) by (simp add: size_add_def SIZE_MOD_def)
  moreover have "size_add 24 8 = 32"
    by (simp add: size_add_def SIZE_MOD_def)
  ultimately show ?thesis
    using assms(1,2)
    by (simp add: BUF_MEM_new_def OPENSSL_zalloc_def OPENSSL_malloc_def buf_struct_size_def OPENSSL_MALLOC_PREFIX_def BUF_MEM_grow_def BUF_MEM_reserve_def
        OPENSSL_realloc_def buf_put_def Let_def)
qed

section \<open>Properties\<close>


text \<open>
  Any value without NUL can be written in a configuration file, with backslashes, and is read back as
  it was.
\<close>

theorem str_copy_unescapes:
  assumes "0 \<notin> set t" "length (escape_all t) < 2 ^ 60" "\<forall>n. malloc_ok al n"
  shows "\<exists>d. str_copy al (escape_all t) = Some d \<and> cstr d = t"
proof -
  let ?len = "strlen (escape_all t) + 1"
  have len: "?len = length (escape_all t)"
    using escape_nonzero [OF assms(1)] by (simp add: escape_all_def)
  have "?len < 2 ^ 60" unfolding len by (rule assms(2))
  then have "\<exists>buf buf' d. BUF_MEM_new al = Some buf \<and> BUF_MEM_grow al buf ?len = (?len, buf') \<and> buf_data buf' = Some d"
    by (intro ample_grow [OF assms(3)]) simp_all
  then obtain buf buf' e where b: "BUF_MEM_new al = Some buf" "BUF_MEM_grow al buf ?len = (?len, buf')" "buf_data buf' = Some e"
    by (elim exE conjE)
  have "?len < SIZE_MOD" using assms(2) len by (simp add: SIZE_MOD_def)
  with grown_block [OF b(1,2) _ _ b(3)] have "?len \<le> length e" by simp
  then have room: "length t < length e"
    using len length_escape [of t] by (simp add: escape_all_def)
  then have "str_copy_loop (escape_all t) e 0 = Some (put e 0 t, length t)"
    unfolding escape_all_def using str_copy_loop_escape [OF assms(1), of 0 e] by simp
  with b have "str_copy al (escape_all t) = Some ((put e 0 t)[length t := 0])"
    by (simp add: str_copy_def Let_def)
  moreover have "(put e 0 t)[length t := 0] = t @ 0 # drop (length t + 1) e"
    using room by (simp add: put_def list_update_append upd_conv_take_nth_drop)
  moreover have "cstr (t @ 0 # drop (length t + 1) e) = t"
    unfolding cstr_def using assms(1) by (subst takeWhile_append2) auto
  ultimately show ?thesis by simp
qed

definition plenty :: allocator where
  "plenty = \<lparr>malloc_ok = (\<lambda>_. True), junk = (\<lambda>_. 0xff)\<rparr>"

theorem str_copy_unescapes_witness: "\<exists>d. str_copy plenty [0x61, 0x5c, 0x24, 0x62, 0] = Some d \<and> cstr d = [0x61, 0x24, 0x62]"
  using str_copy_unescapes [of "[0x61, 0x24, 0x62]" plenty]
  by (simp add: escape_all_def escape_def classes plenty_def)


section \<open>Lists as their elements\<close>

text \<open>The text up to the first separator, and the pieces between separators.\<close>

definition element_text :: "byte \<Rightarrow> bytes \<Rightarrow> bytes" where
  "element_text sep l = takeWhile (\<lambda>c. c \<noteq> 0 \<and> c \<noteq> sep) l"

fun split_at :: "byte \<Rightarrow> bytes \<Rightarrow> bytes list" where
  "split_at sep [] = [[]]"
| "split_at sep (c # t) = (if c = sep then [] # split_at sep t else (c # hd (split_at sep t)) # tl (split_at sep t))"

definition trim :: "bytes \<Rightarrow> bytes" where
  "trim e = rev (dropWhile is_space (rev (dropWhile is_space e)))"

definition collect_element :: "bytes option \<Rightarrow> nat \<Rightarrow> bytes option list \<Rightarrow> int \<times> bytes option list" where
  "collect_element e n acc = (1, acc @ [map_option (take n) e])"

definition present :: "bytes \<Rightarrow> bytes option" where
  "present e = (if e = [] then None else Some e)"

lemma split_at_nonempty: "split_at sep t \<noteq> []"
  by (induction t) simp_all

lemma split_at_strchr:
  assumes "sep \<noteq> 0"
  shows "split_at sep (cstr l) =
    (case strchr l sep of None \<Rightarrow> [element_text sep l] | Some p \<Rightarrow> element_text sep l # split_at sep (cstr (tl p)))"
  by (induction l) (auto simp: cstr_def element_text_def assms split: option.splits)

lemma strchr_Some: "strchr l sep = Some p \<Longrightarrow> sep \<noteq> 0 \<Longrightarrow> l = element_text sep l @ p \<and> deref p = sep"
  by (induction l) (auto simp: element_text_def split: if_splits)

lemma strchr_None: "strchr l sep = None \<Longrightarrow> cstr l = element_text sep l"
  by (induction l) (auto simp: element_text_def cstr_def split: if_splits)

lemma skip_space:
  assumes "sep \<noteq> 0" "\<not> is_space sep"
  shows "strchr (dropWhile (\<lambda>c. c \<noteq> 0 \<and> is_space c) l) sep = strchr l sep"
    and "element_text sep (dropWhile (\<lambda>c. c \<noteq> 0 \<and> is_space c) l) = dropWhile is_space (element_text sep l)"
  using assms by (induction l) (auto simp: element_text_def)

lemma trim_end_take:
  assumes "i < length l" "\<not> is_space (l ! 0)"
  shows "take (trim_end l i + 1) l = rev (dropWhile is_space (rev (take (i + 1) l)))"
  using assms
proof (induction i)
  case 0
  then show ?case by (cases l) simp_all
next
  case (Suc i)
  have "take (Suc i + 1) l = take (i + 1) l @ [l ! Suc i]"
    using Suc.prems(1) by (simp add: take_Suc_conv_app_nth)
  with Suc show ?case by simp
qed

lemma trim_empty: "trim e = [] \<longleftrightarrow> dropWhile is_space e = []"
proof -
  have "\<not> is_space (hd (dropWhile is_space e))" if "dropWhile is_space e \<noteq> []"
    using that by (rule hd_dropWhile)
  then show ?thesis
    unfolding trim_def rev_is_Nil_conv dropWhile_eq_Nil_conv [of _ "rev _"] set_rev
    by (metis hd_in_set empty_iff list.set(1))
qed

text \<open>One round of the loop.\<close>

lemma parse_list_round:
  assumes "sep \<noteq> 0" "ws \<Longrightarrow> \<not> is_space sep"
  defines "l' \<equiv> \<lambda>l. if ws then dropWhile (\<lambda>c. c \<noteq> 0 \<and> is_space c) l else l"
  shows "parse_list_loop collect_element ws sep l acc =
    (let acc = acc @ [present (if ws then trim (element_text sep l) else element_text sep l)]
     in case strchr l sep of None \<Rightarrow> (1, acc) | Some p \<Rightarrow> parse_list_loop collect_element ws sep (tl p) acc)"
proof -
  define e where "e = element_text sep (l' l)"
  have p: "strchr (l' l) sep = strchr l sep"
    using skip_space(1) assms(1,2) by (simp add: l'_def)
  have e': "e = (if ws then dropWhile is_space (element_text sep l) else element_text sep l)"
    using skip_space(2) assms(1,2) by (simp add: e_def l'_def)
  have empty: "(strchr l sep = Some (l' l) \<or> deref (l' l) = 0) \<longleftrightarrow> e = []"
  proof (cases "l' l")
    case Nil
    then show ?thesis by (simp add: e_def element_text_def)
  next
    case (Cons c t)
    have "strchr t sep \<noteq> Some (c # t)"
      using strchr_length [of t sep "c # t"] by auto
    with Cons assms(1) show ?thesis
      unfolding p [symmetric] e_def by (auto simp: element_text_def)
  qed
  have len: "(case strchr l sep of Some q \<Rightarrow> length (l' l) - length q - 1 | None \<Rightarrow> strlen (l' l) - 1) = length e - 1"
  proof (cases "strchr l sep")
    case None
    with strchr_None [of "l' l" sep] p show ?thesis by (simp add: strlen_def e_def)
  next
    case (Some q)
    with strchr_Some [of "l' l" sep q] p assms(1) have "l' l = e @ q" by (simp add: e_def)
    with Some show ?thesis by (simp only: option.case length_append diff_add_inverse2)
  qed
  have take_e: "take (length e) (l' l) = e"
    unfolding e_def element_text_def by (rule takeWhile_eq_take [symmetric])
  have item: "take ((if ws then trim_end (l' l) (length e - 1) else length e - 1) + 1) (l' l) =
      (if ws then trim (element_text sep l) else element_text sep l)" if "e \<noteq> []"
  proof (cases ws)
    case False
    with that take_e e' show ?thesis by (cases e) simp_all
  next
    case True
    have n: "length e - 1 < length (l' l)" "length e - 1 + 1 = length e"
      using that arg_cong [OF take_e, of length] by (cases e; simp)+
    have "hd e = l' l ! 0"
      using that take_e by (metis hd_conv_nth length_greater_0_conv nth_take)
    moreover have "\<not> is_space (hd e)"
      using that True e' hd_dropWhile [of is_space "element_text sep l"] by simp
    ultimately have "take (trim_end (l' l) (length e - 1) + 1) (l' l) = rev (dropWhile is_space (rev e))"
      using trim_end_take [OF n(1)] unfolding n(2) take_e by simp
    with True e' show ?thesis by (simp add: trim_def)
  qed
  have "e = [] \<longleftrightarrow> (if ws then trim (element_text sep l) else element_text sep l) = []"
    using e' trim_empty [of "element_text sep l"] by simp
  with item have present: "present (if ws then trim (element_text sep l) else element_text sep l) =
      (if e = [] then None else Some (take ((if ws then trim_end (l' l) (length e - 1) else length e - 1) + 1) (l' l)))"
    by (simp add: present_def)
  have round: "parse_list_loop collect_element ws sep l acc =
      (case (if strchr l sep = Some (l' l) \<or> deref (l' l) = 0 then collect_element None 0 acc
        else collect_element (Some (l' l)) ((if ws then trim_end (l' l) (length e - 1) else length e - 1) + 1) acc) of
        (ret, acc) \<Rightarrow>
          if ret \<le> 0 then (ret, acc)
          else case strchr l sep of None \<Rightarrow> (1, acc) | Some p \<Rightarrow> parse_list_loop collect_element ws sep (tl p) acc)"
    unfolding len [symmetric] p [symmetric]
    unfolding l'_def Let_def
    by (rule parse_list_loop.simps [unfolded Let_def])
  show ?thesis
    unfolding present round empty Let_def collect_element_def
    by (cases "e = []") (simp_all split: option.split)
qed

lemma parse_list_elements:
  assumes "sep \<noteq> 0" "ws \<Longrightarrow> \<not> is_space sep"
  shows "parse_list_loop collect_element ws sep l acc =
    (1, acc @ map (\<lambda>e. present (if ws then trim e else e)) (split_at sep (cstr l)))"
proof (induction "length l" arbitrary: l acc rule: less_induct)
  case less
  show ?case
  proof (cases "strchr l sep")
    case None
    then show ?thesis
      using parse_list_round [OF assms, where l = l and acc = acc] split_at_strchr [OF assms(1), of l] by simp
  next
    case (Some p)
    with strchr_length [of l sep p] have "length (tl p) < length l"
      by (cases p) auto
    from less [OF this] Some show ?thesis
      using parse_list_round [OF assms, where l = l and acc = acc] split_at_strchr [OF assms(1), of l] by simp
  qed
qed



end
