(* ===== verification/Bio.thy ===== *)
theory Bio
  imports Buf
begin

text \<open>
  \<open>crypto/bio/bio.c\<close>: the common layer of the input and output objects. A \<open>BIO\<close> is a record whose
  \<open>bio_ptr\<close> is the object of its method; a method may also touch other objects, which are the second
  component of the state it is given. The functions of a method are parameters, \<open>None\<close> where the
  \<open>BIO\<close>, its method or the method's function is \<open>NULL\<close>.

  A read says what it returns and which bytes it stores from the start of the caller's buffer on;
  of the buffer it only learns whether it is not \<open>NULL\<close>. An outer \<open>None\<close> is a call that does not return.
\<close>

definition INT_MAX :: int where "INT_MAX = 2147483647"

record 'p bio =
  bio_init :: bool
  bio_shutdown :: int
  bio_flags :: u32
  retry_reason :: int
  bio_num :: int
  bio_ptr :: 'p
  num_read :: nat
  num_write :: nat

type_synonym ('p, 'e) bio_reader = "'p bio \<times> 'e \<Rightarrow> bool \<Rightarrow> int \<Rightarrow> ((int \<times> bytes) \<times> 'p bio \<times> 'e) option"
type_synonym ('p, 'e) bio_writer = "'p bio \<times> 'e \<Rightarrow> bytes option \<Rightarrow> int \<Rightarrow> (int \<times> 'p bio \<times> 'e) option"

definition bio_struct_size :: nat where "bio_struct_size = 72"

section \<open>Flags\<close>

definition BIO_FLAGS_READ :: u32 where "BIO_FLAGS_READ = 0x01"
definition BIO_FLAGS_WRITE :: u32 where "BIO_FLAGS_WRITE = 0x02"
definition BIO_FLAGS_IO_SPECIAL :: u32 where "BIO_FLAGS_IO_SPECIAL = 0x04"
definition BIO_FLAGS_RWS :: u32 where "BIO_FLAGS_RWS = BIO_FLAGS_READ OR BIO_FLAGS_WRITE OR BIO_FLAGS_IO_SPECIAL"
definition BIO_FLAGS_SHOULD_RETRY :: u32 where "BIO_FLAGS_SHOULD_RETRY = 0x08"
definition BIO_FLAGS_MEM_RDONLY :: u32 where "BIO_FLAGS_MEM_RDONLY = 0x200"

definition kRetryFlags :: u32 where "kRetryFlags = BIO_FLAGS_RWS OR BIO_FLAGS_SHOULD_RETRY"

definition BIO_set_flags :: "'p bio \<Rightarrow> u32 \<Rightarrow> 'p bio" where
  "BIO_set_flags bio flags = bio\<lparr>bio_flags := bio_flags bio OR flags\<rparr>"

definition BIO_test_flags :: "'p bio \<Rightarrow> u32 \<Rightarrow> u32" where
  "BIO_test_flags bio flags = bio_flags bio AND flags"

definition BIO_should_read :: "'p bio \<Rightarrow> u32" where
  "BIO_should_read bio = BIO_test_flags bio BIO_FLAGS_READ"

definition BIO_should_write :: "'p bio \<Rightarrow> u32" where
  "BIO_should_write bio = BIO_test_flags bio BIO_FLAGS_WRITE"

definition BIO_should_retry :: "'p bio \<Rightarrow> u32" where
  "BIO_should_retry bio = BIO_test_flags bio BIO_FLAGS_SHOULD_RETRY"

definition BIO_clear_flags :: "'p bio \<Rightarrow> u32 \<Rightarrow> 'p bio" where
  "BIO_clear_flags bio flags = bio\<lparr>bio_flags := bio_flags bio AND NOT flags\<rparr>"

definition BIO_set_retry_read :: "'p bio \<Rightarrow> 'p bio" where
  "BIO_set_retry_read bio = bio\<lparr>bio_flags := bio_flags bio OR (BIO_FLAGS_READ OR BIO_FLAGS_SHOULD_RETRY)\<rparr>"

definition BIO_set_retry_write :: "'p bio \<Rightarrow> 'p bio" where
  "BIO_set_retry_write bio = bio\<lparr>bio_flags := bio_flags bio OR (BIO_FLAGS_WRITE OR BIO_FLAGS_SHOULD_RETRY)\<rparr>"

definition BIO_get_retry_flags :: "'p bio \<Rightarrow> u32" where
  "BIO_get_retry_flags bio = bio_flags bio AND kRetryFlags"

definition BIO_clear_retry_flags :: "'p bio \<Rightarrow> 'p bio" where
  "BIO_clear_retry_flags bio = bio\<lparr>bio_flags := bio_flags bio AND NOT kRetryFlags, retry_reason := 0\<rparr>"

section \<open>Calls of a method\<close>

text \<open>\<open>BIO_new\<close> up to the call of the method's \<open>create\<close>.\<close>

definition BIO_new :: "allocator \<Rightarrow> 'p \<Rightarrow> ('p bio \<Rightarrow> 'p bio option) \<Rightarrow> 'p bio option" where
  "BIO_new al null create =
     (case OPENSSL_zalloc al bio_struct_size of None \<Rightarrow> None
      | Some _ \<Rightarrow> create \<lparr>bio_init = False, bio_shutdown = 1, bio_flags = 0, retry_reason = 0, bio_num = 0,
          bio_ptr = null, num_read = 0, num_write = 0\<rparr>)"

definition BIO_read ::
    "('p, 'e) bio_reader option \<Rightarrow> 'p bio \<times> 'e \<Rightarrow> bool \<Rightarrow> int \<Rightarrow> ((int \<times> bytes) \<times> 'p bio \<times> 'e) option" where
  "BIO_read bread st buf len =
     (case bread of None \<Rightarrow> Some ((- 2, []), st)
      | Some bread \<Rightarrow>
          if \<not> bio_init (fst st) then Some ((- 2, []), st)
          else if len \<le> 0 then Some ((0, []), st)
          else Option.bind (bread st buf len) (\<lambda>((ret, d), bio, e).
            Some ((ret, d), (if ret > 0 then bio\<lparr>num_read := size_add (num_read bio) (nat ret)\<rparr> else bio), e)))"

definition BIO_gets ::
    "('p, 'e) bio_reader option \<Rightarrow> 'p bio \<times> 'e \<Rightarrow> bool \<Rightarrow> int \<Rightarrow> ((int \<times> bytes) \<times> 'p bio \<times> 'e) option" where
  "BIO_gets bgets st buf len =
     (case bgets of None \<Rightarrow> Some ((- 2, []), st)
      | Some bgets \<Rightarrow>
          if \<not> bio_init (fst st) then Some ((- 2, []), st)
          else if len \<le> 0 then Some ((0, []), st)
          else Option.bind (bgets st buf len) (\<lambda>((ret, d), bio, e).
            Some ((ret, d), (if ret > 0 then bio\<lparr>num_read := size_add (num_read bio) (nat ret)\<rparr> else bio), e)))"

definition BIO_write ::
    "('p, 'e) bio_writer option \<Rightarrow> 'p bio \<times> 'e \<Rightarrow> bytes option \<Rightarrow> int \<Rightarrow> (int \<times> 'p bio \<times> 'e) option" where
  "BIO_write bwrite st inp inl =
     (case bwrite of None \<Rightarrow> Some (- 2, st)
      | Some bwrite \<Rightarrow>
          if \<not> bio_init (fst st) then Some (- 2, st)
          else if inl \<le> 0 then Some (0, st)
          else Option.bind (bwrite st inp inl) (\<lambda>(ret, bio, e).
            Some (ret, (if ret > 0 then bio\<lparr>num_write := size_add (num_write bio) (nat ret)\<rparr> else bio), e)))"

partial_function (option) BIO_write_all ::
    "('p, 'e) bio_writer option \<Rightarrow> 'p bio \<times> 'e \<Rightarrow> bytes \<Rightarrow> nat \<Rightarrow> (bool \<times> 'p bio \<times> 'e) option" where
  "BIO_write_all bwrite st d len =
     (if len = 0 then Some (True, st)
      else Option.bind (BIO_write bwrite st (Some d) (if int len > INT_MAX then INT_MAX else int len)) (\<lambda>(ret, st).
        if ret \<le> 0 then Some (False, st)
        else BIO_write_all bwrite st (drop (nat ret) d) (size_sub len (nat ret))))"

definition BIO_puts :: "('p, 'e) bio_writer option \<Rightarrow> 'p bio \<times> 'e \<Rightarrow> bytes \<Rightarrow> (int \<times> 'p bio \<times> 'e) option" where
  "BIO_puts bwrite st inp =
     (if int (strlen inp) > INT_MAX then Some (- 1, st)
      else BIO_write bwrite st (Some inp) (int (strlen inp)))"

text \<open>The loop of \<open>BIO_indent\<close>, and the function.\<close>

fun indent_loop :: "('p, 'e) bio_writer option \<Rightarrow> 'p bio \<times> 'e \<Rightarrow> nat \<Rightarrow> (bool \<times> 'p bio \<times> 'e) option" where
  "indent_loop bwrite st 0 = Some (True, st)"
| "indent_loop bwrite st (Suc indent) =
     Option.bind (BIO_puts bwrite st [0x20, 0]) (\<lambda>(ret, st).
       if ret \<noteq> 1 then Some (False, st) else indent_loop bwrite st indent)"

definition BIO_indent ::
    "('p, 'e) bio_writer option \<Rightarrow> 'p bio \<times> 'e \<Rightarrow> nat \<Rightarrow> nat \<Rightarrow> (bool \<times> 'p bio \<times> 'e) option" where
  "BIO_indent bwrite st indent max_indent =
     indent_loop bwrite st (if indent > max_indent then max_indent else indent)"

section \<open>Control\<close>

text \<open>
  A method's \<open>ctrl\<close> takes the command, a number and a pointer, here any value. The results are \<open>long\<close>s.
\<close>

definition BIO_CTRL_RESET :: int where "BIO_CTRL_RESET = 1"
definition BIO_CTRL_EOF :: int where "BIO_CTRL_EOF = 2"
definition BIO_CTRL_INFO :: int where "BIO_CTRL_INFO = 3"
definition BIO_CTRL_GET_CLOSE :: int where "BIO_CTRL_GET_CLOSE = 8"
definition BIO_CTRL_SET_CLOSE :: int where "BIO_CTRL_SET_CLOSE = 9"
definition BIO_CTRL_PENDING :: int where "BIO_CTRL_PENDING = 10"
definition BIO_CTRL_FLUSH :: int where "BIO_CTRL_FLUSH = 11"
definition BIO_CTRL_WPENDING :: int where "BIO_CTRL_WPENDING = 13"

type_synonym ('p, 'e, 'a) bio_control = "'p bio \<times> 'e \<Rightarrow> int \<Rightarrow> int \<Rightarrow> 'a option \<Rightarrow> int \<times> 'p bio \<times> 'e"

definition BIO_ctrl ::
    "('p, 'e, 'a) bio_control option \<Rightarrow> 'p bio \<times> 'e \<Rightarrow> int \<Rightarrow> int \<Rightarrow> 'a option \<Rightarrow> int \<times> 'p bio \<times> 'e" where
  "BIO_ctrl ctrl st cmd larg parg = (case ctrl of None \<Rightarrow> (- 2, st) | Some ctrl \<Rightarrow> ctrl st cmd larg parg)"

definition BIO_flush :: "('p, 'e, 'a) bio_control option \<Rightarrow> 'p bio \<times> 'e \<Rightarrow> int \<times> 'p bio \<times> 'e" where
  "BIO_flush ctrl st = BIO_ctrl ctrl st BIO_CTRL_FLUSH 0 None"

definition BIO_reset :: "('p, 'e, 'a) bio_control option \<Rightarrow> 'p bio \<times> 'e \<Rightarrow> int \<times> 'p bio \<times> 'e" where
  "BIO_reset ctrl st = BIO_ctrl ctrl st BIO_CTRL_RESET 0 None"

definition BIO_eof :: "('p, 'e, 'a) bio_control option \<Rightarrow> 'p bio \<times> 'e \<Rightarrow> int \<times> 'p bio \<times> 'e" where
  "BIO_eof ctrl st = BIO_ctrl ctrl st BIO_CTRL_EOF 0 None"

definition BIO_set_close :: "('p, 'e, 'a) bio_control option \<Rightarrow> 'p bio \<times> 'e \<Rightarrow> int \<Rightarrow> int \<times> 'p bio \<times> 'e" where
  "BIO_set_close ctrl st close_flag = BIO_ctrl ctrl st BIO_CTRL_SET_CLOSE close_flag None"

definition BIO_pending :: "('p, 'e, 'a) bio_control option \<Rightarrow> 'p bio \<times> 'e \<Rightarrow> nat" where
  "BIO_pending ctrl st =
     (let r = fst (BIO_ctrl ctrl st BIO_CTRL_PENDING 0 None) in if r < 0 then 0 else nat r)"

definition BIO_wpending :: "('p, 'e, 'a) bio_control option \<Rightarrow> 'p bio \<times> 'e \<Rightarrow> nat" where
  "BIO_wpending ctrl st =
     (let r = fst (BIO_ctrl ctrl st BIO_CTRL_WPENDING 0 None) in if r < 0 then 0 else nat r)"

section \<open>Reading a whole object\<close>

text \<open>
  The loop of \<open>bio_read_full\<close> from \<open>pos\<close> on: success, \<open>*out_eof_on_first_read\<close> and the buffer \<open>out\<close>.
\<close>

partial_function (option) read_full_loop ::
    "('p, 'e) bio_reader option \<Rightarrow> 'p bio \<times> 'e \<Rightarrow> bytes \<Rightarrow> nat \<Rightarrow> nat \<Rightarrow> bool \<Rightarrow> ((bool \<times> bool \<times> bytes) \<times> 'p bio \<times> 'e) option" where
  "read_full_loop bread st out pos len first_read =
     (if len = 0 then Some ((True, False, out), st)
      else Option.bind (BIO_read bread st True (if int len \<le> INT_MAX then int len else INT_MAX)) (\<lambda>((ret, d), st).
        if ret \<le> 0 then Some ((False, first_read \<and> ret = 0, buf_write out pos d), st)
        else read_full_loop bread st (buf_write out pos d) (pos + nat ret) (size_sub len (nat ret)) False))"

definition bio_read_full ::
    "('p, 'e) bio_reader option \<Rightarrow> 'p bio \<times> 'e \<Rightarrow> bytes \<Rightarrow> nat \<Rightarrow> nat \<Rightarrow> ((bool \<times> bool \<times> bytes) \<times> 'p bio \<times> 'e) option" where
  "bio_read_full bread st out pos len = read_full_loop bread st out pos len True"

definition kChunkSize :: nat where "kChunkSize = 4096"

text \<open>\<open>done += n\<close> on a \<open>size_t\<close> and an \<open>int\<close>.\<close>

definition add_int :: "nat \<Rightarrow> int \<Rightarrow> nat" where
  "add_int x n = nat ((int x + n) mod int SIZE_MOD)"

text \<open>The loop of \<open>bio_read_all\<close>: the block \<open>*out\<close> and \<open>*out_len\<close>, or \<open>None\<close> for a failure.\<close>

partial_function (option) read_all_loop ::
    "('p, 'e) bio_reader option \<Rightarrow> allocator \<Rightarrow> 'p bio \<times> 'e \<Rightarrow> bytes \<Rightarrow> nat \<Rightarrow> nat \<Rightarrow> nat \<Rightarrow> ((bytes \<times> nat) option \<times> 'p bio \<times> 'e) option" where
  "read_all_loop bread al st out pos len max_len =
     (if pos = len then Some (None, st)
      else
        let todo = size_sub len pos
        in Option.bind (BIO_read bread st True (if int todo > INT_MAX then INT_MAX else int todo)) (\<lambda>((n, d), st).
          let out = buf_write out pos d
          in if n = 0 then Some (Some (out, pos), st)
          else if n = - 1 then Some (None, st)
          else
            let pos = add_int pos n
            in if len < max_len \<and> size_sub len pos < kChunkSize div 2
            then
              let new_len = size_add len kChunkSize;
                  new_len = (if new_len < kChunkSize \<or> new_len > max_len then max_len else new_len)
              in case OPENSSL_realloc al (Some out) new_len of
                   None \<Rightarrow> Some (None, st)
                 | Some out \<Rightarrow> read_all_loop bread al st out pos new_len max_len
            else read_all_loop bread al st out pos len max_len))"

definition bio_read_all ::
    "('p, 'e) bio_reader option \<Rightarrow> allocator \<Rightarrow> 'p bio \<times> 'e \<Rightarrow> bytes \<Rightarrow> nat \<Rightarrow> nat \<Rightarrow> ((bytes \<times> nat) option \<times> 'p bio \<times> 'e) option" where
  "bio_read_all bread al st prefix_bytes prefix_len max_len =
     (let len = size_add prefix_len kChunkSize;
          len = (if len > max_len then max_len else len)
      in if len < prefix_len then Some (None, st)
      else case OPENSSL_malloc al len of None \<Rightarrow> Some (None, st)
      | Some out \<Rightarrow> read_all_loop bread al st (buf_write out 0 (take prefix_len prefix_bytes)) prefix_len len max_len)"

section \<open>Reading an ASN.1 element\<close>

text \<open>The error that a failed call puts on the error queue last.\<close>

datatype asn1_read_error =
  ASN1_R_HEADER_TOO_LONG | ASN1_R_NOT_ENOUGH_DATA | ASN1_R_DECODE_ERROR | ASN1_R_TOO_LONG | ERR_R_MALLOC_FAILURE

definition kInitialHeaderLen :: nat where "kInitialHeaderLen = 2"

text \<open>The loop over the length octets.\<close>

fun len32_loop :: "u32 \<Rightarrow> bytes \<Rightarrow> u32" where
  "len32_loop len32 [] = len32"
| "len32_loop len32 (b # bs) = len32_loop (push_bit 8 len32 OR ucast b) bs"

text \<open>The end of \<open>BIO_read_asn1\<close>, after the header.\<close>

definition read_asn1_body ::
    "('p, 'e) bio_reader option \<Rightarrow> allocator \<Rightarrow> nat \<Rightarrow> nat \<Rightarrow> nat \<Rightarrow> bytes \<Rightarrow> 'p bio \<times> 'e \<Rightarrow> ((asn1_read_error + bytes \<times> nat) \<times> 'p bio \<times> 'e) option" where
  "read_asn1_body bread al max_len len header_len header st =
     (if size_add len header_len < len \<or> size_add len header_len > max_len \<or> int len > INT_MAX
      then Some (Inl ASN1_R_TOO_LONG, st)
      else
        let len = size_add len header_len
        in case OPENSSL_malloc al len of None \<Rightarrow> Some (Inl ERR_R_MALLOC_FAILURE, st)
        | Some out \<Rightarrow>
            Option.bind (bio_read_full bread st (buf_write out 0 (take header_len header)) header_len (size_sub len header_len))
              (\<lambda>((ok, _, out), st). Some (if ok then Inr (out, len) else Inl ASN1_R_NOT_ENOUGH_DATA, st)))"

text \<open>The block \<open>*out\<close> and \<open>*out_len\<close>, or the error.\<close>

definition BIO_read_asn1 ::
    "('p, 'e) bio_reader option \<Rightarrow> allocator \<Rightarrow> 'p bio \<times> 'e \<Rightarrow> nat \<Rightarrow> ((asn1_read_error + bytes \<times> nat) \<times> 'p bio \<times> 'e) option" where
  "BIO_read_asn1 bread al st max_len =
     Option.bind (bio_read_full bread st (map (junk al) [0..<6]) 0 kInitialHeaderLen) (\<lambda>((ok, eof, header), st).
       if \<not> ok then Some (Inl (if eof then ASN1_R_HEADER_TOO_LONG else ASN1_R_NOT_ENOUGH_DATA), st)
       else
         let tag = header ! 0; length_byte = header ! 1
         in if tag AND 0x1f = 0x1f then Some (Inl ASN1_R_DECODE_ERROR, st)
         else if length_byte AND 0x80 = 0
         then read_asn1_body bread al max_len (unat length_byte) kInitialHeaderLen header st
         else
           let num_bytes = unat (length_byte AND 0x7f)
           in if tag AND 0x20 \<noteq> 0 \<and> num_bytes = 0
           then Option.bind (bio_read_all bread al st header kInitialHeaderLen max_len) (\<lambda>(r, st).
                  Some (case r of None \<Rightarrow> Inl ASN1_R_NOT_ENOUGH_DATA | Some out \<Rightarrow> Inr out, st))
           else if num_bytes = 0 \<or> num_bytes > 4 then Some (Inl ASN1_R_DECODE_ERROR, st)
           else
             Option.bind (bio_read_full bread st header kInitialHeaderLen num_bytes) (\<lambda>((ok, _, header), st).
               if \<not> ok then Some (Inl ASN1_R_NOT_ENOUGH_DATA, st)
               else
                 let len32 = len32_loop 0 (take num_bytes (drop kInitialHeaderLen header))
                 in if len32 < 128 then Some (Inl ASN1_R_DECODE_ERROR, st)
                 else if drop_bit ((num_bytes - 1) * 8) len32 = 0 then Some (Inl ASN1_R_DECODE_ERROR, st)
                 else read_asn1_body bread al max_len (unat len32) (kInitialHeaderLen + num_bytes) header st))"

end
