(* ===== verification/Bio_Mem.thy ===== *)
theory Bio_Mem
  imports Bio
begin

text \<open>
  \<open>crypto/bio/bio_mem.c\<close>: a \<open>BIO\<close> over a buffer. \<open>buf_data\<close> of the buffer is the whole block, and
  \<open>mem_off\<close> says where in it \<open>b->data\<close> points: reads of a read-only \<open>BIO\<close> move the pointer, in any
  other \<open>BIO\<close> it stays at the start of the block.
\<close>

record mem_ptr =
  mem_b :: buf_mem
  mem_off :: nat

type_synonym mem_bio = "mem_ptr bio"

definition mem_null :: mem_ptr where
  "mem_null = \<lparr>mem_b = \<lparr>buf_length = 0, buf_data = None, buf_max = 0\<rparr>, mem_off = 0\<rparr>"

definition mem_rdonly :: "mem_bio \<Rightarrow> bool" where
  "mem_rdonly bio \<longleftrightarrow> bio_flags bio AND BIO_FLAGS_MEM_RDONLY \<noteq> 0"

text \<open>The memory from \<open>b->data\<close> on.\<close>

definition mem_data :: "mem_ptr \<Rightarrow> bytes" where
  "mem_data p = (case buf_data (mem_b p) of None \<Rightarrow> [] | Some d \<Rightarrow> drop (mem_off p) d)"

section \<open>The method\<close>

definition mem_new :: "allocator \<Rightarrow> mem_bio \<Rightarrow> mem_bio option" where
  "mem_new al bio =
     (case BUF_MEM_new al of None \<Rightarrow> None
      | Some b \<Rightarrow> Some (bio\<lparr>bio_shutdown := 1, bio_init := True, bio_num := - 1, bio_ptr := \<lparr>mem_b = b, mem_off = 0\<rparr>\<rparr>))"

text \<open>\<open>buf\<close> is \<open>None\<close> for \<open>NULL\<close>; the length of a negative \<open>len\<close> is that of the string.\<close>

definition BIO_new_mem_buf :: "allocator \<Rightarrow> bytes option \<Rightarrow> int \<Rightarrow> mem_bio option" where
  "BIO_new_mem_buf al buf len =
     (let sz = (if len < 0 then (case buf of None \<Rightarrow> 0 | Some s \<Rightarrow> strlen s) else nat len)
      in if buf = None \<and> len \<noteq> 0 then None
      else case BIO_new al mem_null (mem_new al) of None \<Rightarrow> None
      | Some ret \<Rightarrow>
          let b = (mem_b (bio_ptr ret))\<lparr>buf_data := buf, buf_length := sz, buf_max := sz\<rparr>
          in Some (ret\<lparr>bio_ptr := (bio_ptr ret)\<lparr>mem_b := b\<rparr>,
               bio_flags := bio_flags ret OR BIO_FLAGS_MEM_RDONLY, bio_num := 0\<rparr>))"

text \<open>What a read of \<open>n\<close> bytes does to the buffer.\<close>

definition mem_consume :: "bool \<Rightarrow> nat \<Rightarrow> mem_ptr \<Rightarrow> mem_ptr" where
  "mem_consume rdonly n p =
     (let b = mem_b p; len = buf_length b - n
      in if rdonly then p\<lparr>mem_b := b\<lparr>buf_length := len\<rparr>, mem_off := mem_off p + n\<rparr>
      else p\<lparr>mem_b := b\<lparr>buf_length := len,
             buf_data := map_option (\<lambda>d. OPENSSL_memmove d (mem_off p) (mem_off p + n) len) (buf_data b)\<rparr>\<rparr>)"

definition mem_read :: "(mem_ptr, 'e) bio_reader" where
  "mem_read st buf outl =
     (let bio = BIO_clear_retry_flags (fst st)
      in if outl \<le> 0 then Some ((0, []), bio, snd st)
      else
        let p = bio_ptr bio;
            ret = (if nat outl > buf_length (mem_b p) then int (buf_length (mem_b p)) else outl)
        in if ret > 0
        then Some ((ret, take (nat ret) (mem_data p)), bio\<lparr>bio_ptr := mem_consume (mem_rdonly bio) (nat ret) p\<rparr>, snd st)
        else if buf_length (mem_b p) = 0
        then Some ((bio_num bio, []), (if bio_num bio \<noteq> 0 then BIO_set_retry_read bio else bio), snd st)
        else Some ((ret, []), bio, snd st))"

definition mem_write :: "allocator \<Rightarrow> (mem_ptr, 'e) bio_writer" where
  "mem_write al st inp inl =
     (let bio = BIO_clear_retry_flags (fst st)
      in if inl \<le> 0 then Some (0, bio, snd st)
      else if mem_rdonly bio then Some (- 1, bio, snd st)
      else case BUF_MEM_append al (mem_b (bio_ptr bio)) (case inp of None \<Rightarrow> [] | Some d \<Rightarrow> d) (nat inl) of
        (ok, b) \<Rightarrow> Some (if ok then inl else - 1, bio\<lparr>bio_ptr := (bio_ptr bio)\<lparr>mem_b := b\<rparr>\<rparr>, snd st))"

text \<open>How far \<open>mem_gets\<close> reads: up to and with the first newline among the first \<open>n\<close> bytes.\<close>

definition line_length :: "nat \<Rightarrow> bytes \<Rightarrow> nat" where
  "line_length n d =
     (let k = length (takeWhile (\<lambda>c. c \<noteq> 0x0a) (take n d)) in if k < length (take n d) then k + 1 else n)"

definition mem_gets :: "(mem_ptr, 'e) bio_reader" where
  "mem_gets st buf sz =
     (let bio = BIO_clear_retry_flags (fst st)
      in if sz \<le> 0 then Some ((0, []), bio, snd st)
      else
        let p = bio_ptr bio;
            ret = (if nat (sz - 1) > buf_length (mem_b p) then buf_length (mem_b p) else nat (sz - 1));
            ret = line_length ret (mem_data p)
        in Option.bind (mem_read (bio, snd st) buf (int ret)) (\<lambda>((ret, d), st).
             Some ((ret, if ret \<ge> 0 then take (nat ret) d @ [0] else d), st)))"

definition BIO_C_SET_BUF_MEM :: int where "BIO_C_SET_BUF_MEM = 114"
definition BIO_C_GET_BUF_MEM_PTR :: int where "BIO_C_GET_BUF_MEM_PTR = 115"
definition BIO_C_SET_BUF_MEM_EOF_RETURN :: int where "BIO_C_SET_BUF_MEM_EOF_RETURN = 130"

definition mem_reset :: "mem_bio \<Rightarrow> mem_bio" where
  "mem_reset bio =
     (let p = bio_ptr bio; b = mem_b p
      in case buf_data b of None \<Rightarrow> bio
      | Some d \<Rightarrow>
          if mem_rdonly bio
          then bio\<lparr>bio_ptr := p\<lparr>mem_off := mem_off p - (buf_max b - buf_length b), mem_b := b\<lparr>buf_length := buf_max b\<rparr>\<rparr>\<rparr>
          else bio\<lparr>bio_ptr := p\<lparr>mem_b := b\<lparr>buf_data := Some (buf_write d (mem_off p) (replicate (buf_max b) 0)), buf_length := 0\<rparr>\<rparr>\<rparr>)"

text \<open>The pointers \<open>BIO_CTRL_INFO\<close> and \<open>BIO_C_GET_BUF_MEM_PTR\<close> store are those of the state.\<close>

definition mem_ctrl :: "(mem_ptr, 'e, buf_mem) bio_control" where
  "mem_ctrl st cmd n ptr =
     (let bio = fst st; b = mem_b (bio_ptr bio)
      in if cmd = BIO_CTRL_RESET then (1, mem_reset bio, snd st)
      else if cmd = BIO_CTRL_EOF then (of_bool (buf_length b = 0), st)
      else if cmd = BIO_C_SET_BUF_MEM_EOF_RETURN then (1, bio\<lparr>bio_num := n\<rparr>, snd st)
      else if cmd = BIO_CTRL_INFO then (int (buf_length b), st)
      else if cmd = BIO_C_SET_BUF_MEM
      then (1, (case ptr of None \<Rightarrow> bio\<lparr>bio_shutdown := n, bio_ptr := mem_null\<rparr>
                | Some b \<Rightarrow> bio\<lparr>bio_shutdown := n, bio_ptr := \<lparr>mem_b = b, mem_off = 0\<rparr>\<rparr>), snd st)
      else if cmd = BIO_C_GET_BUF_MEM_PTR then (1, st)
      else if cmd = BIO_CTRL_GET_CLOSE then (bio_shutdown bio, st)
      else if cmd = BIO_CTRL_SET_CLOSE then (1, bio\<lparr>bio_shutdown := n\<rparr>, snd st)
      else if cmd = BIO_CTRL_WPENDING then (0, st)
      else if cmd = BIO_CTRL_PENDING then (int (buf_length b), st)
      else if cmd = BIO_CTRL_FLUSH then (1, st)
      else (0, st))"

definition BIO_mem_contents :: "mem_bio \<Rightarrow> bytes \<times> nat" where
  "BIO_mem_contents bio = (mem_data (bio_ptr bio), buf_length (mem_b (bio_ptr bio)))"

definition BIO_set_mem_buf :: "mem_bio \<times> 'e \<Rightarrow> buf_mem \<Rightarrow> int \<Rightarrow> int \<times> mem_bio \<times> 'e" where
  "BIO_set_mem_buf st b take_ownership = BIO_ctrl (Some mem_ctrl) st BIO_C_SET_BUF_MEM take_ownership (Some b)"

definition BIO_set_mem_eof_return :: "mem_bio \<times> 'e \<Rightarrow> int \<Rightarrow> int \<times> mem_bio \<times> 'e" where
  "BIO_set_mem_eof_return st eof_value = BIO_ctrl (Some mem_ctrl) st BIO_C_SET_BUF_MEM_EOF_RETURN eof_value None"

section \<open>The queue of bytes\<close>

definition mem_ok :: "mem_bio \<Rightarrow> bool" where
  "mem_ok bio \<longleftrightarrow>
     (let p = bio_ptr bio; b = mem_b p
      in bio_init bio \<and>
         (if mem_rdonly bio
          then buf_length b \<le> buf_max b \<and> buf_max b < SIZE_MOD \<and> mem_off p = buf_max b - buf_length b \<and>
               buf_max b \<le> length (case buf_data b of None \<Rightarrow> [] | Some d \<Rightarrow> d)
          else mem_off p = 0 \<and> buf_mem_ok b))"

definition mem_contents :: "mem_bio \<Rightarrow> bytes" where
  "mem_contents bio = take (buf_length (mem_b (bio_ptr bio))) (mem_data (bio_ptr bio))"

lemma rdonly_retry: "(x AND NOT kRetryFlags) AND BIO_FLAGS_MEM_RDONLY = x AND BIO_FLAGS_MEM_RDONLY"
  "(x OR (BIO_FLAGS_READ OR BIO_FLAGS_SHOULD_RETRY)) AND BIO_FLAGS_MEM_RDONLY = x AND BIO_FLAGS_MEM_RDONLY"
proof -
  have "(x AND NOT kRetryFlags) AND BIO_FLAGS_MEM_RDONLY = x AND (NOT kRetryFlags AND BIO_FLAGS_MEM_RDONLY)"
    by (simp only: and.assoc)
  also have "NOT kRetryFlags AND BIO_FLAGS_MEM_RDONLY = BIO_FLAGS_MEM_RDONLY"
    by (simp add: kRetryFlags_def BIO_FLAGS_RWS_def BIO_FLAGS_READ_def BIO_FLAGS_WRITE_def BIO_FLAGS_IO_SPECIAL_def
        BIO_FLAGS_SHOULD_RETRY_def BIO_FLAGS_MEM_RDONLY_def)
  finally show "(x AND NOT kRetryFlags) AND BIO_FLAGS_MEM_RDONLY = x AND BIO_FLAGS_MEM_RDONLY" .
  have "(BIO_FLAGS_READ OR BIO_FLAGS_SHOULD_RETRY) AND BIO_FLAGS_MEM_RDONLY = 0"
    by (simp add: BIO_FLAGS_READ_def BIO_FLAGS_SHOULD_RETRY_def BIO_FLAGS_MEM_RDONLY_def)
  then show "(x OR (BIO_FLAGS_READ OR BIO_FLAGS_SHOULD_RETRY)) AND BIO_FLAGS_MEM_RDONLY = x AND BIO_FLAGS_MEM_RDONLY"
    by (simp add: bit.conj_disj_distrib2)
qed

lemma retry_flags [simp]:
  "mem_rdonly (BIO_clear_retry_flags bio) = mem_rdonly bio" "mem_rdonly (BIO_set_retry_read bio) = mem_rdonly bio"
  "bio_ptr (BIO_clear_retry_flags bio) = bio_ptr bio" "bio_ptr (BIO_set_retry_read bio) = bio_ptr bio"
  "bio_init (BIO_clear_retry_flags bio) = bio_init bio" "bio_init (BIO_set_retry_read bio) = bio_init bio"
  "bio_num (BIO_clear_retry_flags bio) = bio_num bio"
  by (simp_all add: mem_rdonly_def BIO_clear_retry_flags_def BIO_set_retry_read_def rdonly_retry)

lemma mem_rdonly_update [simp]: "mem_rdonly (bio\<lparr>bio_ptr := p\<rparr>) = mem_rdonly bio"
  "mem_rdonly (bio\<lparr>num_read := n\<rparr>) = mem_rdonly bio" "mem_rdonly (bio\<lparr>num_write := n\<rparr>) = mem_rdonly bio"
  by (simp_all add: mem_rdonly_def)

lemma length_mem_contents: "mem_ok bio \<Longrightarrow> length (mem_contents bio) = buf_length (mem_b (bio_ptr bio))"
  by (auto simp: mem_ok_def mem_contents_def mem_data_def buf_mem_ok_def Let_def split: if_splits option.splits)

lemma mem_consume_ok:
  assumes ok: "mem_ok bio" and n: "n \<le> length (mem_contents bio)"
  defines "bio' \<equiv> bio\<lparr>bio_ptr := mem_consume (mem_rdonly bio) n (bio_ptr bio)\<rparr>"
  shows "mem_ok bio' \<and> mem_contents bio' = drop n (mem_contents bio)"
proof -
  define b where "b = mem_b (bio_ptr bio)"
  have n': "n \<le> buf_length b"
    using n length_mem_contents [OF ok] by (simp add: b_def)
  show ?thesis
  proof (cases "mem_rdonly bio")
    case True
    with ok n' show ?thesis
      by (auto simp: bio'_def mem_ok_def mem_contents_def mem_data_def mem_consume_def b_def Let_def drop_take ac_simps
          split: option.splits)
  next
    case False
    with ok n' show ?thesis
      by (auto simp: bio'_def mem_ok_def mem_contents_def mem_data_def mem_consume_def b_def Let_def drop_take
          buf_mem_ok_def OPENSSL_memmove_def buf_write_def split: option.splits)
  qed
qed

text \<open>A read of \<open>n\<close> bytes.\<close>

lemma mem_read_ok:
  assumes "mem_ok bio" "0 < n" "mem_contents bio \<noteq> []"
  shows "\<exists>bio'. mem_read (bio, e) buf n = Some ((int (min (nat n) (length (mem_contents bio))), take (nat n) (mem_contents bio)), bio', e) \<and>
    mem_ok bio' \<and> mem_contents bio' = drop (nat n) (mem_contents bio)"
proof -
  define k where "k = min (nat n) (length (mem_contents bio))"
  define c where "c = BIO_clear_retry_flags bio"
  have c: "mem_ok c" "mem_contents c = mem_contents bio"
    using assms(1) by (simp_all add: c_def mem_ok_def mem_contents_def)
  have len: "buf_length (mem_b (bio_ptr c)) = length (mem_contents bio)"
    using length_mem_contents [OF c(1)] c(2) by simp
  have data: "mem_contents bio = take (length (mem_contents bio)) (mem_data (bio_ptr c))"
    using len by (simp add: mem_contents_def c_def)
  have k: "0 < k" "k \<le> length (mem_contents c)"
    using assms(2,3) c(2) by (simp_all add: k_def)
  have "mem_read (bio, e) buf n = Some ((int k, take k (mem_data (bio_ptr c))), c\<lparr>bio_ptr := mem_consume (mem_rdonly c) k (bio_ptr c)\<rparr>, e)"
    using assms(2,3) k(1) unfolding mem_read_def
    by (simp add: c_def [symmetric] len Let_def k_def min_def nat_less_iff)
  moreover have "take k (mem_data (bio_ptr c)) = take (nat n) (mem_contents bio)"
    using arg_cong [OF data, of "take (nat n)"] by (simp add: k_def min.commute)
  moreover have "drop k (mem_contents bio) = drop (nat n) (mem_contents bio)"
    by (simp add: k_def min_def)
  ultimately show ?thesis
    using mem_consume_ok [OF c(1) k(2)] c(2) k_def by auto
qed


lemma mem_read_nothing:
  assumes "n \<le> 0"
  shows "mem_read (bio, e) buf n = Some ((0, []), BIO_clear_retry_flags bio, e)"
  using assms by (simp add: mem_read_def Let_def)

lemma mem_ok_simps [simp]:
  "mem_ok (BIO_clear_retry_flags bio) = mem_ok bio" "mem_contents (BIO_clear_retry_flags bio) = mem_contents bio"
  "mem_ok (BIO_set_retry_read bio) = mem_ok bio" "mem_contents (BIO_set_retry_read bio) = mem_contents bio"
  "mem_ok (bio\<lparr>num_read := n\<rparr>) = mem_ok bio" "mem_contents (bio\<lparr>num_read := n\<rparr>) = mem_contents bio"
  "mem_ok (bio\<lparr>num_write := n\<rparr>) = mem_ok bio" "mem_contents (bio\<lparr>num_write := n\<rparr>) = mem_contents bio"
  by (simp_all add: mem_ok_def mem_contents_def)

lemma BIO_read_mem:
  assumes "mem_ok bio" "0 < n" "mem_contents bio \<noteq> []"
  obtains bio' where
    "BIO_read (Some mem_read) (bio, e) buf n = Some ((int (min (nat n) (length (mem_contents bio))), take (nat n) (mem_contents bio)), bio', e)"
    "mem_ok bio'" "mem_contents bio' = drop (nat n) (mem_contents bio)"
proof -
  obtain bio1 where r: "mem_read (bio, e) buf n = Some ((int (min (nat n) (length (mem_contents bio))), take (nat n) (mem_contents bio)), bio1, e)"
    "mem_ok bio1" "mem_contents bio1 = drop (nat n) (mem_contents bio)"
    using mem_read_ok [OF assms, of e buf] by blast
  have "bio_init bio"
    using assms(1) by (simp add: mem_ok_def Let_def)
  with assms(2) r that show ?thesis
    by (auto simp: BIO_read_def)
qed

text \<open>At the end of the data a read returns the number set for it and stores nothing.\<close>

lemma BIO_read_mem_end:
  assumes "mem_ok bio" "0 < n" "mem_contents bio = []" "bio_num bio \<le> 0"
  obtains bio' where "BIO_read (Some mem_read) (bio, e) buf n = Some ((bio_num bio, []), bio', e)"
    "mem_ok bio'" "mem_contents bio' = []"
proof -
  have "buf_length (mem_b (bio_ptr bio)) = 0" "bio_init bio"
    using assms(1,3) length_mem_contents [of bio] by (simp_all add: mem_ok_def Let_def)
  with assms that show ?thesis
    by (auto simp: BIO_read_def mem_read_def Let_def)
qed

lemma BIO_write_mem:
  assumes ok: "mem_ok bio" and n: "0 < n" "nat n \<le> length inp" "n \<le> INT_MAX"
    and w: "BIO_write (Some (mem_write al)) (bio, e) (Some inp) n = Some (ret, bio', e')"
  shows "mem_ok bio' \<and> e' = e \<and>
    (if mem_rdonly bio then ret = - 1 \<and> mem_contents bio' = mem_contents bio
     else if ret = - 1 then mem_contents bio' = mem_contents bio
     else ret = n \<and> mem_contents bio' = mem_contents bio @ take (nat n) inp)"
proof (cases "mem_rdonly bio")
  case True
  with ok n w show ?thesis
    by (auto simp: BIO_write_def mem_write_def Let_def mem_ok_def)
next
  case False
  define b where "b = mem_b (bio_ptr bio)"
  have b: "buf_mem_ok b" "mem_off (bio_ptr bio) = 0" "bio_init bio"
    using ok False by (simp_all add: mem_ok_def b_def Let_def)
  obtain r b' where a: "BUF_MEM_append al b inp (nat n) = (r, b')" by (rule prod.exhaust)
  have "nat n < SIZE_MOD"
    using n by (simp add: SIZE_MOD_def INT_MAX_def)
  then have b': "buf_mem_ok b'" "buf_contents b' = (if r then buf_contents b @ take (nat n) inp else buf_contents b)"
    using append_appends [OF b(1) n(2), of al] a by simp_all
  define bio1 where "bio1 = BIO_clear_retry_flags bio\<lparr>bio_ptr := (bio_ptr bio)\<lparr>mem_b := b'\<rparr>\<rparr>"
  have "ret = (if r then n else - 1)" "e' = e" "bio' = bio1 \<or> bio' = bio1\<lparr>num_write := size_add (num_write bio1) (nat n)\<rparr>"
    using w n(1) False a b(3) by (auto simp: BIO_write_def mem_write_def Let_def b_def bio1_def split: if_splits)
  moreover have "mem_contents bio = buf_contents b" "mem_contents bio1 = buf_contents b'" "mem_ok bio1"
    using b b'(1) False unfolding bio1_def b_def
    by (auto simp: mem_contents_def mem_data_def buf_contents_def mem_ok_def split: option.splits)
  ultimately show ?thesis
    using False b'(2) n(1) by auto
qed

text \<open>A line: the bytes up to and with the first newline, at most \<open>n\<close>.\<close>

lemma line_length_le: "line_length n d \<le> n"
  by (auto simp: line_length_def Let_def)

lemma line_length_take: "n \<le> k \<Longrightarrow> line_length n (take k d) = line_length n d"
  by (simp add: line_length_def min_def)

lemma line_length_pos: "0 < n \<Longrightarrow> 0 < line_length n d"
  by (simp add: line_length_def Let_def)

lemma BIO_gets_mem:
  assumes ok: "mem_ok bio" and n: "1 < n"
  defines "k \<equiv> line_length (min (nat (n - 1)) (length (mem_contents bio))) (mem_contents bio)"
  obtains bio' where "BIO_gets (Some mem_gets) (bio, e) buf n = Some ((int k, take k (mem_contents bio) @ [0]), bio', e)"
    "mem_ok bio'" "mem_contents bio' = drop k (mem_contents bio)"
proof -
  define c where "c = BIO_clear_retry_flags bio"
  have c: "mem_ok c" "mem_contents c = mem_contents bio" "bio_init bio"
    using ok by (simp_all add: c_def mem_ok_def Let_def)
  have len: "buf_length (mem_b (bio_ptr c)) = length (mem_contents bio)"
    using length_mem_contents [OF c(1)] c(2) by simp
  have data: "mem_contents bio = take (length (mem_contents bio)) (mem_data (bio_ptr c))"
    using len by (simp add: mem_contents_def c_def)
  have m: "(if nat (n - 1) > buf_length (mem_b (bio_ptr c)) then buf_length (mem_b (bio_ptr c)) else nat (n - 1)) =
      min (nat (n - 1)) (length (mem_contents bio))"
    by (simp add: len min_def)
  have "line_length (min (nat (n - 1)) (length (mem_contents bio))) (mem_data (bio_ptr c)) = k"
    using line_length_take [of "min (nat (n - 1)) (length (mem_contents bio))" "length (mem_contents bio)" "mem_data (bio_ptr c)"]
      data by (simp add: k_def)
  then have g: "mem_gets (bio, e) buf n = Option.bind (mem_read (c, e) buf (int k)) (\<lambda>((ret, d), st).
       Some ((ret, if ret \<ge> 0 then take (nat ret) d @ [0] else d), st))"
    using n m by (simp add: mem_gets_def Let_def c_def [symmetric])
  show ?thesis
  proof (cases "mem_contents bio = []")
    case True
    then have "k = 0"
      using line_length_le [of 0 "[]"] by (simp add: k_def)
    with g mem_read_nothing [of "int k" c e buf] n c True that show ?thesis
      by (simp add: BIO_gets_def)
  next
    case False
    then have k: "0 < k" "k \<le> length (mem_contents bio)"
      unfolding k_def using n line_length_pos line_length_le le_trans min.cobounded2 by (simp, blast)
    obtain bio1 where "mem_read (c, e) buf (int k) = Some ((int k, take k (mem_contents bio)), bio1, e)"
      "mem_ok bio1" "mem_contents bio1 = drop k (mem_contents bio)"
      using mem_read_ok [OF c(1), of "int k" e buf] k False c(2) by auto
    with g n c(3) k that show ?thesis
      by (auto simp: BIO_gets_def)
  qed
qed

section \<open>Properties\<close>

text \<open>
  A run of reads and writes: the bytes that the writes accepted, those that the reads stored (for a line
  without its terminating NUL) and the \<open>BIO\<close> at the end.
\<close>

datatype mem_op = Write bytes | Read int | Gets int

fun mem_step :: "allocator \<Rightarrow> mem_op \<Rightarrow> mem_bio \<Rightarrow> (bytes \<times> bytes \<times> mem_bio) option" where
  "mem_step al (Write d) bio =
     map_option (\<lambda>(ret, bio, _). (take (nat ret) d, [], bio)) (BIO_write (Some (mem_write al)) (bio, ()) (Some d) (int (length d)))"
| "mem_step al (Read n) bio = map_option (\<lambda>((ret, d), bio, _). ([], d, bio)) (BIO_read (Some mem_read) (bio, ()) True n)"
| "mem_step al (Gets n) bio =
     map_option (\<lambda>((ret, d), bio, _). ([], take (nat ret) d, bio)) (BIO_gets (Some mem_gets) (bio, ()) True n)"

fun mem_run :: "allocator \<Rightarrow> mem_op list \<Rightarrow> mem_bio \<Rightarrow> (bytes \<times> bytes \<times> mem_bio) option" where
  "mem_run al [] bio = Some ([], [], bio)"
| "mem_run al (op # ops) bio =
     Option.bind (mem_step al op bio) (\<lambda>(w, r, bio).
       map_option (\<lambda>(ws, rs, bio). (w @ ws, r @ rs, bio)) (mem_run al ops bio))"

definition op_fits :: "mem_op \<Rightarrow> bool" where
  "op_fits op = (case op of Write d \<Rightarrow> int (length d) \<le> INT_MAX | _ \<Rightarrow> True)"

lemma mem_write_total: "\<exists>ret bio'. mem_write al (bio, e) inp n = Some (ret, bio', e)"
  by (cases "BUF_MEM_append al (mem_b (bio_ptr bio)) (case inp of None \<Rightarrow> [] | Some d \<Rightarrow> d) (nat n)")
    (simp add: mem_write_def Let_def)

lemma BIO_write_total: "\<exists>ret bio'. BIO_write (Some (mem_write al)) (bio, e) inp n = Some (ret, bio', e)"
  using mem_write_total [of al bio e inp n] by (auto simp: BIO_write_def)

lemma mem_step_fifo:
  assumes ok: "mem_ok bio" and fits: "op_fits op"
  shows "\<exists>w r bio'. mem_step al op bio = Some (w, r, bio') \<and> mem_ok bio' \<and> mem_contents bio @ w = r @ mem_contents bio'"
proof (cases op)
  case (Write d)
  show ?thesis
  proof (cases "d = []")
    case True
    with ok Write show ?thesis by (auto simp: BIO_write_def)
  next
    case False
    obtain ret bio' where w: "BIO_write (Some (mem_write al)) (bio, ()) (Some d) (int (length d)) = Some (ret, bio', ())"
      using BIO_write_total [of al bio "()" "Some d" "int (length d)"] by (elim exE) assumption
    with BIO_write_mem [OF ok _ _ _ w] fits Write False show ?thesis
      by (auto simp: op_fits_def split: if_splits)
  qed
next
  case (Read n)
  consider "n \<le> 0" | "0 < n" "mem_contents bio = []" | "0 < n" "mem_contents bio \<noteq> []"
    by linarith
  then show ?thesis
  proof cases
    case 1
    with ok Read show ?thesis by (auto simp: BIO_read_def)
  next
    case 2
    then have "buf_length (mem_b (bio_ptr bio)) = 0"
      using length_mem_contents [OF ok] by simp
    with 2 ok Read show ?thesis by (auto simp: BIO_read_def mem_read_def Let_def)
  next
    case 3
    obtain bio' where "BIO_read (Some mem_read) (bio, ()) True n =
        Some ((int (min (nat n) (length (mem_contents bio))), take (nat n) (mem_contents bio)), bio', ())"
      "mem_ok bio'" "mem_contents bio' = drop (nat n) (mem_contents bio)"
      by (rule BIO_read_mem [OF ok 3, of "()" True])
    with Read show ?thesis by simp
  qed
next
  case (Gets n)
  show ?thesis
  proof (cases "1 < n")
    case True
    define k where "k = line_length (min (nat (n - 1)) (length (mem_contents bio))) (mem_contents bio)"
    have k: "k \<le> length (mem_contents bio)"
      using line_length_le [of "min (nat (n - 1)) (length (mem_contents bio))"] by (simp add: k_def)
    obtain bio' where "BIO_gets (Some mem_gets) (bio, ()) True n = Some ((int k, take k (mem_contents bio) @ [0]), bio', ())"
      "mem_ok bio'" "mem_contents bio' = drop k (mem_contents bio)"
      unfolding k_def by (rule BIO_gets_mem [OF ok True, of "()" True])
    with Gets k show ?thesis by simp
  next
    case False
    with ok Gets mem_read_nothing [of 0 "BIO_clear_retry_flags bio" "()" True] show ?thesis
      by (auto simp: BIO_gets_def mem_gets_def Let_def line_length_def not_less split: if_splits)
  qed
qed

text \<open>
  C39: a memory \<open>BIO\<close> is a queue: in any run of reads, line reads and writes, what was in it followed by what
  the writes accepted is what the reads returned followed by what is left in it, and it stays well formed.
\<close>

theorem mem_bio_is_a_queue:
  assumes "mem_ok bio" "\<forall>op\<in>set ops. op_fits op"
  shows "\<exists>ws rs bio'. mem_run al ops bio = Some (ws, rs, bio') \<and> mem_ok bio' \<and>
    mem_contents bio @ ws = rs @ mem_contents bio'"
  using assms
proof (induction ops arbitrary: bio)
  case Nil
  then show ?case by simp
next
  case (Cons op ops)
  obtain w r bio1 where s: "mem_step al op bio = Some (w, r, bio1)" "mem_ok bio1"
    "mem_contents bio @ w = r @ mem_contents bio1"
    using mem_step_fifo [of bio op al] Cons.prems by auto
  obtain ws rs bio' where t: "mem_run al ops bio1 = Some (ws, rs, bio')" "mem_ok bio'"
    "mem_contents bio1 @ ws = rs @ mem_contents bio'"
    using Cons.IH [OF s(2)] Cons.prems(2) by auto
  have "mem_contents bio @ w @ ws = (r @ rs) @ mem_contents bio'"
    using s(3) t(3) by (metis append_assoc)
  with s t show ?case by auto
qed

definition empty_mem_bio :: mem_bio where
  "empty_mem_bio = \<lparr>bio_init = True, bio_shutdown = 1, bio_flags = 0, retry_reason = 0, bio_num = - 1,
     bio_ptr = mem_null, num_read = 0, num_write = 0\<rparr>"

theorem mem_bio_is_a_queue_witness:
  "\<exists>ws rs bio'. mem_run \<lparr>malloc_ok = (\<lambda>_. True), junk = (\<lambda>_. 7)\<rparr> [Write [1, 2], Read 1, Write [3, 0x0a, 4], Gets 10] empty_mem_bio =
     Some (ws, rs, bio') \<and> mem_ok bio' \<and> ws = rs @ mem_contents bio'"
  using mem_bio_is_a_queue [of empty_mem_bio "[Write [1, 2], Read 1, Write [3, 0x0a, 4], Gets 10]"
      "\<lparr>malloc_ok = (\<lambda>_. True), junk = (\<lambda>_. 7)\<rparr>"]
  by (simp add: empty_mem_bio_def mem_null_def mem_ok_def mem_rdonly_def buf_mem_ok_def mem_contents_def mem_data_def
      SIZE_MOD_def op_fits_def INT_MAX_def)

end
