(* ===== verification/Conf_Load.thy ===== *)
theory Conf_Load
  imports Conf_Text Stack Bio_Mem "HOL-Library.Sublist"
begin

text \<open>
  The rest of \<open>crypto/conf/conf.c\<close>: the tables of a configuration, and the loop that fills them from the
  lines of a \<open>BIO\<close>.

  The objects the tables hold are shared between them, freed and compared by address, so that each is a
  pair of its address and its contents; addresses are given out in order by \<open>next_ptr\<close>. The contents of
  an object do not change once it is in a table, but for the stack of a section, which is the field
  \<open>section_values\<close> of the state, by the section's address. \<open>freed\<close> lists the objects that
  \<open>section_free\<close> and \<open>value_free\<close> have freed. A field that is \<open>NULL\<close> is the empty list.
\<close>

section \<open>Tables\<close>

type_synonym section_object = "nat \<times> bytes"
type_synonym value_object = "nat \<times> conf_value"

record conf =
  conf_sections :: "(section_object, unit, unit) lhash"
  conf_values :: "(value_object, unit, unit) lhash"
  section_values :: "nat \<Rightarrow> (value_object, unit) stack"
  next_ptr :: nat
  freed :: "nat list"

definition section_hash :: "unit \<Rightarrow> section_object \<Rightarrow> u32" where
  "section_hash _ s = conf_section_hash (snd s)"

definition section_cmp :: "unit \<Rightarrow> section_object \<Rightarrow> section_object \<Rightarrow> int" where
  "section_cmp _ a b = conf_section_cmp (snd a) (snd b)"

definition value_hash :: "unit \<Rightarrow> value_object \<Rightarrow> u32" where
  "value_hash _ v = conf_value_hash (snd v)"

definition value_cmp :: "unit \<Rightarrow> value_object \<Rightarrow> value_object \<Rightarrow> int" where
  "value_cmp _ a b = conf_value_cmp (snd a) (snd b)"

lemma section_cmp_zero: "section_cmp u a b = 0 \<longleftrightarrow> cstr (snd a) = cstr (snd b)"
  by (simp add: section_cmp_def conf_section_cmp_def strcmp_zero)

lemma value_cmp_zero:
  "value_cmp u a b = 0 \<longleftrightarrow>
     cstr (value_section (snd a)) = cstr (value_section (snd b)) \<and> cstr (value_name (snd a)) = cstr (value_name (snd b))"
  by (simp add: value_cmp_def conf_value_cmp_zero)

interpretation section_table: hash_functions "section_hash ()" "section_cmp ()"
  by unfold_locales (auto simp: section_cmp_zero section_hash_def conf_section_hash_def OPENSSL_strhash_cstr)

interpretation value_table: hash_functions "value_hash ()" "value_cmp ()"
  by unfold_locales (auto simp: value_cmp_zero value_hash_def conf_value_hash_def OPENSSL_strhash_cstr Let_def)

definition conf_struct_size :: nat where "conf_struct_size = 16"
definition conf_section_size :: nat where "conf_section_size = 16"
definition conf_value_size :: nat where "conf_value_size = 24"

definition empty_stack :: "(value_object, unit) stack" where
  "empty_stack = \<lparr>num = 0, data = [], sorted_flag = False, num_alloc = 0, comp = None\<rparr>"

text \<open>\<open>meth\<close> is \<open>None\<close> for \<open>NULL\<close>, the only method there is.\<close>

definition NCONF_new :: "allocator \<Rightarrow> 'm option \<Rightarrow> conf option" where
  "NCONF_new al meth =
     (if meth \<noteq> None then None
      else case OPENSSL_malloc al conf_struct_size of None \<Rightarrow> None
      | Some _ \<Rightarrow>
          (case (OPENSSL_lh_new al () (), OPENSSL_lh_new al () ()) of
             (Some sections, Some values) \<Rightarrow>
               Some \<lparr>conf_sections = sections, conf_values = values, section_values = (\<lambda>_. empty_stack), next_ptr = 0, freed = []\<rparr>
           | _ \<Rightarrow> None))"

definition CONF_VALUE_new :: "allocator \<Rightarrow> conf \<Rightarrow> value_object option \<times> conf" where
  "CONF_VALUE_new al conf =
     (case OPENSSL_zalloc al conf_value_size of None \<Rightarrow> (None, conf)
      | Some _ \<Rightarrow> (Some (next_ptr conf, \<lparr>value_section = [], value_name = [], value_value = []\<rparr>), conf\<lparr>next_ptr := next_ptr conf + 1\<rparr>))"

definition value_free :: "value_object option \<Rightarrow> conf \<Rightarrow> conf" where
  "value_free v conf = (case v of None \<Rightarrow> conf | Some v \<Rightarrow> conf\<lparr>freed := freed conf @ [fst v]\<rparr>)"

definition section_free :: "section_object option \<Rightarrow> conf \<Rightarrow> conf" where
  "section_free s conf = (case s of None \<Rightarrow> conf | Some s \<Rightarrow> conf\<lparr>freed := freed conf @ [fst s]\<rparr>)"

definition value_free_arg :: "value_object \<Rightarrow> conf \<Rightarrow> conf" where
  "value_free_arg v conf = value_free (Some v) conf"

definition section_free_arg :: "section_object \<Rightarrow> conf \<Rightarrow> conf" where
  "section_free_arg s conf = section_free (Some s) conf"

text \<open>The state after \<open>NCONF_free\<close> stands for what the callbacks have freed.\<close>

definition NCONF_free :: "allocator \<Rightarrow> conf option \<Rightarrow> conf option" where
  "NCONF_free al conf =
     (case conf of None \<Rightarrow> None
      | Some conf \<Rightarrow>
          let conf1 = snd (OPENSSL_lh_doall_arg al (Some (conf_sections conf)) section_free_arg conf);
              conf2 = snd (OPENSSL_lh_doall_arg al (Some (conf_values conf)) value_free_arg conf1)
          in Some conf2)"

definition NCONF_new_section :: "allocator \<Rightarrow> conf \<Rightarrow> bytes \<Rightarrow> section_object option \<times> conf" where
  "NCONF_new_section al conf section =
     (case OPENSSL_malloc al conf_section_size of None \<Rightarrow> (None, conf)
      | Some _ \<Rightarrow>
          let s = next_ptr conf;
              conf = conf\<lparr>next_ptr := s + 1\<rparr>
          in (case (OPENSSL_strdup al (Some section), OPENSSL_sk_new_null al) of
            (Some name, Some values) \<Rightarrow>
              let conf = conf\<lparr>section_values := (section_values conf)(s := values)\<rparr>
              in (case OPENSSL_lh_insert al section_hash section_cmp (conf_sections conf) (s, name) of
                    (False, _, lh) \<Rightarrow> (None, section_free (Some (s, name)) (conf\<lparr>conf_sections := lh\<rparr>))
                  | (True, old_section, lh) \<Rightarrow> (Some (s, name), section_free old_section (conf\<lparr>conf_sections := lh\<rparr>)))
          | _ \<Rightarrow> (None, section_free (Some (s, [])) conf)))"

text \<open>The template that the lookups build on the stack has an address that no object has.\<close>

definition get_section :: "conf \<Rightarrow> bytes \<Rightarrow> section_object option" where
  "get_section conf section = OPENSSL_lh_retrieve section_hash section_cmp (conf_sections conf) (next_ptr conf, section)"

definition NCONF_get_section :: "conf \<Rightarrow> bytes \<Rightarrow> (value_object, unit) stack option" where
  "NCONF_get_section conf section =
     (case get_section conf section of None \<Rightarrow> None | Some section_obj \<Rightarrow> Some (section_values conf (fst section_obj)))"

definition kDefaultSectionName :: bytes where
  "kDefaultSectionName = [0x64, 0x65, 0x66, 0x61, 0x75, 0x6c, 0x74, 0]"

definition NCONF_get_string :: "conf \<Rightarrow> bytes option \<Rightarrow> bytes \<Rightarrow> bytes option" where
  "NCONF_get_string conf section name =
     (let section = (case section of None \<Rightarrow> kDefaultSectionName | Some section \<Rightarrow> section);
          templ = \<lparr>value_section = section, value_name = name, value_value = []\<rparr>
      in case OPENSSL_lh_retrieve value_hash value_cmp (conf_values conf) (next_ptr conf, templ) of
        None \<Rightarrow> None
      | Some v \<Rightarrow> Some (value_value (snd v)))"

definition add_string ::
    "allocator \<Rightarrow> (nat \<Rightarrow> value_object option) \<Rightarrow> conf \<Rightarrow> section_object \<Rightarrow> value_object \<Rightarrow> bool \<times> conf" where
  "add_string al stale conf section v =
     (case OPENSSL_strdup al (Some (snd section)) of None \<Rightarrow> (False, conf)
      | Some name \<Rightarrow>
          let v = (fst v, (snd v)\<lparr>value_section := name\<rparr>)
          in case OPENSSL_sk_push al stale (section_values conf (fst section)) (Some v) of (n, sk) \<Rightarrow>
            let set_values = (\<lambda>sk conf. conf\<lparr>section_values := (section_values conf)(fst section := the sk)\<rparr>)
            in if n = 0 then (False, set_values sk conf)
            else
              (case OPENSSL_lh_insert al value_hash value_cmp (conf_values conf) v of
                 (False, _, lh) \<Rightarrow> (False, set_values (snd (OPENSSL_sk_pop sk)) (conf\<lparr>conf_values := lh\<rparr>))
               | (True, None, lh) \<Rightarrow> (True, set_values sk (conf\<lparr>conf_values := lh\<rparr>))
               | (True, Some old_value, lh) \<Rightarrow>
                   (True, value_free (Some old_value)
                     (set_values (snd (OPENSSL_sk_delete_ptr sk (Some old_value))) (conf\<lparr>conf_values := lh\<rparr>)))))"

section \<open>Lines\<close>

text \<open>The error put on the error queue here; \<open>inner_error\<close> stands for that of a function called.\<close>

datatype conf_error =
  ERR_R_BUF_LIB | CONF_R_MISSING_CLOSE_SQUARE_BRACKET | CONF_R_MISSING_EQUAL_SIGN | CONF_R_UNABLE_TO_CREATE_NEW_SECTION
| inner_error

text \<open>
  Pointers into the line are the rest of the block as long as it is only read; \<open>offset\<close> is what such a
  pointer points at as an index into the block, to store through it.
\<close>

definition offset :: "bytes \<Rightarrow> bytes \<Rightarrow> nat" where
  "offset m p = length m - length p"

lemma scans_suffix: "suffix (eat_ws p) p" "suffix (eat_alpha_numeric p) p"
proof -
  show "suffix (eat_ws p) p"
    by (induction p rule: eat_ws.induct) (auto intro: suffix_ConsI)
  show "suffix (eat_alpha_numeric p) p"
  proof (induction p rule: eat_alpha_numeric.induct)
    case (1 p)
    have "suffix (scan_esc p) p" "suffix (tl p) p"
      by (auto simp: scan_esc_def suffix_tl intro: suffix_order.trans [OF suffix_tl suffix_tl])
    with 1 show ?case
      by (subst eat_alpha_numeric.simps) (auto intro: suffix_order.trans)
  qed
qed

text \<open>The loop at the label \<open>again\<close>: the end of a section's name, or \<open>None\<close> without the bracket.\<close>

function find_end :: "bytes \<Rightarrow> bytes option" where
  "find_end ss =
     (let end = eat_alpha_numeric ss;
          p = eat_ws end
      in if deref p \<noteq> 0x5d
      then if deref p \<noteq> 0 \<and> ss \<noteq> p then find_end p else None
      else Some end)"
  by pat_completeness auto
termination
proof (relation "measure length", goal_cases)
  case (2 ss e p)
  then have "suffix p ss"
    using scans_suffix(1) [of e] scans_suffix(2) [of ss] by (auto intro: suffix_order.trans)
  then obtain zs where "ss = zs @ p"
    by (auto simp: suffix_def)
  with 2 show ?case by (cases zs) auto
qed simp

declare find_end.simps [simp del]

text \<open>
  The loop that moves \<open>p\<close> back over white space, on indices. It stops at the latest on the equals sign in
  front of the value, or on the NUL that has taken its place.
\<close>

fun trim_back :: "bytes \<Rightarrow> nat \<Rightarrow> nat \<Rightarrow> nat" where
  "trim_back m start 0 = 0"
| "trim_back m start (Suc p) = (if Suc p \<noteq> start \<and> IS_WS (m ! Suc p) then trim_back m start p else Suc p)"

definition scan_eof :: "bytes \<Rightarrow> bytes" where
  "scan_eof p = dropWhile (\<lambda>c. \<not> IS_EOF c) p"

definition section_or_new :: "allocator \<Rightarrow> conf \<Rightarrow> bytes \<Rightarrow> section_object option \<times> conf" where
  "section_or_new al conf section =
     (case get_section conf section of Some sv \<Rightarrow> (Some sv, conf) | None \<Rightarrow> NCONF_new_section al conf section)"

text \<open>A line that starts with a bracket: the block afterwards, and the new \<open>section\<close> and \<open>sv\<close>.\<close>

definition section_line ::
    "allocator \<Rightarrow> conf \<Rightarrow> bytes \<Rightarrow> bytes \<Rightarrow> bytes \<times> (conf_error + bytes \<times> section_object) \<times> conf" where
  "section_line al conf m s =
     (let start = eat_ws (tl s)
      in case find_end start of
        None \<Rightarrow> (m, Inl CONF_R_MISSING_CLOSE_SQUARE_BRACKET, conf)
      | Some e \<Rightarrow>
          let m = m[offset m e := 0]
          in (case str_copy al (drop (offset m start) m) of
            None \<Rightarrow> (m, Inl inner_error, conf)
          | Some section \<Rightarrow>
              (case section_or_new al conf section of
                 (None, conf) \<Rightarrow> (m, Inl CONF_R_UNABLE_TO_CREATE_NEW_SECTION, conf)
               | (Some sv, conf) \<Rightarrow> (m, Inr (section, sv), conf))))"

text \<open>The end of a line with a value, from \<open>CONF_VALUE_new\<close> on; an error frees the value.\<close>

definition store_value ::
    "allocator \<Rightarrow> (nat \<Rightarrow> value_object option) \<Rightarrow> conf \<Rightarrow> bytes \<Rightarrow> section_object \<Rightarrow> bytes option \<Rightarrow> bytes \<Rightarrow> bytes \<Rightarrow>
     conf_error option \<times> conf" where
  "store_value al stale conf section sv psection pname start =
     (case CONF_VALUE_new al conf of
        (None, conf) \<Rightarrow> (Some inner_error, conf)
      | (Some v, conf) \<Rightarrow>
          let psection = (case psection of None \<Rightarrow> section | Some psection \<Rightarrow> psection)
          in (case OPENSSL_strdup al (Some pname) of
            None \<Rightarrow> (Some inner_error, value_free (Some v) conf)
          | Some name \<Rightarrow>
          (case str_copy al start of
             None \<Rightarrow> (Some inner_error, value_free (Some v) conf)
           | Some val \<Rightarrow>
               let v = (fst v, (snd v)\<lparr>value_name := name, value_value := val\<rparr>)
               in (case (if strcmp psection section \<noteq> 0 then section_or_new al conf psection else (Some sv, conf)) of
                 (None, conf) \<Rightarrow> (Some CONF_R_UNABLE_TO_CREATE_NEW_SECTION, value_free (Some v) conf)
               | (Some tv, conf) \<Rightarrow>
                   (case add_string al stale conf tv v of
                      (False, conf) \<Rightarrow> (Some inner_error, value_free (Some v) conf)
                    | (True, conf) \<Rightarrow> (None, conf))))))"

text \<open>A line with a name and a value.\<close>

definition value_line ::
    "allocator \<Rightarrow> (nat \<Rightarrow> value_object option) \<Rightarrow> conf \<Rightarrow> bytes \<Rightarrow> section_object \<Rightarrow> bytes \<Rightarrow> bytes \<Rightarrow>
     bytes \<times> conf_error option \<times> conf" where
  "value_line al stale conf section sv m s =
     (let e = eat_alpha_numeric s;
          (m, psection, pname, e) =
            (if deref e = 0x3a \<and> deref (tl e) = 0x3a
             then (m[offset m e := 0], Some s, tl (tl e), eat_alpha_numeric (tl (tl e)))
             else (m, None, s, e));
          p = eat_ws e
      in if deref p \<noteq> 0x3d then (m, Some CONF_R_MISSING_EQUAL_SIGN, conf)
      else
        let m = m[offset m e := 0];
            p = tl p;
            start = eat_ws p;
            k = trim_back m (offset m start) (offset m (scan_eof p) - 1);
            m = m[k + 1 := 0];
            at = (\<lambda>p. drop (offset m p) m)
        in (m, store_value al stale conf section sv (map_option at psection) (at pname) (at start)))"

text \<open>One whole line, as a string in the block \<open>m\<close>.\<close>

definition process_line ::
    "allocator \<Rightarrow> (nat \<Rightarrow> value_object option) \<Rightarrow> conf \<Rightarrow> bytes \<Rightarrow> section_object \<Rightarrow> bytes \<Rightarrow>
     bytes \<times> (conf_error + bytes \<times> section_object) \<times> conf" where
  "process_line al stale conf section sv m =
     (let m = clear_comments m;
          s = eat_ws m
      in if IS_EOF (deref s) then (m, Inr (section, sv), conf)
      else if deref s = 0x5b then section_line al conf m s
      else
        (case value_line al stale conf section sv m s of
           (m, None, conf) \<Rightarrow> (m, Inr (section, sv), conf)
         | (m, Some err, conf) \<Rightarrow> (m, Inl err, conf)))"

section \<open>Loading\<close>

definition CONFBUFSIZE :: nat where "CONFBUFSIZE = 512"

text \<open>
  The local variables of \<open>NCONF_load_bio\<close>. \<open>bufnum\<close> and \<open>eline\<close> are an \<open>int\<close> and a \<open>long\<close>, and overflow, which is
  undefined, for a line of more than \<open>INT_MAX\<close> bytes or as many lines as a \<open>long\<close> counts.
\<close>

record load_state =
  ld_conf :: conf
  ld_section :: bytes
  ld_sv :: section_object
  ld_buff :: buf_mem
  ld_bufnum :: nat
  ld_again :: bool
  ld_eline :: nat

text \<open>The loop that drops line ends: \<open>i\<close> afterwards.\<close>

fun strip_eol :: "bytes \<Rightarrow> nat \<Rightarrow> nat" where
  "strip_eol p 0 = 0"
| "strip_eol p (Suc i) = (if p ! i \<noteq> 0x0d \<and> p ! i \<noteq> 0x0a then Suc i else strip_eol p i)"

definition block :: "buf_mem \<Rightarrow> bytes" where
  "block buf = (case buf_data buf of None \<Rightarrow> [] | Some d \<Rightarrow> d)"

text \<open>After a read that has made \<open>d\<close> of the block and put \<open>ii\<close> characters into it: does the line end here?\<close>

definition end_of_read :: "buf_mem \<Rightarrow> load_state \<Rightarrow> bytes \<Rightarrow> nat \<Rightarrow> load_state" where
  "end_of_read buff ls d ii =
     (let i = strip_eol (drop (ld_bufnum ls) d) ii;
          long = (ii \<noteq> 0 \<and> i = ii);
          d = (if long then d else d[ld_bufnum ls + i := 0]);
          eline = (if long then ld_eline ls else ld_eline ls + 1);
          bufnum = ld_bufnum ls + i;
          cont = (bufnum \<ge> 1 \<and> IS_ESC (d ! (bufnum - 1)) \<and> (bufnum \<le> 1 \<or> \<not> IS_ESC (d ! (bufnum - 2))))
      in ls\<lparr>ld_buff := buff\<lparr>buf_data := Some d\<rparr>, ld_bufnum := (if cont then bufnum - 1 else bufnum),
           ld_again := long \<or> cont, ld_eline := eline\<rparr>)"

text \<open>Reading into the buffer; \<open>None\<close> is the end of the input.\<close>

definition read_line ::
    "('p, 'e) bio_reader option \<Rightarrow> 'p bio \<times> 'e \<Rightarrow> buf_mem \<Rightarrow> load_state \<Rightarrow> (load_state option \<times> 'p bio \<times> 'e) option" where
  "read_line bgets st buff ls =
     (let p = ld_bufnum ls;
          d = (block buff)[p := 0]
      in Option.bind (BIO_gets bgets st True (int (CONFBUFSIZE - 1))) (\<lambda>((_, t), st).
        let d = (buf_write d p t)[p + CONFBUFSIZE - 1 := 0];
            ii = strlen (drop p d)
        in if ii = 0 \<and> \<not> ld_again ls then Some (None, st)
        else Some (Some (end_of_read buff ls d ii), st)))"

text \<open>The loop's body: unless the line goes on, it is processed.\<close>

definition load_step ::
    "('p, 'e) bio_reader option \<Rightarrow> allocator \<Rightarrow> (nat \<Rightarrow> value_object option) \<Rightarrow> 'p bio \<times> 'e \<Rightarrow> load_state \<Rightarrow>
     ((conf_error option \<times> load_state + load_state) \<times> 'p bio \<times> 'e) option" where
  "load_step bgets al stale st ls =
     (case BUF_MEM_grow al (ld_buff ls) (ld_bufnum ls + CONFBUFSIZE) of (n, buff) \<Rightarrow>
        if n = 0 then Some (Inl (Some ERR_R_BUF_LIB, ls), st)
        else Option.bind (read_line bgets st buff ls) (\<lambda>(r, st).
          case r of
            None \<Rightarrow> Some (Inl (None, ls), st)
          | Some ls \<Rightarrow>
              if ld_again ls then Some (Inr ls, st)
              else
                (case process_line al stale (ld_conf ls) (ld_section ls) (ld_sv ls) (block (ld_buff ls)) of
                   (m, Inl err, conf) \<Rightarrow> Some (Inl (Some err, ls\<lparr>ld_conf := conf\<rparr>), st)
                 | (m, Inr (section, sv), conf) \<Rightarrow>
                     Some (Inr (ls\<lparr>ld_conf := conf, ld_section := section, ld_sv := sv,
                       ld_buff := (ld_buff ls)\<lparr>buf_data := Some m\<rparr>, ld_bufnum := 0\<rparr>), st))))"

partial_function (option) load_loop ::
    "('p, 'e) bio_reader option \<Rightarrow> allocator \<Rightarrow> (nat \<Rightarrow> value_object option) \<Rightarrow> 'p bio \<times> 'e \<Rightarrow> load_state \<Rightarrow>
     ((conf_error option \<times> load_state) \<times> 'p bio \<times> 'e) option" where
  "load_loop bgets al stale st ls =
     Option.bind (load_step bgets al stale st ls) (\<lambda>(r, st).
       case r of Inl done \<Rightarrow> Some (done, st) | Inr ls \<Rightarrow> load_loop bgets al stale st ls)"

declare load_loop.simps [code]

text \<open>
  The error or \<open>None\<close> for the return value 1, \<open>*out_error_line\<close> where it is set, and the configuration.
\<close>

definition NCONF_load_bio ::
    "('p, 'e) bio_reader option \<Rightarrow> allocator \<Rightarrow> (nat \<Rightarrow> value_object option) \<Rightarrow> conf \<Rightarrow> 'p bio \<times> 'e \<Rightarrow>
     ((conf_error option \<times> nat option \<times> conf) \<times> 'p bio \<times> 'e) option" where
  "NCONF_load_bio bgets al stale conf st =
     (case BUF_MEM_new al of None \<Rightarrow> Some ((Some ERR_R_BUF_LIB, Some 0, conf), st)
      | Some buff \<Rightarrow>
     (case OPENSSL_strdup al (Some kDefaultSectionName) of None \<Rightarrow> Some ((Some inner_error, Some 0, conf), st)
      | Some section \<Rightarrow>
     (case NCONF_new_section al conf section of
        (None, conf) \<Rightarrow> Some ((Some CONF_R_UNABLE_TO_CREATE_NEW_SECTION, Some 0, conf), st)
      | (Some sv, conf) \<Rightarrow>
          map_option (\<lambda>((err, ls), st). ((err, (if err = None then None else Some (ld_eline ls)), ld_conf ls), st))
            (load_loop bgets al stale st
              \<lparr>ld_conf = conf, ld_section = section, ld_sv = sv, ld_buff = buff, ld_bufnum = 0, ld_again = False, ld_eline = 0\<rparr>))))"

text \<open>\<open>BIO_new_file\<close> is code of the operating-system layer.\<close>

definition NCONF_load ::
    "(bytes \<Rightarrow> ('p bio \<times> 'e) option) \<Rightarrow> ('p, 'e) bio_reader option \<Rightarrow> allocator \<Rightarrow> (nat \<Rightarrow> value_object option) \<Rightarrow> conf \<Rightarrow> bytes \<Rightarrow>
     (conf_error option \<times> nat option \<times> conf) option" where
  "NCONF_load BIO_new_file bgets al stale conf filename =
     (case BIO_new_file filename of
        None \<Rightarrow> Some (Some inner_error, None, conf)
      | Some st \<Rightarrow> map_option fst (NCONF_load_bio bgets al stale conf st))"

end
