(* ===== verification/Conf_Load_Correct.thy ===== *)
theory Conf_Load_Correct
  imports Conf_Load
begin

text \<open>
  What \<open>NCONF_load_bio\<close> does: reading lines from a memory \<open>BIO\<close> and its termination, the invariant of the
  tables and the account of the objects, and the configuration that a text in a plain format gives.
\<close>

section \<open>Reading lines\<close>

text \<open>The block keeps its length, whatever the line.\<close>

lemma length_clear_loop [simp]: "length (clear_loop p) = length p"
proof (induction p rule: clear_loop.induct)
  case (1 p)
  have "length (scan_quote p) \<le> length p"
    using scan_quote_loop_length [of "deref p" "tl p"] by (simp add: scan_quote_def)
  moreover have "length (scan_esc p) \<le> length p"
    by (simp add: scan_esc_def)
  ultimately show ?case
    using 1 by (cases p) (simp_all add: clear_loop.simps [of p] clear_loop.simps [of "[]"] Let_def, subst clear_loop.simps, simp add: Let_def)
qed

lemma length_clear_comments [simp]: "length (clear_comments p) = length p"
proof -
  have "length (takeWhile IS_WS p) + length (dropWhile IS_WS p) = length (takeWhile IS_WS p @ dropWhile IS_WS p)"
    by (simp only: length_append)
  then show ?thesis by (simp add: clear_comments_def)
qed

lemma process_line_length:
  "process_line al stale conf section sv m = (m', r) \<Longrightarrow> length m' = length m"
  by (auto simp: process_line_def section_line_def value_line_def Let_def
      split: option.splits prod.splits if_splits)

text \<open>One read into the block \<open>d\<close>, of the bytes \<open>t\<close>.\<close>

lemma strip_eol_le: "strip_eol p i \<le> i"
  by (induction i) (auto intro: le_SucI)

definition stored :: "bytes \<Rightarrow> nat \<Rightarrow> bytes \<Rightarrow> bytes" where
  "stored d b t = (buf_write (d[b := 0]) b (t @ [0]))[b + CONFBUFSIZE - 1 := 0]"

lemma stored:
  assumes "b + CONFBUFSIZE \<le> length d" "length t < CONFBUFSIZE - 1"
  shows "length (stored d b t) = length d" "take (b + length t + 1) (stored d b t) = take b d @ t @ [0]"
proof -
  show "length (stored d b t) = length d"
    using assms by (simp add: stored_def CONFBUFSIZE_def)
  have "take (b + length (t @ [0])) (buf_write (d[b := 0]) b (t @ [0])) = take b d @ t @ [0]"
    using assms by (subst take_buf_write) (simp_all add: CONFBUFSIZE_def)
  moreover have "b + length t + 1 \<le> b + CONFBUFSIZE - 1"
    using assms by (simp add: CONFBUFSIZE_def)
  ultimately show "take (b + length t + 1) (stored d b t) = take b d @ t @ [0]"
    unfolding stored_def by (simp add: take_update_cancel)
qed

lemma stored_string:
  assumes "b + CONFBUFSIZE \<le> length d" "length t < CONFBUFSIZE - 1"
  shows "cstr (drop b (stored d b t)) = cstr (t @ [0])"
proof -
  have "take (length t + 1) (drop b (stored d b t)) = t @ [0]"
    using stored [OF assms] arg_cong [OF stored(2) [OF assms], of "drop b"] assms(1)
    by (simp add: take_drop add.commute)
  then have "drop b (stored d b t) = t @ 0 # drop (length t + 1) (drop b (stored d b t))"
    by (metis append_take_drop_id append.assoc append_Cons append_Nil)
  then obtain r where "drop b (stored d b t) = t @ 0 # r" by blast
  then show ?thesis
    by (auto simp: cstr_def takeWhile_append)
qed

text \<open>Reading a line from a memory \<open>BIO\<close>: the bytes up to and with the first newline, at most 510.\<close>

definition next_line :: "bytes \<Rightarrow> bytes" where
  "next_line c = take (line_length (min (CONFBUFSIZE - 2) (length c)) c) c"

lemma next_line: "length (next_line c) < CONFBUFSIZE - 1" "next_line c = [] \<longleftrightarrow> c = []"
proof -
  have "line_length (min (CONFBUFSIZE - 2) (length c)) c \<le> min (CONFBUFSIZE - 2) (length c)"
    by (rule line_length_le)
  then show "length (next_line c) < CONFBUFSIZE - 1"
    by (simp add: next_line_def CONFBUFSIZE_def)
  show "next_line c = [] \<longleftrightarrow> c = []"
  proof (cases "c = []")
    case False
    then have "line_length (min (CONFBUFSIZE - 2) (length c)) c \<noteq> 0"
      using line_length_pos [of "min (CONFBUFSIZE - 2) (length c)" c] by (simp add: CONFBUFSIZE_def)
    with False show ?thesis by (simp add: next_line_def)
  qed (simp add: next_line_def)
qed

lemma gets_line:
  assumes "mem_ok bio"
  obtains bio' ret where "BIO_gets (Some mem_gets) (bio, e) True (int (CONFBUFSIZE - 1)) = Some ((ret, next_line (mem_contents bio) @ [0]), bio', e)"
    "mem_ok bio'" "mem_contents bio' = drop (length (next_line (mem_contents bio))) (mem_contents bio)"
proof -
  let ?k = "line_length (min (nat (int (CONFBUFSIZE - 1) - 1)) (length (mem_contents bio))) (mem_contents bio)"
  have k: "?k = line_length (min (CONFBUFSIZE - 2) (length (mem_contents bio))) (mem_contents bio)"
    by (simp add: CONFBUFSIZE_def nat_diff_distrib')
  have "?k \<le> length (mem_contents bio)"
    unfolding k using line_length_le le_trans min.cobounded2 by blast
  then have len: "length (next_line (mem_contents bio)) = ?k"
    unfolding next_line_def k by simp
  obtain bio' where "BIO_gets (Some mem_gets) (bio, e) True (int (CONFBUFSIZE - 1)) = Some ((int ?k, take ?k (mem_contents bio) @ [0]), bio', e)"
    "mem_ok bio'" "mem_contents bio' = drop ?k (mem_contents bio)"
    by (rule BIO_gets_mem [OF assms, of "int (CONFBUFSIZE - 1)" e True]) (simp_all add: CONFBUFSIZE_def)
  then show ?thesis
    by (intro that [of "int ?k" bio']) (simp_all only: len, simp only: next_line_def k)
qed

text \<open>The state after a read of the bytes \<open>t\<close>.\<close>

definition after_read :: "buf_mem \<Rightarrow> load_state \<Rightarrow> bytes \<Rightarrow> load_state" where
  "after_read buff ls t = end_of_read buff ls (stored (block buff) (ld_bufnum ls) t) (length (cstr (t @ [0])))"

lemma read_line_mem:
  assumes ok: "mem_ok bio" and room: "ld_bufnum ls + CONFBUFSIZE \<le> length (block buff)"
  obtains bio' where "mem_ok bio'" "mem_contents bio' = drop (length (next_line (mem_contents bio))) (mem_contents bio)"
    "read_line (Some mem_gets) (bio, e) buff ls =
       Some (if cstr (next_line (mem_contents bio) @ [0]) = [] \<and> \<not> ld_again ls then None
         else Some (after_read buff ls (next_line (mem_contents bio))), bio', e)"
proof -
  obtain bio' ret where g: "BIO_gets (Some mem_gets) (bio, e) True (int (CONFBUFSIZE - 1)) = Some ((ret, next_line (mem_contents bio) @ [0]), bio', e)"
    "mem_ok bio'" "mem_contents bio' = drop (length (next_line (mem_contents bio))) (mem_contents bio)"
    by (rule gets_line [OF ok])
  define d where "d = stored (block buff) (ld_bufnum ls) (next_line (mem_contents bio))"
  have d: "(buf_write ((block buff)[ld_bufnum ls := 0]) (ld_bufnum ls) (next_line (mem_contents bio) @ [0]))[ld_bufnum ls + CONFBUFSIZE - 1 := 0] = d"
    by (simp add: d_def stored_def)
  have ii: "strlen (drop (ld_bufnum ls) d) = length (cstr (next_line (mem_contents bio) @ [0]))"
    using stored_string [OF room next_line(1)] by (simp add: strlen_def d_def)
  show ?thesis
    by (rule that [OF g(2,3)])
      (simp add: read_line_def g(1) [unfolded One_nat_def] d [unfolded One_nat_def] ii Let_def after_read_def d_def [symmetric])
qed

lemma end_of_read:
  assumes "length d = length (block buff)" "block buff \<noteq> []" "buf_mem_ok buff" "ls' = end_of_read buff ls d ii"
  shows "buf_mem_ok (ld_buff ls')" "length (block (ld_buff ls')) = length d"
    "ld_bufnum ls' \<le> ld_bufnum ls + ii" "ld_again ls' \<Longrightarrow> ii = 0 \<Longrightarrow> ld_bufnum ls' < ld_bufnum ls"
proof -
  note unfolded = assms(4) end_of_read_def Let_def
  have data: "buf_data buff \<noteq> None"
    using assms(2) by (auto simp: block_def split: option.splits)
  then show "buf_mem_ok (ld_buff ls')"
    using assms(1,3) by (auto simp: unfolded buf_mem_ok_def block_def split: option.splits)
  show "length (block (ld_buff ls')) = length d"
    by (simp add: unfolded block_def)
  have "strip_eol (drop (ld_bufnum ls) d) ii \<le> ii"
    by (rule strip_eol_le)
  then show "ld_bufnum ls' \<le> ld_bufnum ls + ii"
    by (auto simp: unfolded)
  show "ld_again ls' \<Longrightarrow> ii = 0 \<Longrightarrow> ld_bufnum ls' < ld_bufnum ls"
    by (auto simp: unfolded split: if_splits)
qed

section \<open>Termination\<close>

text \<open>
  The lengths stay within an \<open>int\<close>; what is left to do is the text not read yet and, for a line that goes on
  when there is no more text, the length of that line.
\<close>

definition reading :: "load_state \<Rightarrow> mem_bio \<Rightarrow> bool" where
  "reading ls bio \<longleftrightarrow> mem_ok bio \<and> buf_mem_ok (ld_buff ls) \<and> int (ld_bufnum ls + length (mem_contents bio)) \<le> INT_MAX"

definition left_to_do :: "(load_state \<times> mem_bio) rel" where
  "left_to_do = measures [\<lambda>(ls, bio). length (mem_contents bio), \<lambda>(ls, bio). if ld_again ls then ld_bufnum ls + 1 else 0]"

lemma grow_room:
  assumes "reading ls bio" "BUF_MEM_grow al (ld_buff ls) (ld_bufnum ls + CONFBUFSIZE) = (n, buff)" "n \<noteq> 0"
  shows "buf_mem_ok buff" "ld_bufnum ls + CONFBUFSIZE \<le> length (block buff)" "block buff \<noteq> []"
proof -
  have ok: "buf_mem_ok (ld_buff ls)" and "ld_bufnum ls + CONFBUFSIZE < SIZE_MOD"
    using assms(1) by (auto simp: reading_def INT_MAX_def CONFBUFSIZE_def SIZE_MOD_def)
  note g = BUF_MEM_grow_ok [OF ok assms(2,3) this(2)]
  then show "buf_mem_ok buff" by blast
  from g have "length (buf_contents buff) \<ge> ld_bufnum ls + CONFBUFSIZE"
    using length_buf_contents [OF ok] by simp
  then show "ld_bufnum ls + CONFBUFSIZE \<le> length (block buff)"
    by (auto simp: buf_contents_def block_def split: option.splits)
  then show "block buff \<noteq> []" by (auto simp: CONFBUFSIZE_def)
qed

lemma after_read_reading:
  assumes r: "reading ls bio" and buff: "buf_mem_ok buff" "ld_bufnum ls + CONFBUFSIZE \<le> length (block buff)" "block buff \<noteq> []"
    and bio': "mem_ok bio'" "mem_contents bio' = drop (length (next_line (mem_contents bio))) (mem_contents bio)"
    and go: "cstr (next_line (mem_contents bio) @ [0]) \<noteq> [] \<or> ld_again ls"
  defines "ls' \<equiv> after_read buff ls (next_line (mem_contents bio))"
  shows "reading ls' bio' \<and> ((ls', bio'), (ls, bio)) \<in> left_to_do \<and> length (block (ld_buff ls')) = length (block buff)"
proof -
  let ?t = "next_line (mem_contents bio)"
  define d where "d = stored (block buff) (ld_bufnum ls) ?t"
  have d: "length d = length (block buff)"
    unfolding d_def by (rule stored(1) [OF buff(2) next_line(1)])
  have ls': "ls' = end_of_read buff ls d (length (cstr (?t @ [0])))"
    by (simp add: ls'_def after_read_def d_def)
  note e = end_of_read [OF d buff(3,1) ls']
  have "length (cstr (?t @ [0])) \<le> length ?t"
    by (auto simp: cstr_def takeWhile_append length_takeWhile_le)
  moreover have t: "length ?t \<le> length (mem_contents bio)"
    by (simp add: next_line_def)
  ultimately have "ld_bufnum ls' + length (mem_contents bio') \<le> ld_bufnum ls + length (mem_contents bio)"
    using e(3) bio'(2) by simp
  then have "reading ls' bio'"
    using r bio'(1) e(1) by (auto simp: reading_def)
  moreover have "((ls', bio'), (ls, bio)) \<in> left_to_do"
  proof (cases "mem_contents bio = []")
    case True
    then have "?t = []" by (simp add: next_line(2))
    with go have "ld_again ls" "cstr (?t @ [0]) = []" by (auto simp: cstr_def)
    with True bio'(2) e(4) show ?thesis by (auto simp: left_to_do_def)
  next
    case False
    with next_line(2) have "?t \<noteq> []" by blast
    with False bio'(2) t show ?thesis by (auto simp: left_to_do_def)
  qed
  ultimately show ?thesis using e(2) d by simp
qed

lemma load_step_mem:
  assumes "reading ls bio"
  obtains r bio' where "load_step (Some mem_gets) al stale (bio, e) ls = Some (r, bio', e)"
    "\<forall>ls'. r = Inr ls' \<longrightarrow> reading ls' bio' \<and> ((ls', bio'), (ls, bio)) \<in> left_to_do"
proof -
  obtain n buff where g: "BUF_MEM_grow al (ld_buff ls) (ld_bufnum ls + CONFBUFSIZE) = (n, buff)" by (rule prod.exhaust)
  show ?thesis
  proof (cases "n = 0")
    case True
    with g show ?thesis by (intro that [of "Inl (Some ERR_R_BUF_LIB, ls)" bio]) (simp_all add: load_step_def)
  next
    case False
    note room = grow_room [OF assms g False]
    obtain bio' where bio': "mem_ok bio'" "mem_contents bio' = drop (length (next_line (mem_contents bio))) (mem_contents bio)"
      "read_line (Some mem_gets) (bio, e) buff ls =
         Some (if cstr (next_line (mem_contents bio) @ [0]) = [] \<and> \<not> ld_again ls then None
           else Some (after_read buff ls (next_line (mem_contents bio))), bio', e)"
      by (rule read_line_mem [OF _ room(2)]) (use assms in \<open>auto simp: reading_def\<close>)
    show ?thesis
    proof (cases "cstr (next_line (mem_contents bio) @ [0]) = [] \<and> \<not> ld_again ls")
      case True
      with g False bio'(3) show ?thesis by (intro that [of "Inl (None, ls)" bio']) (simp_all add: load_step_def)
    next
      case go: False
      define ls1 where "ls1 = after_read buff ls (next_line (mem_contents bio))"
      have ls1: "reading ls1 bio'" "((ls1, bio'), (ls, bio)) \<in> left_to_do" "length (block (ld_buff ls1)) = length (block buff)"
        using after_read_reading [OF assms room bio'(1,2)] go by (auto simp: ls1_def)
      have read: "read_line (Some mem_gets) (bio, e) buff ls = Some (Some ls1, bio', e)"
        using bio'(3) go by (auto simp: ls1_def)
      show ?thesis
      proof (cases "ld_again ls1")
        case True
        with g False read ls1 show ?thesis by (intro that [of "Inr ls1" bio']) (auto simp: load_step_def)
      next
        case ended: False
        obtain m r conf where p: "process_line al stale (ld_conf ls1) (ld_section ls1) (ld_sv ls1) (block (ld_buff ls1)) = (m, r, conf)"
          by (rule prod_cases3)
        have "length m = length (block (ld_buff ls1))"
          by (rule process_line_length [OF p])
        with ls1 room(3) have "buf_mem_ok ((ld_buff ls1)\<lparr>buf_data := Some m\<rparr>)"
          by (auto simp: reading_def buf_mem_ok_def block_def split: option.splits)
        with ls1 ended have after: "reading (ls1\<lparr>ld_conf := conf, ld_section := s, ld_sv := sv, ld_buff := (ld_buff ls1)\<lparr>buf_data := Some m\<rparr>, ld_bufnum := 0\<rparr>) bio'"
          "((ls1\<lparr>ld_conf := conf, ld_section := s, ld_sv := sv, ld_buff := (ld_buff ls1)\<lparr>buf_data := Some m\<rparr>, ld_bufnum := 0\<rparr>, bio'), (ls, bio)) \<in> left_to_do"
          for s sv
          by (auto simp: reading_def left_to_do_def)
        show ?thesis
        proof (cases r)
          case (Inl err)
          with g False read ended p show ?thesis
            by (intro that [of "Inl (Some err, ls1\<lparr>ld_conf := conf\<rparr>)" bio']) (simp_all add: load_step_def)
        next
          case (Inr s)
          with g False read ended p have "load_step (Some mem_gets) al stale (bio, e) ls =
              Some (Inr (ls1\<lparr>ld_conf := conf, ld_section := fst s, ld_sv := snd s, ld_buff := (ld_buff ls1)\<lparr>buf_data := Some m\<rparr>, ld_bufnum := 0\<rparr>), bio', e)"
            by (cases s) (simp add: load_step_def)
          then show ?thesis
            by (rule that) (use after [where s = "fst s" and sv = "snd s"] in auto)
        qed
      qed
    qed
  qed
qed

lemma wf_left_to_do: "wf left_to_do"
  by (simp add: left_to_do_def)

lemma load_loop_total:
  "reading ls bio \<Longrightarrow> \<exists>err ls' bio'. load_loop (Some mem_gets) al stale (bio, e) ls = Some ((err, ls'), bio', e)"
proof (induction "(ls, bio)" arbitrary: ls bio rule: wf_induct_rule [OF wf_left_to_do, case_names less])
  case less
  obtain r bio' where s: "load_step (Some mem_gets) al stale (bio, e) ls = Some (r, bio', e)"
    "\<forall>ls'. r = Inr ls' \<longrightarrow> reading ls' bio' \<and> ((ls', bio'), (ls, bio)) \<in> left_to_do"
    by (rule load_step_mem [OF less.prems, of al stale e])
  show ?case
  proof (cases r)
    case (Inl out)
    with s(1) show ?thesis
      by (cases out) (simp add: load_loop.simps [of _ _ _ "(bio, e)"])
  next
    case (Inr ls')
    with s(2) have "\<exists>err ls'' bio''. load_loop (Some mem_gets) al stale (bio', e) ls' = Some ((err, ls''), bio'', e)"
      using less.hyps by blast
    with s(1) Inr show ?thesis
      by (simp add: load_loop.simps [of _ _ _ "(bio, e)"])
  qed
qed

section \<open>Tables as sets\<close>

lemma lh_map_Some:
  assumes "lh_ok hash cmp lh" "lh_functions hash cmp lh"
  shows "lh_map cmp lh x = Some y \<longleftrightarrow> y \<in> set (lh_items lh) \<and> cmp (lh_comp lh) y x = 0"
  using assms unfolding lh_map_def lh_functions_def lh_ok_def by (simp add: hash_functions.lookup_Some)

lemma lh_items_distinct:
  assumes "lh_ok hash cmp lh" "lh_functions hash cmp lh"
  shows "distinct (lh_items lh)"
proof (rule ccontr)
  assume "\<not> distinct (lh_items lh)"
  then obtain xs ys zs y where "lh_items lh = xs @ [y] @ ys @ [y] @ zs"
    using not_distinct_decomp by blast
  then have "{#y, y#} \<subseteq># mset (lh_items lh)"
    by simp
  with assms(1) have "cmp (lh_comp lh) y y \<noteq> 0"
    by (simp add: lh_ok_def unique_def)
  with assms(2) show False
    by (simp add: lh_functions_def hash_functions.cmp_refl)
qed

lemma mset_distinct_eq:
  assumes "distinct xs" "distinct ys" "set ys = insert x (set xs - set zs)" "x \<notin> set xs" "distinct zs" "set zs \<subseteq> set xs"
  shows "mset ys + mset zs = add_mset x (mset xs)"
proof (rule multiset_eqI)
  have c: "count (mset l) z = (if z \<in> set l then 1 else 0)" if "distinct l" for l and z :: 'a
    using that by (simp add: distinct_count_atmost_1)
  show "count (mset ys + mset zs) z = count (add_mset x (mset xs)) z" for z
    using assms by (auto simp: c)
qed

lemma lh_items_iff:
  assumes "lh_ok hash cmp lh" "lh_functions hash cmp lh"
  shows "x \<in> set (lh_items lh) \<longleftrightarrow> lh_map cmp lh x = Some x"
  using assms lh_map_Some [OF assms, of x x] by (simp add: lh_functions_def hash_functions.cmp_refl)

lemma insert_items:
  fixes lh :: "('a, unit, unit) lhash"
  assumes ok: "lh_ok hash cmp lh" and hf: "hash_functions (hash ()) (cmp ())" and room: "num_items lh + 1 < SIZE_MOD"
    and ins: "OPENSSL_lh_insert al hash cmp lh x = (True, old, lh')" and new: "x \<notin> set (lh_items lh)"
  shows "lh_ok hash cmp lh' \<and>
    mset (lh_items lh') + mset (case old of None \<Rightarrow> [] | Some y \<Rightarrow> [y]) = add_mset x (mset (lh_items lh)) \<and>
    set (lh_items lh') = insert x {y \<in> set (lh_items lh). cmp () x y \<noteq> 0} \<and>
    (\<forall>y. old = Some y \<longrightarrow> y \<in> set (lh_items lh) \<and> cmp () x y = 0)"
proof -
  let ?old = "case old of None \<Rightarrow> [] | Some y \<Rightarrow> [y]"
  have lf: "lh_functions hash cmp lh" for lh :: "('a, unit, unit) lhash"
    using hf by (simp add: lh_functions_def)
  note i = OPENSSL_lh_insert_ok [OF ok lf room ins]
  then have ok': "lh_ok hash cmp lh'" by blast
  have sets: "set (lh_items lh') = insert x {y \<in> set (lh_items lh). cmp () x y \<noteq> 0}"
    using i by (auto simp: lh_items_iff [OF ok' lf] lh_items_iff [OF ok lf] hash_functions.cmp_refl [OF hf] split: if_splits)
  have old: "old = Some y \<longleftrightarrow> y \<in> set (lh_items lh) \<and> cmp () x y = 0" for y
    using i lh_map_Some [OF ok lf, of x y] hash_functions.cmp_sym [OF hf] by auto
  have zs: "set ?old = {y \<in> set (lh_items lh). cmp () x y = 0}"
    using old by (cases old) (auto, metis)
  have "mset (lh_items lh') + mset ?old = add_mset x (mset (lh_items lh))"
    by (rule mset_distinct_eq [OF lh_items_distinct [OF ok lf] lh_items_distinct [OF ok' lf]])
      (use sets zs new in \<open>auto split: option.splits\<close>)
  with ok' sets old show ?thesis by blast
qed

section \<open>The invariant of a configuration\<close>

text \<open>
  A section's list holds values of the table that belong to the section, each once; the objects allocated
  are, each once, those freed, those in the tables and those that the caller still holds.
\<close>

definition section_ok :: "conf \<Rightarrow> section_object \<Rightarrow> bool" where
  "section_ok conf s \<longleftrightarrow>
     stack_ok (section_values conf (fst s)) \<and> distinct (elems (section_values conf (fst s))) \<and>
     (\<forall>e \<in> set (elems (section_values conf (fst s))). \<exists>v. e = Some v \<and>
        v \<in> set (lh_items (conf_values conf)) \<and> cstr (value_section (snd v)) = cstr (snd s))"

definition accounted :: "nat list \<Rightarrow> conf \<Rightarrow> bool" where
  "accounted loose conf \<longleftrightarrow>
     mset (freed conf) + mset (map fst (lh_items (conf_sections conf))) + mset (map fst (lh_items (conf_values conf))) + mset loose =
     mset [0..<next_ptr conf]"

definition conf_ok :: "nat list \<Rightarrow> conf \<Rightarrow> bool" where
  "conf_ok loose conf \<longleftrightarrow>
     lh_ok section_hash section_cmp (conf_sections conf) \<and> lh_ok value_hash value_cmp (conf_values conf) \<and>
     accounted loose conf \<and> (\<forall>s \<in> set (lh_items (conf_sections conf)). section_ok conf s)"

abbreviation stored_sections :: "conf \<Rightarrow> section_object set" where
  "stored_sections conf \<equiv> set (lh_items (conf_sections conf))"

abbreviation stored_values :: "conf \<Rightarrow> value_object set" where
  "stored_values conf \<equiv> set (lh_items (conf_values conf))"

lemma accounted_distinct:
  assumes "accounted loose conf"
  shows "distinct (freed conf @ map fst (lh_items (conf_sections conf)) @ map fst (lh_items (conf_values conf)) @ loose)"
    "length (lh_items (conf_sections conf)) + length (lh_items (conf_values conf)) + length loose \<le> next_ptr conf"
    "s \<in> stored_sections conf \<Longrightarrow> fst s < next_ptr conf" "v \<in> stored_values conf \<Longrightarrow> fst v < next_ptr conf" "p \<in> set loose \<Longrightarrow> p < next_ptr conf"
proof -
  let ?l = "freed conf @ map fst (lh_items (conf_sections conf)) @ map fst (lh_items (conf_values conf)) @ loose"
  have m: "mset ?l = mset [0..<next_ptr conf]"
    using assms by (simp add: accounted_def ac_simps)
  show "distinct ?l"
    using mset_eq_imp_distinct_iff [OF m] by (simp only: distinct_upt)
  have "length ?l = next_ptr conf"
    using mset_eq_length [OF m] by (simp only: length_upt diff_zero)
  then show "length (lh_items (conf_sections conf)) + length (lh_items (conf_values conf)) + length loose \<le> next_ptr conf"
    by simp
  have less: "p \<in> set ?l \<Longrightarrow> p < next_ptr conf" for p
    using mset_eq_setD [OF m] by (metis atLeastLessThan_iff set_upt)
  show "s \<in> stored_sections conf \<Longrightarrow> fst s < next_ptr conf" "v \<in> stored_values conf \<Longrightarrow> fst v < next_ptr conf"
    "p \<in> set loose \<Longrightarrow> p < next_ptr conf"
    by (rule less, simp)+
qed

lemma same_section:
  assumes "accounted loose conf" "s \<in> stored_sections conf" "t \<in> stored_sections conf" "fst s = fst t"
  shows "s = t"
  using accounted_distinct(1) [OF assms(1)] assms(2-4) by (auto simp: distinct_map inj_on_def)

text \<open>Every value of the table is in a list: so it is after loading into a new configuration.\<close>

definition listed :: "conf \<Rightarrow> bool" where
  "listed conf \<longleftrightarrow> (\<forall>v \<in> stored_values conf. \<exists>s \<in> stored_sections conf. Some v \<in> set (elems (section_values conf (fst s))))"

lemma listed_mono:
  assumes "listed conf" "conf_values conf' = conf_values conf" "stored_sections conf \<subseteq> stored_sections conf'"
    and "\<And>s. s \<in> stored_sections conf \<Longrightarrow> elems (section_values conf' (fst s)) = elems (section_values conf (fst s))"
  shows "listed conf'"
  unfolding listed_def
proof
  fix v assume "v \<in> stored_values conf'"
  with assms(1,2) obtain s where "s \<in> stored_sections conf" "Some v \<in> set (elems (section_values conf (fst s)))"
    unfolding listed_def by auto
  with assms(3) assms(4) [of s] show "\<exists>s \<in> stored_sections conf'. Some v \<in> set (elems (section_values conf' (fst s)))"
    by (intro bexI [of _ s]) auto
qed

lemma section_ok_simps [simp]:
  "section_ok (conf\<lparr>next_ptr := n\<rparr>) s = section_ok conf s" "section_ok (conf\<lparr>freed := f\<rparr>) s = section_ok conf s"
  "section_ok (conf\<lparr>conf_sections := lh\<rparr>) s = section_ok conf s"
  "fst s \<noteq> p \<Longrightarrow> section_ok (conf\<lparr>section_values := (section_values conf)(p := sk)\<rparr>) s = section_ok conf s"
  by (simp_all add: section_ok_def)

lemma cstr_strdup: "OPENSSL_strdup al (Some s) = Some t \<Longrightarrow> cstr t = cstr s"
proof -
  assume "OPENSSL_strdup al (Some s) = Some t"
  then have "t = take (strlen s + 1) s"
    by (auto simp: OPENSSL_strdup_def Let_def split: option.splits)
  moreover have "cstr (take (strlen s + 1) s) = cstr s"
    by (induction s) (auto simp: cstr_def strlen_def)
  ultimately show ?thesis by simp
qed

text \<open>The objects an insertion has replaced, as what is freed of them.\<close>

abbreviation replaced :: "(nat \<times> 'b) option \<Rightarrow> (nat \<times> 'b) list" where
  "replaced old \<equiv> (case old of None \<Rightarrow> [] | Some y \<Rightarrow> [y])"

lemma free_replaced:
  "section_free s conf = conf\<lparr>freed := freed conf @ map fst (replaced s)\<rparr>"
  "value_free v conf = conf\<lparr>freed := freed conf @ map fst (replaced v)\<rparr>"
  by (cases s, simp_all add: section_free_def, cases v, simp_all add: value_free_def)

lemma mset_fst_insert:
  assumes "mset xs' + mset olds = add_mset x (mset xs)"
  shows "mset (map fst xs') + mset (map fst olds) = add_mset (fst x) (mset (map fst xs))"
  using arg_cong [OF assms, of "image_mset fst"] by simp

lemma new_section_ok:
  assumes ok: "conf_ok loose conf" and run: "NCONF_new_section al conf name = (r, conf')" and room: "next_ptr conf' < SIZE_MOD"
  shows "conf_ok loose conf' \<and> next_ptr conf \<le> next_ptr conf' \<and> conf_values conf' = conf_values conf \<and>
    stored_sections conf' = (case r of None \<Rightarrow> stored_sections conf
      | Some s \<Rightarrow> insert s {y \<in> stored_sections conf. section_cmp () s y \<noteq> 0}) \<and>
    (\<forall>s. r = Some s \<longrightarrow> cstr (snd s) = cstr name)"
proof -
  let ?p = "next_ptr conf"
  note ok' = ok [unfolded conf_ok_def accounted_def]
  note acc = accounted_distinct [of loose conf]
  have acc0: "accounted loose conf" using ok by (simp add: conf_ok_def)
  have fresh: "fst s \<noteq> ?p" if "s \<in> stored_sections conf" for s
    using acc(3) [OF acc0 that] by simp
  consider "OPENSSL_malloc al conf_section_size = None"
    | d where "OPENSSL_malloc al conf_section_size = Some d" "OPENSSL_strdup al (Some name) = None \<or> (OPENSSL_sk_new_null al :: (value_object, unit) stack option) = None"
    | d n and sk :: "(value_object, unit) stack" where "OPENSSL_malloc al conf_section_size = Some d" "OPENSSL_strdup al (Some name) = Some n" "OPENSSL_sk_new_null al = Some sk"
    by (cases "OPENSSL_malloc al conf_section_size"; cases "OPENSSL_strdup al (Some name)";
        cases "OPENSSL_sk_new_null al :: (value_object, unit) stack option") auto
  then show ?thesis
  proof cases
    case 1
    with ok run show ?thesis by (auto simp: NCONF_new_section_def)
  next
    case 2
    then have "r = None" "conf' = conf\<lparr>next_ptr := ?p + 1, freed := freed conf @ [?p]\<rparr>"
      using run by (auto simp: NCONF_new_section_def Let_def section_free_def split: option.splits)
    with ok' show ?thesis
      by (simp add: conf_ok_def accounted_def)
  next
    case (3 d n sk)
    obtain b old lh where ins: "OPENSSL_lh_insert al section_hash section_cmp (conf_sections conf) (?p, n) = (b, old, lh)"
      by (rule prod_cases3)
    define conf1 where "conf1 = conf\<lparr>next_ptr := ?p + 1, section_values := (section_values conf)(?p := sk), conf_sections := lh\<rparr>"
    have other: "section_ok (conf1\<lparr>freed := f\<rparr>) s = section_ok conf s" if "s \<in> stored_sections conf" for s f
      using fresh [OF that] by (simp add: conf1_def section_ok_def)
    show ?thesis
    proof (cases b)
      case False
      with ins OPENSSL_lh_insert_fails [of al section_hash section_cmp "conf_sections conf" "(?p, n)" old lh]
      have "lh = conf_sections conf" by simp
      moreover from this have "r = None" "conf' = conf1\<lparr>freed := freed conf @ [?p]\<rparr>"
        using run 3 ins False by (simp_all add: NCONF_new_section_def Let_def section_free_def conf1_def)
      ultimately show ?thesis
        using ok' other by (simp add: conf_ok_def accounted_def conf1_def)
    next
      case True
      then have r: "r = Some (?p, n)" "conf' = conf1\<lparr>freed := freed conf @ map fst (replaced old)\<rparr>"
        using run 3 ins by (simp_all add: NCONF_new_section_def Let_def free_replaced conf1_def)
      have "num_items (conf_sections conf) = length (lh_items (conf_sections conf))"
        using ok' by (simp add: lh_ok_def)
      then have "num_items (conf_sections conf) + 1 < SIZE_MOD"
        using acc(2) [OF acc0] room r by (simp add: conf1_def)
      moreover have "(?p, n) \<notin> stored_sections conf"
        using fresh [of "(?p, n)"] by auto
      ultimately have i: "lh_ok section_hash section_cmp lh"
        "mset (lh_items lh) + mset (replaced old) = add_mset (?p, n) (mset (lh_items (conf_sections conf)))"
        "set (lh_items lh) = insert (?p, n) {y \<in> stored_sections conf. section_cmp () (?p, n) y \<noteq> 0}"
        using insert_items [where hash = section_hash and cmp = section_cmp and lh = "conf_sections conf" and al = al
            and x = "(?p, n)" and old = old and lh' = lh] section_table.hash_functions_axioms ok' ins True
        by simp_all
      have "section_ok conf' (?p, n)"
        using OPENSSL_sk_new_ok [OF 3(3) [unfolded OPENSSL_sk_new_null_def]] by (simp add: r(2) conf1_def section_ok_def)
      then have "\<forall>s \<in> set (lh_items lh). section_ok conf' s"
        using i(3) ok' other by (auto simp: r(2))
      moreover have "accounted loose conf'"
        using mset_fst_insert [OF i(2)] ok' by (simp add: r(2) conf1_def accounted_def ac_simps)
      ultimately show ?thesis
        using i ok' r cstr_strdup [OF 3(2)] by (simp add: conf_ok_def conf1_def)
    qed
  qed
qed

lemma get_section_Some:
  assumes "conf_ok loose conf"
  shows "get_section conf name = Some s \<longleftrightarrow> s \<in> stored_sections conf \<and> cstr (snd s) = cstr name"
proof -
  have ok: "lh_ok section_hash section_cmp (conf_sections conf)" "lh_functions section_hash section_cmp (conf_sections conf)"
    using assms section_table.hash_functions_axioms by (simp_all add: conf_ok_def lh_functions_def)
  show ?thesis
    by (simp add: get_section_def OPENSSL_lh_retrieve_eq [OF ok] lh_map_Some [OF ok] section_cmp_zero)
qed

lemma section_unique:
  assumes "conf_ok loose conf" "s \<in> stored_sections conf" "t \<in> stored_sections conf" "cstr (snd s) = cstr (snd t)"
  shows "s = t"
  using get_section_Some [OF assms(1), of "snd t" s] get_section_Some [OF assms(1), of "snd t" t] assms by simp

lemma value_unique:
  assumes "conf_ok loose conf" "v \<in> stored_values conf" "w \<in> stored_values conf" "value_cmp () v w = 0"
  shows "v = w"
proof -
  have ok: "lh_ok value_hash value_cmp (conf_values conf)" "lh_functions value_hash value_cmp (conf_values conf)"
    using assms value_table.hash_functions_axioms by (simp_all add: conf_ok_def lh_functions_def)
  show ?thesis
    using lh_map_Some [OF ok, of w v] lh_map_Some [OF ok, of w w] assms by (simp add: value_table.cmp_refl)
qed

text \<open>A new section leaves the lists of the others alone.\<close>

lemma section_or_new_lists:
  assumes "section_or_new al conf name = (r, conf')" "p \<noteq> next_ptr conf"
  shows "section_values conf' p = section_values conf p"
  using assms
  by (auto simp: section_or_new_def NCONF_new_section_def section_free_def Let_def split: option.splits prod.splits bool.splits)

lemma section_or_new_ok:
  assumes ok: "conf_ok loose conf" and run: "section_or_new al conf name = (r, conf')" and room: "next_ptr conf' < SIZE_MOD"
  shows "conf_ok loose conf' \<and> next_ptr conf \<le> next_ptr conf' \<and> conf_values conf' = conf_values conf \<and>
    stored_sections conf \<subseteq> stored_sections conf' \<and> (listed conf \<longrightarrow> listed conf') \<and>
    (\<forall>s. r = Some s \<longrightarrow> s \<in> stored_sections conf' \<and> cstr (snd s) = cstr name)"
proof (cases "get_section conf name")
  case None
  then have "cstr (snd s) \<noteq> cstr name" if "s \<in> stored_sections conf" for s
    using get_section_Some [OF ok, of name s] that by auto
  moreover have "NCONF_new_section al conf name = (r, conf')"
    using None run by (simp add: section_or_new_def)
  note new = new_section_ok [OF ok this room]
  ultimately have sub: "stored_sections conf \<subseteq> stored_sections conf'"
    by (cases r) (auto simp: section_cmp_zero, metis+)
  have "section_values conf' (fst s) = section_values conf (fst s)" if "s \<in> stored_sections conf" for s
    using section_or_new_lists [OF run] accounted_distinct(3) [of loose conf s] ok that by (simp add: conf_ok_def)
  with new sub have "listed conf \<longrightarrow> listed conf'"
    using listed_mono [of conf conf'] by auto
  with new sub show ?thesis by (cases r) auto
next
  case (Some s)
  with run ok get_section_Some [OF ok, of name s] show ?thesis
    by (auto simp: section_or_new_def)
qed

lemma conf_ok_loose: "conf_ok l conf \<longleftrightarrow> conf_ok l' conf" if "mset l = mset l'"
  using that by (simp add: conf_ok_def accounted_def)

lemma CONF_VALUE_new_ok:
  assumes "conf_ok loose conf" "CONF_VALUE_new al conf = (r, conf')"
  shows "conf_sections conf' = conf_sections conf \<and> conf_values conf' = conf_values conf \<and> next_ptr conf \<le> next_ptr conf' \<and>
    section_values conf' = section_values conf \<and> (case r of None \<Rightarrow> conf' = conf | Some v \<Rightarrow> conf_ok (fst v # loose) conf')"
  using assms by (auto simp: CONF_VALUE_new_def conf_ok_def accounted_def atLeastLessThanSuc split: option.splits)

lemma value_free_ok:
  assumes "conf_ok (fst v # loose) conf"
  shows "conf_ok loose (value_free (Some v) conf)" "conf_sections (value_free (Some v) conf) = conf_sections conf"
    "conf_values (value_free (Some v) conf) = conf_values conf" "next_ptr (value_free (Some v) conf) = next_ptr conf"
    "listed (value_free (Some v) conf) = listed conf"
  using assms by (auto simp: value_free_def conf_ok_def accounted_def listed_def)

text \<open>Pushing on a section's list, and taking it back.\<close>

lemma push_Some:
  assumes "stack_ok sk" "OPENSSL_sk_push al stale sk p = (n, sk')" "n \<noteq> 0"
  obtains sk1 where "sk' = Some sk1" "stack_ok sk1" "elems sk1 = elems sk @ [p]" "num sk1 = num sk + 1"
proof -
  obtain sk1 where sk1: "sk' = Some sk1"
    using assms(2,3) by (auto simp: OPENSSL_sk_push_def OPENSSL_sk_insert_def split: if_splits option.splits)
  with OPENSSL_sk_insert_Some [OF assms(1), of al stale p "num sk" n sk1] assms(2,3) length_elems [OF assms(1)] that show ?thesis
    by (simp add: OPENSSL_sk_push_def)
qed

lemma pop_pushed:
  assumes "stack_ok sk1" "elems sk1 = xs @ [p]" "num sk1 = length xs + 1"
  obtains sk2 where "snd (OPENSSL_sk_pop (Some sk1)) = Some sk2" "stack_ok sk2" "elems sk2 = xs"
proof -
  obtain sk2 where "OPENSSL_sk_delete (Some sk1) (num sk1 - 1) = (elems sk1 ! (num sk1 - 1), Some sk2)" "stack_ok sk2"
    "elems sk2 = take (num sk1 - 1) (elems sk1) @ drop (Suc (num sk1 - 1)) (elems sk1)"
    using OPENSSL_sk_delete_eq [OF assms(1), of "num sk1 - 1"] assms(3) by auto
  with assms(2,3) that show ?thesis
    by (simp add: OPENSSL_sk_pop_def)
qed

definition with_values :: "conf \<Rightarrow> section_object \<Rightarrow> (value_object, unit) stack \<Rightarrow> conf" where
  "with_values conf s sk = conf\<lparr>section_values := (section_values conf)(fst s := sk)\<rparr>"

lemma with_values_ok:
  assumes "conf_ok loose conf" "s \<in> stored_sections conf" "stack_ok sk" "elems sk = elems (section_values conf (fst s))"
  shows "conf_ok loose (with_values conf s sk) \<and> (listed conf \<longrightarrow> listed (with_values conf s sk))"
proof -
  have acc: "accounted loose conf" using assms(1) by (simp add: conf_ok_def)
  have "section_ok (with_values conf s sk) t" if "t \<in> stored_sections conf" for t
    using that assms same_section [OF acc that assms(2)] by (auto simp: conf_ok_def with_values_def section_ok_def)
  moreover have "listed conf \<longrightarrow> listed (with_values conf s sk)"
    using listed_mono [of conf "with_values conf s sk"] assms(4) by (simp add: with_values_def)
  ultimately show ?thesis
    using assms(1) by (simp add: conf_ok_def accounted_def with_values_def)
qed

text \<open>The state after the value \<open>v\<close> has been stored: \<open>old\<close> is gone, the section's list is \<open>sk\<close>.\<close>

lemma stored_value_ok:
  assumes ok: "conf_ok (fst v # loose) conf" and s: "s \<in> stored_sections conf" and room: "next_ptr conf < SIZE_MOD"
    and v: "cstr (value_section (snd v)) = cstr (snd s)"
    and ins: "OPENSSL_lh_insert al value_hash value_cmp (conf_values conf) v = (True, old, lh)"
    and sk: "stack_ok sk" "elems sk = (case old of None \<Rightarrow> id | Some y \<Rightarrow> remove1 (Some y)) (elems (section_values conf (fst s)) @ [Some v])"
  defines "conf' \<equiv> value_free old (with_values (conf\<lparr>conf_values := lh\<rparr>) s sk)"
  shows "conf_ok loose conf' \<and> stored_values conf' = insert v {y \<in> stored_values conf. value_cmp () v y \<noteq> 0} \<and>
    (listed conf \<longrightarrow> listed conf')"
proof -
  have acc: "accounted (fst v # loose) conf" and ok': "lh_ok value_hash value_cmp (conf_values conf)"
    using ok by (simp_all add: conf_ok_def)
  have fresh: "v \<notin> stored_values conf"
    using accounted_distinct(1) [OF acc] by auto
  have "num_items (conf_values conf) + 1 < SIZE_MOD"
    using accounted_distinct(2) [OF acc] ok' room by (simp add: lh_ok_def)
  then have i: "lh_ok value_hash value_cmp lh" "mset (lh_items lh) + mset (replaced old) = add_mset v (mset (lh_items (conf_values conf)))"
    "set (lh_items lh) = insert v {y \<in> stored_values conf. value_cmp () v y \<noteq> 0}"
    "\<forall>y. old = Some y \<longrightarrow> y \<in> stored_values conf \<and> value_cmp () v y = 0"
    using insert_items [where hash = value_hash and cmp = value_cmp and lh = "conf_values conf" and al = al
        and x = v and old = old and lh' = lh] value_table.hash_functions_axioms ok' ins fresh
    by simp_all
  have kept: "y \<in> set (lh_items lh)" if "y \<in> stored_values conf" "old \<noteq> Some y" for y
  proof -
    have "y \<in># mset (lh_items lh) + mset (replaced old)"
      unfolding i(2) using that(1) by simp
    with that(2) show ?thesis by (auto split: option.splits)
  qed
  have "section_ok conf' t" if t: "t \<in> stored_sections conf" for t
  proof -
    have tok: "section_ok conf t" using ok t by (simp add: conf_ok_def)
    show ?thesis
    proof (cases "t = s")
      case True
      have new: "Some v \<notin> set (elems (section_values conf (fst s)))"
        using tok fresh True by (auto simp: section_ok_def)
      then have "distinct (elems sk)"
        using tok True sk(2) by (auto simp: section_ok_def split: option.splits)
      moreover have mem: "e \<in> set (elems sk) \<longleftrightarrow> (e = Some v \<or> e \<in> set (elems (section_values conf (fst s)))) \<and> e \<noteq> old" for e
        using tok True sk(2) new by (auto simp: section_ok_def split: option.splits)
      have "\<exists>y. e = Some y \<and> y \<in> set (lh_items lh) \<and> cstr (value_section (snd y)) = cstr (snd s)" if "e \<in> set (elems sk)" for e
      proof (cases "e = Some v")
        case True
        with v i(3) show ?thesis by blast
      next
        case False
        with that mem obtain y where "e = Some y" "y \<in> stored_values conf" "cstr (value_section (snd y)) = cstr (snd s)" "e \<noteq> old"
          using tok True unfolding section_ok_def by blast
        with kept [of y] show ?thesis by blast
      qed
      ultimately show ?thesis
        using True sk(1) by (simp add: conf'_def free_replaced with_values_def section_ok_def)
    next
      case False
      then have "fst t \<noteq> fst s" "cstr (snd t) \<noteq> cstr (snd s)"
        using same_section [OF acc t s] section_unique [OF ok t s] by auto
      then have "old \<noteq> Some y" if "cstr (value_section (snd y)) = cstr (snd t)" for y
        using i(4) that v by (force simp: value_cmp_zero)
      with tok kept \<open>fst t \<noteq> fst s\<close> show ?thesis
        by (fastforce simp: conf'_def free_replaced with_values_def section_ok_def)
    qed
  qed
  moreover have "listed conf'" if "listed conf"
    unfolding listed_def
  proof
    fix y assume "y \<in> stored_values conf'"
    then have y: "y = v \<or> y \<in> stored_values conf \<and> value_cmp () v y \<noteq> 0"
      using i(3) by (simp add: conf'_def free_replaced with_values_def)
    have fields: "stored_sections conf' = stored_sections conf" "section_values conf' (fst s) = sk"
      "\<And>p. p \<noteq> fst s \<Longrightarrow> section_values conf' p = section_values conf p"
      by (simp_all add: conf'_def free_replaced with_values_def)
    have old: "old \<noteq> Some y" using y i(4) fresh by blast
    then have kept_in: "Some y = Some v \<or> Some y \<in> set (elems (section_values conf (fst s))) \<Longrightarrow> Some y \<in> set (elems sk)"
      unfolding sk(2) by (cases old) auto
    show "\<exists>t \<in> stored_sections conf'. Some y \<in> set (elems (section_values conf' (fst t)))"
    proof (cases "y = v")
      case True
      with kept_in s fields show ?thesis by (intro bexI [of _ s]) simp_all
    next
      case False
      with y that obtain t where t: "t \<in> stored_sections conf" "Some y \<in> set (elems (section_values conf (fst t)))"
        unfolding listed_def by auto
      with kept_in fields show ?thesis
        by (cases "fst t = fst s"; intro bexI [of _ t]) simp_all
    qed
  qed
  moreover have "accounted loose conf'"
    using acc arg_cong [OF mset_fst_insert [OF i(2)],
        of "\<lambda>m. mset loose + (mset (freed conf) + (mset (map fst (lh_items (conf_sections conf))) + m))"]
    by (simp add: conf'_def free_replaced with_values_def accounted_def ac_simps)
  ultimately show ?thesis
    using ok i(1,3) by (simp add: conf_ok_def conf'_def free_replaced with_values_def)
qed

lemma add_string_ok:
  assumes ok: "conf_ok (fst v # loose) conf" and s: "s \<in> stored_sections conf" and room: "next_ptr conf < SIZE_MOD"
    and run: "add_string al stale conf s v = (b, conf')"
  shows "next_ptr conf' = next_ptr conf \<and> conf_sections conf' = conf_sections conf \<and> (listed conf \<longrightarrow> listed conf') \<and>
    (if b then conf_ok loose conf' \<and> (\<exists>n. cstr n = cstr (snd s) \<and>
       (let w = (fst v, (snd v)\<lparr>value_section := n\<rparr>)
        in stored_values conf' = insert w {y \<in> stored_values conf. value_cmp () w y \<noteq> 0}))
     else conf_ok (fst v # loose) conf' \<and> conf_values conf' = conf_values conf)"
proof (cases "OPENSSL_strdup al (Some (snd s))")
  case None
  with ok run show ?thesis by (simp add: add_string_def)
next
  case (Some n)
  let ?sk = "section_values conf (fst s)"
  define w where "w = (fst v, (snd v)\<lparr>value_section := n\<rparr>)"
  have w: "cstr (value_section (snd w)) = cstr (snd s)" "fst w = fst v"
    using cstr_strdup [OF Some] by (simp_all add: w_def)
  have sk: "stack_ok ?sk" using ok s by (simp add: conf_ok_def section_ok_def)
  obtain k sk' where push: "OPENSSL_sk_push al stale ?sk (Some w) = (k, sk')" by (rule prod.exhaust)
  note unfolded = add_string_def Some Let_def w_def [symmetric] push
  show ?thesis
  proof (cases "k = 0")
    case True
    with push have "sk' = Some ?sk"
      using OPENSSL_sk_insert_fails unfolding OPENSSL_sk_push_def by blast
    with True run have "\<not> b" "conf' = with_values conf s ?sk"
      by (simp_all add: unfolded with_values_def)
    with with_values_ok [OF ok s sk] show ?thesis by (simp add: with_values_def)
  next
    case pushed: False
    obtain sk1 where sk1: "sk' = Some sk1" "stack_ok sk1" "elems sk1 = elems ?sk @ [Some w]" "num sk1 = num ?sk + 1"
      by (rule push_Some [OF sk push pushed])
    obtain c old lh where ins: "OPENSSL_lh_insert al value_hash value_cmp (conf_values conf) w = (c, old, lh)"
      by (rule prod_cases3)
    show ?thesis
    proof (cases c)
      case False
      with ins OPENSSL_lh_insert_fails [of al value_hash value_cmp "conf_values conf" w old lh] have lh: "lh = conf_values conf"
        by simp
      obtain sk2 where sk2: "snd (OPENSSL_sk_pop (Some sk1)) = Some sk2" "stack_ok sk2" "elems sk2 = elems ?sk"
        by (rule pop_pushed [OF sk1(2,3)]) (simp_all add: sk1(4) length_elems [OF sk])
      from False run pushed sk1(1) sk2(1) ins lh have "\<not> b" "conf' = with_values conf s sk2"
        by (simp_all add: unfolded with_values_def)
      with with_values_ok [OF ok s sk2(2,3)] show ?thesis by (simp add: with_values_def)
    next
      case True
      define sk2 where "sk2 = (case old of None \<Rightarrow> sk1 | Some y \<Rightarrow> the (snd (OPENSSL_sk_delete_ptr (Some sk1) (Some y))))"
      have sk2: "stack_ok sk2" "elems sk2 = (case old of None \<Rightarrow> id | Some y \<Rightarrow> remove1 (Some y)) (elems ?sk @ [Some w])"
        using sk1(2,3) OPENSSL_sk_delete_ptr_ok [OF sk1(2)] by (auto simp: sk2_def split: option.splits) (metis option.sel)+
      from True run pushed sk1(1) ins have b: "b" "conf' = value_free old (with_values (conf\<lparr>conf_values := lh\<rparr>) s sk2)"
        by (auto simp: unfolded with_values_def sk2_def value_free_def split: option.splits)
      note st = stored_value_ok [where v = w and loose = loose, OF _ s room w(1) _ sk2]
      have "conf_ok (fst w # loose) conf" using ok w(2) by simp
      moreover have "OPENSSL_lh_insert al value_hash value_cmp (conf_values conf) w = (True, old, lh)"
        using ins True by simp
      ultimately have "conf_ok loose conf' \<and> stored_values conf' = insert w {y \<in> stored_values conf. value_cmp () w y \<noteq> 0} \<and>
          (listed conf \<longrightarrow> listed conf')"
        using st by (simp add: b(2))
      moreover have "next_ptr conf' = next_ptr conf" "conf_sections conf' = conf_sections conf"
        by (simp_all add: b(2) free_replaced with_values_def)
      ultimately show ?thesis
        using b(1) cstr_strdup [OF Some] by (auto simp: Let_def w_def)
    qed
  qed
qed

section \<open>Lookup\<close>

lemma get_string_Some:
  assumes "conf_ok loose conf"
  shows "NCONF_get_string conf (Some s) n = Some x \<longleftrightarrow>
    (\<exists>v \<in> stored_values conf. cstr (value_section (snd v)) = cstr s \<and> cstr (value_name (snd v)) = cstr n \<and> value_value (snd v) = x)"
proof -
  have ok: "lh_ok value_hash value_cmp (conf_values conf)" "lh_functions value_hash value_cmp (conf_values conf)"
    using assms value_table.hash_functions_axioms by (simp_all add: conf_ok_def lh_functions_def)
  define t where "t = (next_ptr conf, \<lparr>value_section = s, value_name = n, value_value = []\<rparr>)"
  have "NCONF_get_string conf (Some s) n = map_option (\<lambda>v. value_value (snd v)) (lh_map value_cmp (conf_values conf) t)"
    by (simp add: NCONF_get_string_def OPENSSL_lh_retrieve_eq [OF ok] t_def map_option_case)
  moreover have "lh_map value_cmp (conf_values conf) t = Some v \<longleftrightarrow>
      v \<in> stored_values conf \<and> cstr (value_section (snd v)) = cstr s \<and> cstr (value_name (snd v)) = cstr n" for v
    by (simp add: lh_map_Some [OF ok] value_cmp_zero t_def)
  moreover have "map_option f l = Some x \<longleftrightarrow> (\<exists>v. l = Some v \<and> f v = x)" for f :: "value_object \<Rightarrow> bytes" and l
    by (cases l) auto
  ultimately show ?thesis unfolding Bex_def by (simp only: conj_assoc)
qed

lemma bex_insert_unless:
  "(\<exists>v \<in> insert w {y \<in> A. \<not> (S w = S y \<and> N w = N y)}. (S v = s \<and> N v = n) \<and> X v = x) \<longleftrightarrow>
   (S w = s \<and> N w = n) \<and> X w = x \<or> \<not> (S w = s \<and> N w = n) \<and> (\<exists>v \<in> A. (S v = s \<and> N v = n) \<and> X v = x)"
  by auto

lemma get_string_update:
  assumes ok: "conf_ok loose conf" "conf_ok loose' conf'"
    and new: "stored_values conf' = insert w {y \<in> stored_values conf. value_cmp () w y \<noteq> 0}"
  shows "NCONF_get_string conf' (Some s) n =
    (if cstr (value_section (snd w)) = cstr s \<and> cstr (value_name (snd w)) = cstr n then Some (value_value (snd w))
     else NCONF_get_string conf (Some s) n)" (is "?l = ?r")
proof -
  let ?at = "\<lambda>v. cstr (value_section (snd v)) = cstr s \<and> cstr (value_name (snd v)) = cstr n"
  have "?l = Some x \<longleftrightarrow> (\<exists>v \<in> stored_values conf'. ?at v \<and> value_value (snd v) = x)" for x
    by (simp add: get_string_Some [OF ok(2)])
  also have "(\<exists>v \<in> stored_values conf'. ?at v \<and> value_value (snd v) = x) \<longleftrightarrow>
      ?at w \<and> value_value (snd w) = x \<or> \<not> ?at w \<and> (\<exists>v \<in> stored_values conf. ?at v \<and> value_value (snd v) = x)" for x
    unfolding new value_cmp_zero
    by (rule bex_insert_unless [where S = "\<lambda>v. cstr (value_section (snd v))" and N = "\<lambda>v. cstr (value_name (snd v))"
          and X = "\<lambda>v. value_value (snd v)"])
  finally have "?l = Some x \<longleftrightarrow> ?r = Some x" for x
    by (cases "?at w") (simp_all only: if_True if_False simp_thms option.inject get_string_Some [OF ok(1)] conj_assoc)
  then show ?thesis by (metis option.exhaust)
qed

section \<open>Lines and the invariant\<close>

lemma store_value_ok:
  assumes ok: "conf_ok [] conf" "sv \<in> stored_sections conf" "cstr (snd sv) = cstr section"
    and run: "store_value al stale conf section sv psection pname start = (err, conf')" and room: "next_ptr conf' < SIZE_MOD"
  shows "conf_ok [] conf' \<and> next_ptr conf \<le> next_ptr conf' \<and> stored_sections conf \<subseteq> stored_sections conf' \<and>
    (listed conf \<longrightarrow> listed conf') \<and>
    (err = None \<longrightarrow> (\<exists>val. str_copy al start = Some val \<and>
      (\<forall>s n. NCONF_get_string conf' (Some s) n =
        (if cstr (case psection of None \<Rightarrow> section | Some q \<Rightarrow> q) = cstr s \<and> cstr pname = cstr n then Some val
         else NCONF_get_string conf (Some s) n))))"
proof -
  obtain v conf1 where new: "CONF_VALUE_new al conf = (v, conf1)" by (rule prod.exhaust)
  note new' = CONF_VALUE_new_ok [OF ok(1) new]
  show ?thesis
  proof (cases v)
    case None
    with run new new' ok(1) show ?thesis by (auto simp: store_value_def)
  next
    case (Some v)
    with new' have c1: "conf_ok (fst v # []) conf1" "conf_sections conf1 = conf_sections conf" "conf_values conf1 = conf_values conf"
      "next_ptr conf \<le> next_ptr conf1" "listed conf \<longrightarrow> listed conf1"
      using listed_mono [of conf conf1] by auto
    note freed = value_free_ok [OF c1(1)]
    show ?thesis
    proof (cases "OPENSSL_strdup al (Some pname) = None \<or> str_copy al start = None")
      case True
      with run new Some have "err \<noteq> None" "conf' = value_free (Some v) conf1"
        by (auto simp: store_value_def Let_def split: option.splits)
      with freed c1 show ?thesis by auto
    next
      case False
      then obtain name val where copies: "OPENSSL_strdup al (Some pname) = Some name" "str_copy al start = Some val" by auto
      define q where "q = (case psection of None \<Rightarrow> section | Some q \<Rightarrow> q)"
      define w where "w = (fst v, (snd v)\<lparr>value_name := name, value_value := val\<rparr>)"
      note run' = run [unfolded store_value_def Let_def, folded q_def]
      obtain tv conf2 where tv: "(if strcmp q section \<noteq> 0 then section_or_new al conf1 q else (Some sv, conf1)) = (tv, conf2)"
        by (rule prod.exhaust)
      have step: "conf_ok [fst w] conf2" "next_ptr conf1 \<le> next_ptr conf2" "conf_values conf2 = conf_values conf"
        "stored_sections conf \<subseteq> stored_sections conf2" "listed conf \<longrightarrow> listed conf2" "\<And>s. tv = Some s \<Longrightarrow> s \<in> stored_sections conf2 \<and> cstr (snd s) = cstr q"
        if "next_ptr conf2 < SIZE_MOD"
        using tv section_or_new_ok [OF c1(1), of al q tv conf2] that c1 ok by (auto simp: w_def strcmp_zero split: if_splits)
      show ?thesis
      proof (cases tv)
        case None
        with run' new Some copies tv have err: "err \<noteq> None" "conf' = value_free (Some w) conf2"
          by (auto simp: w_def)
        with room have "next_ptr conf2 < SIZE_MOD" by (simp add: value_free_def)
        note step = step [OF this]
        from value_free_ok [OF step(1)] step err c1 show ?thesis by auto
      next
        case t: (Some t)
        obtain b conf3 where add: "add_string al stale conf2 t w = (b, conf3)" by (rule prod.exhaust)
        have ends: "b \<Longrightarrow> err = None \<and> conf' = conf3" "\<not> b \<Longrightarrow> err \<noteq> None \<and> conf' = value_free (Some w) conf3"
          using run' new Some copies tv t add by (auto simp: w_def split: bool.splits)
        have "next_ptr conf3 = next_ptr conf2"
          using add by (auto simp: add_string_def Let_def value_free_def split: option.splits prod.splits bool.splits if_splits)
        with ends room have small: "next_ptr conf2 < SIZE_MOD"
          by (cases b) (simp_all add: value_free_def)
        note step = step [OF this]
        note s = add_string_ok [OF step(1) _ small add, simplified] step(6) [OF t]
        show ?thesis
        proof (cases b)
          case True
          with s obtain n where n: "conf_ok [] conf3" "cstr n = cstr q"
            "stored_values conf3 = insert (fst w, (snd w)\<lparr>value_section := n\<rparr>) {y \<in> stored_values conf2. value_cmp () (fst w, (snd w)\<lparr>value_section := n\<rparr>) y \<noteq> 0}"
            by (auto simp: Let_def)
          have "NCONF_get_string conf2 (Some s) m = NCONF_get_string conf (Some s) m" for s m
            by (metis get_string_Some [OF ok(1)] get_string_Some [OF step(1)] step(3) option.exhaust)
          with get_string_update [OF step(1) n(1,3)] n(2) cstr_strdup [OF copies(1)]
          have "NCONF_get_string conf3 (Some s) m =
              (if cstr q = cstr s \<and> cstr pname = cstr m then Some val else NCONF_get_string conf (Some s) m)" for s m
            by (simp add: w_def)
          with n(1) s ends True step c1(4) copies(2) show ?thesis by (auto simp: q_def)
        next
          case False
          with s have c3: "conf_ok [fst w] conf3" "conf_sections conf3 = conf_sections conf2" "next_ptr conf3 = next_ptr conf2"
            "listed conf2 \<longrightarrow> listed conf3" by auto
          from value_free_ok [OF c3(1)] c3 ends(2) False step c1(4) show ?thesis by auto
        qed
      qed
    qed
  qed
qed

text \<open>Addresses are only ever given out.\<close>

lemma next_ptr_section_or_new: "section_or_new al conf name = (r, conf') \<Longrightarrow> next_ptr conf \<le> next_ptr conf'"
  by (auto simp: section_or_new_def NCONF_new_section_def section_free_def Let_def split: option.splits prod.splits bool.splits)

lemma next_ptr_add_string: "add_string al stale conf s v = (b, conf') \<Longrightarrow> next_ptr conf' = next_ptr conf"
  by (auto simp: add_string_def Let_def value_free_def split: option.splits prod.splits bool.splits if_splits)

lemma next_ptr_store_value:
  assumes "store_value al stale conf section sv psection pname start = (err, conf')"
  shows "next_ptr conf \<le> next_ptr conf'"
proof -
  have "next_ptr c \<le> next_ptr c'"
    if "(if strcmp q section \<noteq> 0 then section_or_new al c q else (Some sv, c)) = (tv, c')" for c c' q tv
    using that next_ptr_section_or_new by (auto split: if_splits)
  then show ?thesis
    using assms next_ptr_add_string
    by (fastforce simp: store_value_def CONF_VALUE_new_def Let_def value_free_def split: option.splits prod.splits bool.splits)
qed

lemma next_ptr_process_line: "process_line al stale conf section sv m = (m', r, conf') \<Longrightarrow> next_ptr conf \<le> next_ptr conf'"
  by (auto simp: process_line_def section_line_def value_line_def Let_def next_ptr_section_or_new next_ptr_store_value
      split: option.splits prod.splits if_splits)

text \<open>\<open>section\<close> and \<open>sv\<close> name the same section, which is in the table.\<close>

definition in_section :: "conf \<Rightarrow> bytes \<Rightarrow> section_object \<Rightarrow> bool" where
  "in_section conf section sv \<longleftrightarrow> conf_ok [] conf \<and> sv \<in> stored_sections conf \<and> cstr (snd sv) = cstr section"

lemma section_line_ok:
  assumes "in_section conf section sv" "section_line al conf m s = (m', r, conf')" "next_ptr conf' < SIZE_MOD"
  shows "conf_ok [] conf' \<and> (listed conf \<longrightarrow> listed conf') \<and> (\<forall>x. r = Inr x \<longrightarrow> in_section conf' (fst x) (snd x))"
  using assms section_or_new_ok [where loose = "[]" and al = al and conf = conf]
  by (fastforce simp: section_line_def in_section_def Let_def split: option.splits prod.splits)

lemma value_line_ok:
  assumes "in_section conf section sv" "value_line al stale conf section sv m s = (m', err, conf')" "next_ptr conf' < SIZE_MOD"
  shows "in_section conf' section sv \<and> (listed conf \<longrightarrow> listed conf')"
proof (cases "conf' = conf")
  case False
  with assms(2) obtain psection pname start where "store_value al stale conf section sv psection pname start = (err, conf')"
    by (auto simp: value_line_def Let_def split: if_splits)
  with store_value_ok [OF _ _ _ this assms(3)] assms(1) show ?thesis
    by (auto simp: in_section_def)
qed (use assms in simp)

lemma process_line_ok:
  assumes "in_section conf section sv" "process_line al stale conf section sv m = (m', r, conf')" "next_ptr conf' < SIZE_MOD"
  shows "conf_ok [] conf' \<and> (listed conf \<longrightarrow> listed conf') \<and> (\<forall>x. r = Inr x \<longrightarrow> in_section conf' (fst x) (snd x))"
proof -
  define m1 s where "m1 = clear_comments m" and "s = eat_ws m1"
  note run = assms(2) [unfolded process_line_def Let_def, folded m1_def, folded s_def]
  consider "IS_EOF (deref s)" | "\<not> IS_EOF (deref s)" "deref s = 0x5b" | "\<not> IS_EOF (deref s)" "deref s \<noteq> 0x5b" by blast
  then show ?thesis
  proof cases
    case 1
    with run assms(1) show ?thesis by (auto simp: in_section_def)
  next
    case 2
    with run have "section_line al conf m1 s = (m', r, conf')" by simp
    from section_line_ok [OF assms(1) this assms(3)] show ?thesis .
  next
    case 3
    obtain m2 err conf2 where v: "value_line al stale conf section sv m1 s = (m2, err, conf2)" by (rule prod_cases3)
    with run 3 have "conf' = conf2" "r = (case err of None \<Rightarrow> Inr (section, sv) | Some e \<Rightarrow> Inl e)"
      by (auto split: option.splits)
    with value_line_ok [OF assms(1) v] assms(3) show ?thesis
      by (auto simp: in_section_def split: option.splits)
  qed
qed

section \<open>The loop and the invariant\<close>

abbreviation ld_ok :: "load_state \<Rightarrow> bool" where
  "ld_ok ls \<equiv> in_section (ld_conf ls) (ld_section ls) (ld_sv ls)"

lemma end_of_read_keeps:
  "ld_conf (end_of_read buff ls d ii) = ld_conf ls" "ld_section (end_of_read buff ls d ii) = ld_section ls"
  "ld_sv (end_of_read buff ls d ii) = ld_sv ls"
  by (simp_all add: end_of_read_def Let_def)

lemma read_line_keeps:
  "read_line bgets st buff ls = Some (Some ls', st') \<Longrightarrow>
     ld_conf ls' = ld_conf ls \<and> ld_section ls' = ld_section ls \<and> ld_sv ls' = ld_sv ls"
  by (cases "BIO_gets bgets st True (int (CONFBUFSIZE - 1))")
    (auto simp: read_line_def Let_def end_of_read_keeps split: if_splits)

lemma load_step_ok:
  assumes "load_step bgets al stale st ls = Some (r, st')"
  defines "conf' \<equiv> ld_conf (case r of Inl (_, ls) \<Rightarrow> ls | Inr ls \<Rightarrow> ls)"
  shows "next_ptr (ld_conf ls) \<le> next_ptr conf' \<and>
    (ld_ok ls \<and> next_ptr conf' < SIZE_MOD \<longrightarrow>
      conf_ok [] conf' \<and> (listed (ld_conf ls) \<longrightarrow> listed conf') \<and> (\<forall>ls'. r = Inr ls' \<longrightarrow> ld_ok ls'))"
proof -
  obtain n buff where g: "BUF_MEM_grow al (ld_buff ls) (ld_bufnum ls + CONFBUFSIZE) = (n, buff)" by (rule prod.exhaust)
  show ?thesis
  proof (cases "n = 0 \<or> (\<exists>st1. read_line bgets st buff ls = Some (None, st1))")
    case True
    with assms(1) g have "\<exists>err. r = Inl (err, ls)"
      by (cases "n = 0") (auto simp: load_step_def)
    then show ?thesis by (auto simp: conf'_def in_section_def)
  next
    case False
    obtain x st1 where "read_line bgets st buff ls = Some (x, st1)"
      using assms(1) g False by (cases "read_line bgets st buff ls") (auto simp: load_step_def)
    moreover from this False obtain ls1 where "x = Some ls1" by (cases x) auto
    moreover from calculation have "st1 = st'"
      using assms(1) g False by (auto simp: load_step_def split: if_splits prod.splits sum.splits)
    ultimately have read: "read_line bgets st buff ls = Some (Some ls1, st')" by simp
    note keeps = read_line_keeps [OF read]
    show ?thesis
    proof (cases "ld_again ls1")
      case True
      with assms(1) g False read keeps show ?thesis
        by (auto simp: load_step_def conf'_def in_section_def)
    next
      case ended: False
      obtain m x conf1 where p: "process_line al stale (ld_conf ls1) (ld_section ls1) (ld_sv ls1) (block (ld_buff ls1)) = (m, x, conf1)"
        by (rule prod_cases3)
      have "conf' = conf1" "\<And>ls'. r = Inr ls' \<Longrightarrow> \<exists>y. x = Inr y \<and> ld_conf ls' = conf1 \<and> ld_section ls' = fst y \<and> ld_sv ls' = snd y"
        using assms(1) g False read ended p by (auto simp: load_step_def conf'_def split: sum.splits)
      with process_line_ok [of "ld_conf ls1" "ld_section ls1" "ld_sv ls1" al stale "block (ld_buff ls1)" m x conf1]
        next_ptr_process_line [OF p] p keeps show ?thesis by auto
    qed
  qed
qed

definition kept_by_loop :: "load_state \<Rightarrow> load_state \<Rightarrow> bool" where
  "kept_by_loop ls ls' \<longleftrightarrow> next_ptr (ld_conf ls) \<le> next_ptr (ld_conf ls') \<and>
     (ld_ok ls \<and> next_ptr (ld_conf ls') < SIZE_MOD \<longrightarrow>
       conf_ok [] (ld_conf ls') \<and> (listed (ld_conf ls) \<longrightarrow> listed (ld_conf ls')))"

lemma load_loop_ok:
  assumes "load_loop bgets al stale st ls = Some y"
  shows "kept_by_loop ls (snd (fst y))"
proof (rule load_loop.raw_induct [where P = "\<lambda>_ _ _ _ ls y. kept_by_loop ls (snd (fst y))", OF _ assms])
  fix loop :: "('p, 'e) bio_reader option \<Rightarrow> allocator \<Rightarrow> (nat \<Rightarrow> value_object option) \<Rightarrow> 'p bio \<times> 'e \<Rightarrow> load_state \<Rightarrow>
     ((conf_error option \<times> load_state) \<times> 'p bio \<times> 'e) option"
  fix bgets al stale st ls y
  assume IH: "\<And>bgets al stale st ls y. loop bgets al stale st ls = Some y \<Longrightarrow> kept_by_loop ls (snd (fst y))"
    and run: "Option.bind (load_step bgets al stale st ls) (\<lambda>(r, st).
      case r of Inl done \<Rightarrow> Some (done, st) | Inr ls \<Rightarrow> loop bgets al stale st ls) = Some y"
  then obtain r st1 where step: "load_step bgets al stale st ls = Some (r, st1)"
    by (cases "load_step bgets al stale st ls") auto
  note s = load_step_ok [OF step]
  show "kept_by_loop ls (snd (fst y))"
  proof (cases r)
    case (Inl out)
    with run step have "y = (out, st1)" by simp
    with s Inl show ?thesis by (cases out) (auto simp: kept_by_loop_def)
  next
    case (Inr ls1)
    with run step have "loop bgets al stale st1 ls1 = Some y" by simp
    from IH [OF this] s Inr show ?thesis by (auto simp: kept_by_loop_def)
  qed
qed

lemma load_bio_ok:
  assumes ok: "conf_ok [] conf" and run: "NCONF_load_bio bgets al stale conf st = Some ((err, line, conf'), st')"
    and room: "next_ptr conf' < SIZE_MOD"
  shows "conf_ok [] conf' \<and> (stored_values conf = {} \<longrightarrow> listed conf')"
proof (cases "BUF_MEM_new al = None \<or> OPENSSL_strdup al (Some kDefaultSectionName) = None")
  case True
  with ok run show ?thesis by (auto simp: NCONF_load_bio_def listed_def split: option.splits)
next
  case False
  then obtain buff sec where b: "BUF_MEM_new al = Some buff" "OPENSSL_strdup al (Some kDefaultSectionName) = Some sec"
    by auto
  obtain sv conf1 where new: "NCONF_new_section al conf sec = (sv, conf1)" by (rule prod.exhaust)
  show ?thesis
  proof (cases sv)
    case None
    with run b new have "conf' = conf1" by (simp add: NCONF_load_bio_def)
    with new_section_ok [OF ok new] room show ?thesis by (auto simp: listed_def)
  next
    case (Some s)
    with run b new obtain ls' where l: "load_loop bgets al stale st
        \<lparr>ld_conf = conf1, ld_section = sec, ld_sv = s, ld_buff = buff, ld_bufnum = 0, ld_again = False, ld_eline = 0\<rparr> =
      Some ((err, ls'), st')" "conf' = ld_conf ls'"
      by (auto simp: NCONF_load_bio_def)
    have loop: "kept_by_loop \<lparr>ld_conf = conf1, ld_section = sec, ld_sv = s, ld_buff = buff, ld_bufnum = 0, ld_again = False, ld_eline = 0\<rparr> ls'"
      using load_loop_ok [OF l(1)] by simp
    with l(2) room have small: "next_ptr conf1 < SIZE_MOD" by (simp add: kept_by_loop_def)
    with new_section_ok [OF ok new this] Some have "in_section conf1 sec s" "stored_values conf = {} \<longrightarrow> listed conf1"
      by (simp_all add: in_section_def listed_def)
    with loop l(2) room show ?thesis by (simp add: kept_by_loop_def)
  qed
qed

lemma load_bio_total:
  assumes "mem_ok bio" "int (length (mem_contents bio)) \<le> INT_MAX"
  shows "\<exists>r bio'. NCONF_load_bio (Some mem_gets) al stale conf (bio, e) = Some (r, bio', e)"
proof -
  have "\<exists>err ls' bio'. load_loop (Some mem_gets) al stale (bio, e)
      \<lparr>ld_conf = c, ld_section = sec, ld_sv = sv, ld_buff = buff, ld_bufnum = 0, ld_again = False, ld_eline = 0\<rparr> = Some ((err, ls'), bio', e)"
    if "BUF_MEM_new al = Some buff" for c sec sv buff
    using assms new_buffer_ok [OF that] by (intro load_loop_total) (simp add: reading_def)
  then show ?thesis
    by (fastforce simp: NCONF_load_bio_def split: option.splits prod.splits)
qed

lemma NCONF_new_ok:
  assumes "NCONF_new al meth = Some conf"
  shows "conf_ok [] conf" "stored_values conf = {}" "next_ptr conf = 0"
proof -
  from assms obtain lh lh' where lh: "OPENSSL_lh_new al () () = Some lh" "OPENSSL_lh_new al () () = Some lh'"
    "conf = \<lparr>conf_sections = lh, conf_values = lh', section_values = (\<lambda>_. empty_stack), next_ptr = 0, freed = []\<rparr>"
    by (auto simp: NCONF_new_def split: if_splits option.splits prod.splits)
  with OPENSSL_lh_new_ok [OF lh(1)] OPENSSL_lh_new_ok [OF lh(2)]
  show "conf_ok [] conf" "stored_values conf = {}" "next_ptr conf = 0"
    by (simp_all add: conf_ok_def accounted_def)
qed

text \<open>Freeing a configuration visits every object of the two tables.\<close>

lemma doall_items:
  assumes "lh_ok hash cmp lh"
  shows "snd (OPENSSL_lh_doall_arg al (Some lh) func s) = fold func (lh_items lh) s"
proof -
  have "take (num_buckets lh) (buckets lh) = buckets lh"
    using assms by (simp add: lh_ok_def)
  then show ?thesis
    by (simp add: OPENSSL_lh_doall_arg_def Let_def doall_buckets_fold lh_items_def)
qed

lemma fold_free:
  "freed (fold section_free_arg ss conf) = freed conf @ map fst ss" "freed (fold value_free_arg vs conf) = freed conf @ map fst vs"
  by (induction ss arbitrary: conf; simp add: section_free_arg_def section_free_def)
    (induction vs arbitrary: conf; simp add: value_free_arg_def value_free_def)

lemma NCONF_free_ok:
  assumes "conf_ok [] conf" "NCONF_free al (Some conf) = Some conf'"
  shows "mset (freed conf') = mset [0..<next_ptr conf]"
proof -
  have "lh_ok section_hash section_cmp (conf_sections conf)" "lh_ok value_hash value_cmp (conf_values conf)"
    and acc: "accounted [] conf"
    using assms(1) by (simp_all add: conf_ok_def)
  with assms(2) have "freed conf' = freed conf @ map fst (lh_items (conf_sections conf)) @ map fst (lh_items (conf_values conf))"
    by (auto simp: NCONF_free_def Let_def doall_items fold_free)
  with acc show ?thesis by (simp add: accounted_def add.assoc)
qed

text \<open>The list of a section and the lookup agree.\<close>

lemma listed_is_found:
  assumes ok: "conf_ok [] conf" and sk: "NCONF_get_section conf s = Some sk" and v: "Some v \<in> set (elems sk)"
  shows "cstr (value_section (snd v)) = cstr s \<and> NCONF_get_string conf (Some s) (value_name (snd v)) = Some (value_value (snd v))"
proof -
  from sk obtain t where t: "get_section conf s = Some t" "sk = section_values conf (fst t)"
    by (auto simp: NCONF_get_section_def split: option.splits)
  with get_section_Some [OF ok] have t': "t \<in> stored_sections conf" "cstr (snd t) = cstr s" by blast+
  with ok have "section_ok conf t" by (simp add: conf_ok_def)
  with v t t' have "v \<in> stored_values conf" "cstr (value_section (snd v)) = cstr s"
    unfolding section_ok_def by auto
  with get_string_Some [OF ok, of s "value_name (snd v)" "value_value (snd v)"] show ?thesis by blast
qed

lemma found_is_listed:
  assumes ok: "conf_ok [] conf" "listed conf" and x: "NCONF_get_string conf (Some s) n = Some x"
  shows "\<exists>sk v. NCONF_get_section conf s = Some sk \<and> Some v \<in> set (elems sk) \<and> cstr (value_name (snd v)) = cstr n \<and> value_value (snd v) = x"
proof -
  obtain v where v: "v \<in> stored_values conf" "cstr (value_section (snd v)) = cstr s" "cstr (value_name (snd v)) = cstr n" "value_value (snd v) = x"
    using x unfolding get_string_Some [OF ok(1)] by blast
  with ok(2) obtain t where t: "t \<in> stored_sections conf" "Some v \<in> set (elems (section_values conf (fst t)))"
    unfolding listed_def by blast
  with ok(1) have "section_ok conf t" by (simp add: conf_ok_def)
  with t(2) v(2) have "cstr (snd t) = cstr s" by (auto simp: section_ok_def)
  with t(1) get_section_Some [OF ok(1), of s t] have "NCONF_get_section conf s = Some (section_values conf (fst t))"
    by (simp add: NCONF_get_section_def)
  with t(2) v(3,4) show ?thesis by blast
qed

end
