(* ===== verification/Conf_Roundtrip.thy ===== *)
theory Conf_Roundtrip
  imports Conf_Load_Correct
begin

text \<open>
  Loading a text in a plain format, one bracketed section name or one quoted assignment to a line, gives
  the configuration that the text describes. The theory also holds the properties of loading.
\<close>

section \<open>Enough memory\<close>

lemma malloc_total: "\<forall>n. malloc_ok al n \<Longrightarrow> n + 8 < SIZE_MOD \<Longrightarrow> \<exists>p. OPENSSL_malloc al n = Some p"
  by (simp add: OPENSSL_malloc_def OPENSSL_MALLOC_PREFIX_def size_add_def)

lemma strdup_total:
  assumes "\<forall>n. malloc_ok al n" "strlen s < 2 ^ 32"
  shows "\<exists>t. OPENSSL_strdup al (Some s) = Some t"
  using malloc_total [OF assms(1), of "strlen s + 1"] assms(2)
  by (auto simp: OPENSSL_strdup_def SIZE_MOD_def Let_def)

lemma sk_new_total:
  assumes "\<forall>n. malloc_ok al n"
  shows "\<exists>sk. OPENSSL_sk_new_null al = Some sk"
  using malloc_total [OF assms, of stack_struct_size] malloc_total [OF assms, of "kMinSize * pointer_size"]
  by (auto simp: OPENSSL_sk_new_null_def OPENSSL_sk_new_def OPENSSL_zalloc_def OPENSSL_calloc_def stack_struct_size_def
      kMinSize_def pointer_size_def SIZE_MOD_def split: option.splits)

lemma insert_total:
  assumes "\<forall>n. malloc_ok al n"
  shows "\<exists>old lh'. OPENSSL_lh_insert al hash cmp lh x = (True, old, lh')"
proof -
  obtain p where "OPENSSL_malloc al item_struct_size = Some p"
    using malloc_total [OF assms, of item_struct_size] by (auto simp: item_struct_size_def SIZE_MOD_def)
  then show ?thesis
    by (auto simp: OPENSSL_lh_insert_def Let_def split: prod.splits option.splits)
qed

lemma push_total:
  assumes "\<forall>n. malloc_ok al n" "stack_ok sk" "num sk < 2 ^ 30"
  shows "fst (OPENSSL_sk_push al stale sk p) \<noteq> 0"
proof -
  have "sk_grow al stale sk \<noteq> None"
  proof (cases "num_alloc sk \<le> num sk + 1")
    case False
    then show ?thesis by (simp add: sk_grow_def)
  next
    case True
    with assms(3) have n: "num_alloc sk < 2 ^ 31" by simp
    then have s: "size_mul (num_alloc sk) 2 = 2 * num_alloc sk" "size_mul (2 * num_alloc sk) pointer_size = 16 * num_alloc sk"
      by (simp_all add: size_mul_def pointer_size_def SIZE_MOD_def)
    obtain d where "OPENSSL_malloc al (16 * num_alloc sk) = Some d"
      using malloc_total [OF assms(1), of "16 * num_alloc sk"] n by (auto simp: SIZE_MOD_def)
    with True s show ?thesis
      by (simp add: sk_grow_def realloc_pointers_def pointer_size_def Let_def)
  qed
  with assms(3) show ?thesis
    by (auto simp: OPENSSL_sk_push_def OPENSSL_sk_insert_def Let_def)
qed

lemma new_section_total:
  assumes "\<forall>n. malloc_ok al n" "strlen name < 2 ^ 32"
  shows "\<exists>s conf'. NCONF_new_section al conf name = (Some s, conf') \<and> next_ptr conf' = next_ptr conf + 1"
proof -
  obtain p t sk where "OPENSSL_malloc al conf_section_size = Some p" "OPENSSL_strdup al (Some name) = Some t"
    "OPENSSL_sk_new_null al = Some (sk :: (value_object, unit) stack)"
    using malloc_total [OF assms(1), of conf_section_size] strdup_total [OF assms] sk_new_total [OF assms(1)]
    by (auto simp: conf_section_size_def SIZE_MOD_def)
  moreover obtain old lh' where "OPENSSL_lh_insert al section_hash section_cmp (conf_sections conf) (next_ptr conf, t) = (True, old, lh')"
    using insert_total [OF assms(1), of section_hash section_cmp "conf_sections conf" "(next_ptr conf, t)"] by blast
  ultimately show ?thesis
    by (simp add: NCONF_new_section_def Let_def free_replaced)
qed

lemma section_or_new_total:
  assumes "\<forall>n. malloc_ok al n" "strlen name < 2 ^ 32"
  shows "\<exists>s conf'. section_or_new al conf name = (Some s, conf') \<and> next_ptr conf' \<le> next_ptr conf + 1"
proof (cases "get_section conf name")
  case None
  with new_section_total [OF assms, of conf] show ?thesis by (auto simp: section_or_new_def)
qed (simp add: section_or_new_def)

text \<open>A section's list is no longer than the table of values.\<close>

lemma list_length:
  assumes "conf_ok loose conf" "s \<in> stored_sections conf"
  shows "num (section_values conf (fst s)) \<le> next_ptr conf"
proof -
  let ?l = "elems (section_values conf (fst s))"
  have ok: "section_ok conf s" and acc: "accounted loose conf"
    using assms by (simp_all add: conf_ok_def)
  have "set ?l \<subseteq> Some ` stored_values conf"
    using ok by (auto simp: section_ok_def)
  then have "card (set ?l) \<le> card (Some ` stored_values conf)"
    by (intro card_mono) simp_all
  also have "\<dots> \<le> length (lh_items (conf_values conf))"
    using card_image_le [of "stored_values conf" Some] card_length [of "lh_items (conf_values conf)"] by simp
  also have "\<dots> \<le> next_ptr conf"
    using accounted_distinct(2) [OF acc] by simp
  finally show ?thesis
    using ok by (simp add: section_ok_def distinct_card length_elems)
qed

lemma add_string_total:
  assumes al: "\<forall>n. malloc_ok al n" and ok: "conf_ok loose conf" "s \<in> stored_sections conf"
    and small: "next_ptr conf < 2 ^ 30" "strlen (snd s) < 2 ^ 32"
  shows "\<exists>conf'. add_string al stale conf s v = (True, conf')"
proof -
  obtain n where n: "OPENSSL_strdup al (Some (snd s)) = Some n"
    using strdup_total [OF al small(2)] by blast
  let ?sk = "section_values conf (fst s)" and ?v = "(fst v, (snd v)\<lparr>value_section := n\<rparr>)"
  have "stack_ok ?sk" "num ?sk < 2 ^ 30"
    using ok list_length [OF ok] small(1) by (auto simp: conf_ok_def section_ok_def)
  then have "fst (OPENSSL_sk_push al stale ?sk (Some ?v)) \<noteq> 0"
    by (rule push_total [OF al])
  then obtain k sk where push: "OPENSSL_sk_push al stale ?sk (Some ?v) = (k, sk)" "k \<noteq> 0"
    by (cases "OPENSSL_sk_push al stale ?sk (Some ?v)") auto
  obtain old lh where ins: "OPENSSL_lh_insert al value_hash value_cmp (conf_values conf) ?v = (True, old, lh)"
    using insert_total [OF al, of value_hash value_cmp "conf_values conf" ?v] by blast
  show ?thesis
    using n push ins by (cases old) (simp_all add: add_string_def Let_def)
qed

lemma store_value_total:
  assumes al: "\<forall>n. malloc_ok al n" and inv: "in_section conf section sv" and small: "next_ptr conf + 1 < 2 ^ 30" "strlen section < 2 ^ 32" "strlen pname < 2 ^ 32"
    and val: "str_copy al start = Some val" and run: "store_value al stale conf section sv None pname start = (err, conf')"
  shows "err = None \<and> next_ptr conf' = next_ptr conf + 1"
proof -
  obtain p where "OPENSSL_malloc al conf_value_size = Some p"
    using malloc_total [OF al, of conf_value_size] by (auto simp: conf_value_size_def SIZE_MOD_def)
  then obtain v conf1 where new: "CONF_VALUE_new al conf = (Some v, conf1)" and n1: "next_ptr conf1 = next_ptr conf + 1"
    by (auto simp: CONF_VALUE_new_def OPENSSL_zalloc_def)
  obtain name where name: "OPENSSL_strdup al (Some pname) = Some name"
    using strdup_total [OF al small(3)] by blast
  have "conf_ok [fst v] conf1" "sv \<in> stored_sections conf1"
    using CONF_VALUE_new_ok [OF _ new, of "[]"] inv by (auto simp: in_section_def)
  moreover have "strlen (snd sv) < 2 ^ 32"
    using inv small(2) by (simp add: in_section_def strlen_def)
  ultimately obtain conf2 where add: "add_string al stale conf1 sv (fst v, (snd v)\<lparr>value_name := name, value_value := val\<rparr>) = (True, conf2)"
    using add_string_total [OF al, of "[fst v]" conf1 sv stale "(fst v, (snd v)\<lparr>value_name := name, value_value := val\<rparr>)"]
      n1 small(1) by auto
  have "strcmp section section = 0" by (simp add: strcmp_zero)
  with run new name val add have "err = None" "conf' = conf2"
    by (simp_all add: store_value_def Let_def)
  with next_ptr_add_string [OF add] n1 show ?thesis by simp
qed

section \<open>The format\<close>

lemma alnum_table:
  "map (\<lambda>w. w AND CONF_ALPHA_NUMERIC_PUNCT \<noteq> 0) CONF_type_default =
   map (\<lambda>n. n \<in> {33, 37, 38, 59, 63, 64, 94, 95, 124, 126} \<union> {42..57} \<union> {65..90} \<union> {97..122}) [0..<256]"
  unfolding CONF_type_default_def CONF_ALPHA_NUMERIC_PUNCT_def CONF_UPPER_def CONF_LOWER_def CONF_NUMBER_def
    CONF_UNDER_def CONF_PUNCTUATION_def upt_256
  by simp

lemma alnum: "IS_ALPHA_NUMERIC_PUNCT c \<longleftrightarrow> unat c \<in> {33, 37, 38, 59, 63, 64, 94, 95, 124, 126} \<union> {42..57} \<union> {65..90} \<union> {97..122}"
  unfolding IS_ALPHA_NUMERIC_PUNCT_def by (rule conf_class_table [OF alnum_table])

lemma alnum_plain:
  assumes "IS_ALPHA_NUMERIC_PUNCT c"
  shows "\<not> IS_EOF c" "\<not> IS_WS c" "\<not> IS_ESC c" "\<not> IS_QUOTE c" "\<not> IS_COMMENT c" "c \<noteq> 0x0a" "c \<noteq> 0x24" "c \<noteq> 0"
  using assms unfolding alnum classes by auto

lemma signs:
  "\<not> IS_ALPHA_NUMERIC_PUNCT 0x3d" "\<not> IS_ALPHA_NUMERIC_PUNCT 0x5d" "\<not> IS_ALPHA_NUMERIC_PUNCT 0x5b" "\<not> IS_ALPHA_NUMERIC_PUNCT 0x22"
  unfolding alnum by simp_all

datatype config_line = In_section bytes | Assign bytes bytes

definition quote_char :: "byte \<Rightarrow> bytes" where
  "quote_char c = (if c = 0x22 \<or> c = 0x5c then [0x5c, c] else [c])"

definition quoted :: "bytes \<Rightarrow> bytes" where
  "quoted v = 0x22 # concat (map quote_char v) @ [0x22]"

text \<open>A line without its newline.\<close>

fun line_text :: "config_line \<Rightarrow> bytes" where
  "line_text (In_section s) = 0x5b # s @ [0x5d]"
| "line_text (Assign n v) = n @ 0x3d # quoted v"

definition print_line :: "config_line \<Rightarrow> bytes" where
  "print_line l = line_text l @ [0x0a]"

fun line_ok :: "config_line \<Rightarrow> bool" where
  "line_ok (In_section s) \<longleftrightarrow> (\<forall>c \<in> set s. IS_ALPHA_NUMERIC_PUNCT c)"
| "line_ok (Assign n v) \<longleftrightarrow> (\<forall>c \<in> set n. IS_ALPHA_NUMERIC_PUNCT c) \<and> 0 \<notin> set v \<and> 0x0a \<notin> set v"

text \<open>What the lines mean: the assignments, each with its section.\<close>

fun assignments :: "bytes \<Rightarrow> config_line list \<Rightarrow> ((bytes \<times> bytes) \<times> bytes) list" where
  "assignments cur [] = []"
| "assignments cur (In_section s # ls) = assignments s ls"
| "assignments cur (Assign n v # ls) = ((cur, n), v) # assignments cur ls"

section \<open>Scanning the format\<close>

lemma sign_classes:
  "\<not> IS_EOF 0x22" "IS_QUOTE 0x22" "\<not> IS_ESC 0x22" "\<not> IS_COMMENT 0x22" "\<not> IS_WS 0x22" "IS_ESC 0x5c"
  "\<not> IS_EOF 0x3d" "\<not> IS_QUOTE 0x3d" "\<not> IS_ESC 0x3d" "\<not> IS_COMMENT 0x3d" "\<not> IS_WS 0x3d"
  "\<not> IS_EOF 0x5b" "\<not> IS_QUOTE 0x5b" "\<not> IS_ESC 0x5b" "\<not> IS_COMMENT 0x5b" "\<not> IS_WS 0x5b"
  "\<not> IS_EOF 0x5d" "\<not> IS_QUOTE 0x5d" "\<not> IS_ESC 0x5d" "\<not> IS_COMMENT 0x5d" "\<not> IS_WS 0x5d"
  by (simp_all add: classes)

lemma esc_iff: "IS_ESC c \<longleftrightarrow> c = 0x5c"
  by (simp add: classes word_unat_eq_iff)

lemma clear_plain:
  "\<forall>c \<in> set n. \<not> IS_COMMENT c \<and> \<not> IS_QUOTE c \<and> \<not> IS_ESC c \<and> \<not> IS_EOF c \<Longrightarrow> clear_loop (n @ r) = n @ clear_loop r"
  by (induction n) (simp_all add: clear_loop.simps [of "_ # _"])

lemma scan_quoted: "0 \<notin> set v \<Longrightarrow> scan_quote_loop 0x22 (concat (map quote_char v) @ 0x22 # r) = r"
proof (induction v)
  case Nil
  then show ?case by (simp add: scan_quote_loop.simps [of _ "_ # _"])
next
  case (Cons c v)
  then have c: "\<not> IS_EOF c" "\<not> IS_EOF 0x5c" by (auto simp: not_eof)
  show ?case
    using Cons c by (cases "c = 0x22 \<or> c = 0x5c") (auto simp: quote_char_def scan_quote_loop.simps [of _ "_ # _"] esc_iff Let_def)
qed

lemma clear_quoted:
  assumes "0 \<notin> set v"
  shows "clear_loop (quoted v @ r) = quoted v @ clear_loop r"
proof -
  have "scan_quote (quoted v @ r) = r"
    using scan_quoted [OF assms, of r] by (simp add: scan_quote_def quoted_def)
  then show ?thesis
    by (subst clear_loop.simps) (simp add: Let_def sign_classes quoted_def)
qed

lemma eat_plain: "\<forall>c \<in> set n. IS_ALPHA_NUMERIC_PUNCT c \<Longrightarrow> \<not> IS_ALPHA_NUMERIC_PUNCT d \<Longrightarrow> \<not> IS_ESC d \<Longrightarrow> eat_alpha_numeric (n @ d # r) = d # r"
  by (induction n) (simp_all add: eat_alpha_numeric.simps [of "_ # _"] alnum_plain)

lemma copy_quoted_text:
  "0 \<notin> set v \<Longrightarrow> to + length v \<le> length d \<Longrightarrow>
     copy_quoted 0x22 (concat (map quote_char v) @ 0x22 # r) d to = (0x22 # r, put d to v, to + length v)"
proof (induction v arbitrary: d to)
  case Nil
  then show ?case by (simp add: copy_quoted.simps [of _ "_ # _"])
next
  case (Cons c v)
  then have c: "\<not> IS_EOF c" "\<not> IS_EOF 0x5c" "to < length d" by (auto simp: not_eof)
  have "copy_quoted 0x22 (concat (map quote_char (c # v)) @ 0x22 # r) d to =
      copy_quoted 0x22 (concat (map quote_char v) @ 0x22 # r) (d[to := c]) (to + 1)"
    using c by (cases "c = 0x22 \<or> c = 0x5c") (auto simp: quote_char_def copy_quoted.simps [of _ "_ # _"] esc_iff Let_def)
  also have "\<dots> = (0x22 # r, put (d[to := c]) (to + 1) v, to + 1 + length v)"
    using Cons.prems by (intro Cons.IH) simp_all
  finally show ?case
    using put_Cons [OF c(3), of c v] by simp
qed

lemma str_copy_result:
  assumes al: "\<forall>n. malloc_ok al n" and small: "strlen frm + 1 < 2 ^ 60" and t: "0 \<notin> set t" "length t \<le> strlen frm"
    and loop: "\<And>d. strlen frm + 1 \<le> length d \<Longrightarrow> str_copy_loop frm d 0 = Some (put d 0 t, length t)"
  shows "\<exists>d. str_copy al frm = Some d \<and> cstr d = t"
proof -
  obtain buf buf' d where b: "BUF_MEM_new al = Some buf" "BUF_MEM_grow al buf (strlen frm + 1) = (strlen frm + 1, buf')" "buf_data buf' = Some d"
    using ample_grow [OF al _ small] by auto
  have "strlen frm + 1 \<le> length d"
    by (rule grown_block [OF b(1,2) _ _ b(3)]) (use small in \<open>simp_all add: SIZE_MOD_def\<close>)
  then have "str_copy al frm = Some ((put d 0 t)[length t := 0])" "length t < length d"
    using loop b t(2) by (simp_all add: str_copy_def Let_def)
  moreover from this have "(put d 0 t)[length t := 0] = t @ 0 # drop (length t + 1) d"
    by (simp add: put_def list_update_append upd_conv_take_nth_drop)
  moreover have "cstr (t @ 0 # u) = t" for u
    unfolding cstr_def using t(1) by (subst takeWhile_append2) auto
  ultimately show ?thesis by simp
qed

lemma strlen_append: "0 \<notin> set t \<Longrightarrow> strlen (t @ 0 # r) = length t"
  by (induction t) auto

lemma copy_plain_text:
  "\<forall>c \<in> set t. IS_ALPHA_NUMERIC_PUNCT c \<Longrightarrow> to + length t < length d \<Longrightarrow>
     str_copy_loop (t @ 0 # r) d to = Some (put d to t, to + length t)"
proof (induction t arbitrary: d to)
  case Nil
  then show ?case by (simp add: str_copy_loop.simps [of "_ # _"])
next
  case (Cons c t)
  then have c: "IS_ALPHA_NUMERIC_PUNCT c" "to < length d" by auto
  have "str_copy_loop ((c # t) @ 0 # r) d to = str_copy_loop (t @ 0 # r) (d[to := c]) (to + 1)"
    using alnum_plain [OF c(1)] by (simp add: str_copy_loop.simps [of "_ # _"])
  also have "\<dots> = Some (put (d[to := c]) (to + 1) t, to + 1 + length t)"
    using Cons.prems by (intro Cons.IH) simp_all
  finally show ?case
    using put_Cons [OF c(2), of c t] by simp
qed

lemma plain_no_nul: "\<forall>c \<in> set t. IS_ALPHA_NUMERIC_PUNCT c \<Longrightarrow> 0 \<notin> set t"
  using alnum_plain(8) by blast

lemma str_copy_plain:
  assumes "\<forall>n. malloc_ok al n" "\<forall>c \<in> set t. IS_ALPHA_NUMERIC_PUNCT c" "length t < 2 ^ 32"
  shows "\<exists>d. str_copy al (t @ 0 # r) = Some d \<and> cstr d = t"
  using plain_no_nul [OF assms(2)] assms(3) copy_plain_text [OF assms(2), of 0]
  by (intro str_copy_result [OF assms(1)]) (simp_all add: strlen_append)

lemma plain_no_newline: "\<forall>c \<in> set t. IS_ALPHA_NUMERIC_PUNCT c \<Longrightarrow> 0x0a \<notin> set t"
  using alnum_plain(6) by blast

lemma quoted_no_nul: "0 \<notin> set v \<Longrightarrow> 0 \<notin> set (quoted v)" "length v \<le> length (concat (map quote_char v))"
  by (induction v) (auto simp: quoted_def quote_char_def)

lemma str_copy_quoted:
  assumes "\<forall>n. malloc_ok al n" "0 \<notin> set v" "length (quoted v) < 2 ^ 32"
  shows "\<exists>d. str_copy al (quoted v @ 0 # r) = Some d \<and> cstr d = v"
proof (rule str_copy_result [OF assms(1)])
  have len: "strlen (quoted v @ 0 # r) = length (quoted v)"
    by (rule strlen_append [OF quoted_no_nul(1) [OF assms(2)]])
  then show "strlen (quoted v @ 0 # r) + 1 < 2 ^ 60"
    using assms(3) by simp
  show le: "length v \<le> strlen (quoted v @ 0 # r)"
    unfolding len using quoted_no_nul(2) [of v] by (simp add: quoted_def)
  fix d :: bytes assume d: "strlen (quoted v @ 0 # r) + 1 \<le> length d"
  have "copy_quoted 0x22 (concat (map quote_char v) @ 0x22 # 0 # r) d 0 = (0x22 # 0 # r, put d 0 v, length v)"
    using copy_quoted_text [OF assms(2), of 0 d "0 # r"] d le by simp
  then show "str_copy_loop (quoted v @ 0 # r) d 0 = Some (put d 0 v, length v)"
    by (simp add: quoted_def str_copy_loop.simps [of "_ # _"] sign_classes)
qed (use assms(2) in simp)

section \<open>Lines of the format\<close>

lemma eat_ws_id: "p = [] \<or> \<not> IS_WS (hd p) \<Longrightarrow> eat_ws p = p"
  by (cases p) auto

lemma clear_section:
  assumes "\<forall>c \<in> set s. IS_ALPHA_NUMERIC_PUNCT c"
  shows "clear_comments (0x5b # s @ 0x5d # 0 # r) = 0x5b # s @ 0x5d # 0 # r"
proof -
  have "clear_loop ((0x5b # s @ [0x5d]) @ 0 # r) = (0x5b # s @ [0x5d]) @ clear_loop (0 # r)"
    using assms by (intro clear_plain) (auto simp: sign_classes alnum_plain)
  then show ?thesis
    by (simp add: clear_comments_def sign_classes clear_loop.simps [of "0 # r"])
qed

lemma hd_plain: "\<forall>c \<in> set s. IS_ALPHA_NUMERIC_PUNCT c \<Longrightarrow> \<not> IS_WS d \<Longrightarrow> \<not> IS_WS (hd (s @ d # r))"
  by (cases s) (auto simp: alnum_plain)

lemma process_section:
  assumes al: "\<forall>n. malloc_ok al n" and s: "\<forall>c \<in> set s. IS_ALPHA_NUMERIC_PUNCT c" "length s < 2 ^ 32"
  shows "\<exists>m' sec sv' conf'. process_line al stale conf section sv (0x5b # s @ 0x5d # 0 # r) = (m', Inr (sec, sv'), conf') \<and>
    cstr sec = s \<and> section_or_new al conf sec = (Some sv', conf') \<and> next_ptr conf' \<le> next_ptr conf + 1"
proof -
  let ?m = "0x5b # s @ 0x5d # 0 # r"
  have start: "eat_ws (s @ 0x5d # 0 # r) = s @ 0x5d # 0 # r"
    using hd_plain [OF s(1), of "0x5d"] by (intro eat_ws_id) (simp add: sign_classes)
  have e: "find_end (s @ 0x5d # 0 # r) = Some (0x5d # 0 # r)"
    by (subst find_end.simps) (simp add: eat_plain s signs sign_classes Let_def)
  have m: "?m[Suc (length s) := 0] = 0x5b # s @ 0 # 0 # r"
    by (simp add: list_update_append)
  obtain sec where sec: "str_copy al (s @ 0 # 0 # r) = Some sec" "cstr sec = s"
    using str_copy_plain [OF al s, of "0 # r"] by blast
  have "strlen sec < 2 ^ 32" using sec(2) s(2) by (simp add: strlen_def)
  from section_or_new_total [OF al this, of conf] obtain sv' conf' where n: "section_or_new al conf sec = (Some sv', conf')" "next_ptr conf' \<le> next_ptr conf + 1"
    by blast
  have "process_line al stale conf section sv ?m = section_line al conf ?m ?m"
    using s by (simp add: process_line_def clear_section sign_classes Let_def)
  moreover have "section_line al conf ?m ?m = (0x5b # s @ 0 # 0 # r, Inr (sec, sv'), conf')"
    by (simp add: section_line_def start e offset_def sec n list_update_append)
  ultimately have "process_line al stale conf section sv ?m = (0x5b # s @ 0 # 0 # r, Inr (sec, sv'), conf')" by simp
  with sec n show ?thesis by blast
qed

lemma clear_assign:
  assumes "\<forall>c \<in> set n. IS_ALPHA_NUMERIC_PUNCT c" "0 \<notin> set v"
  shows "clear_comments (n @ 0x3d # quoted v @ 0 # r) = n @ 0x3d # quoted v @ 0 # r"
proof -
  let ?m = "n @ 0x3d # quoted v @ 0 # r"
  have "\<not> IS_WS (hd ?m)"
    by (rule hd_plain [OF assms(1)]) (simp add: sign_classes)
  then have "takeWhile IS_WS ?m = []" "dropWhile IS_WS ?m = ?m"
    by (cases n; simp)+
  moreover have "clear_loop ((n @ [0x3d]) @ quoted v @ 0 # r) = (n @ [0x3d]) @ clear_loop (quoted v @ 0 # r)"
    using assms(1) by (intro clear_plain) (auto simp: sign_classes alnum_plain)
  moreover have "clear_loop (quoted v @ 0 # r) = quoted v @ 0 # r"
    unfolding clear_quoted [OF assms(2)] by (simp add: clear_loop.simps [of "0 # r"])
  ultimately show ?thesis by (simp add: clear_comments_def)
qed

lemma value_line_assign:
  assumes n: "\<forall>c \<in> set n. IS_ALPHA_NUMERIC_PUNCT c" and v: "0 \<notin> set v"
  shows "value_line al stale conf section sv (n @ 0x3d # quoted v @ 0 # r) (n @ 0x3d # quoted v @ 0 # r) =
    (n @ 0 # quoted v @ 0 # r, store_value al stale conf section sv None (n @ 0 # quoted v @ 0 # r) (quoted v @ 0 # r))"
proof -
  let ?m = "n @ 0x3d # quoted v @ 0 # r" and ?m1 = "n @ 0 # quoted v @ 0 # r"
  have e: "eat_alpha_numeric ?m = 0x3d # quoted v @ 0 # r"
    by (rule eat_plain [OF n]) (simp_all add: signs sign_classes)
  have m1: "?m[offset ?m (0x3d # quoted v @ 0 # r) := 0] = ?m1"
    by (simp add: offset_def list_update_append)
  have p: "eat_ws (0x3d # quoted v @ 0 # r) = 0x3d # quoted v @ 0 # r" "eat_ws (quoted v @ 0 # r) = quoted v @ 0 # r"
    by (simp_all add: quoted_def sign_classes)
  have "\<forall>c \<in> set (quoted v). \<not> IS_EOF c"
    using quoted_no_nul(1) [OF v] not_eof by blast
  then have scan: "scan_eof (quoted v @ 0 # r) = 0 # r"
    by (simp add: scan_eof_def)
  have len: "length (quoted v) = Suc (Suc (length (concat (map quote_char v))))"
    by (simp add: quoted_def)
  define k where "k = length n + length (quoted v)"
  have k: "offset ?m1 (0 # r) - Suc 0 = k" "0 < k"
    using len by (simp_all add: offset_def k_def)
  have "?m1 ! k = 0x22"
    using len by (simp add: k_def nth_append quoted_def)
  then have trim: "trim_back ?m1 (offset ?m1 (quoted v @ 0 # r)) k = k"
    using k(2) by (cases k) (simp_all add: sign_classes)
  have m2: "?m1[k + 1 := 0] = ?m1"
    by (simp add: k_def list_update_append nth_append)
  have off: "drop (offset ?m1 ?m) ?m1 = ?m1" "drop (offset ?m1 (quoted v @ 0 # r)) ?m1 = quoted v @ 0 # r"
    by (simp_all add: offset_def)
  show ?thesis
    unfolding value_line_def Let_def e by (simp add: sign_classes p m1 scan k(1) trim m2 [simplified] off del: drop_append)
qed

text \<open>What a name stands for, as strings.\<close>

definition conf_lookup :: "conf \<Rightarrow> bytes \<Rightarrow> bytes \<Rightarrow> bytes option" where
  "conf_lookup conf s n = map_option cstr (NCONF_get_string conf (Some s) n)"

lemma conf_lookup_same:
  assumes "conf_ok l conf" "conf_ok l' conf'" "conf_values conf' = conf_values conf"
  shows "conf_lookup conf' s n = conf_lookup conf s n"
proof -
  have "NCONF_get_string conf' (Some s) n = Some x \<longleftrightarrow> NCONF_get_string conf (Some s) n = Some x" for x
    by (simp add: get_string_Some [OF assms(1)] get_string_Some [OF assms(2)] assms(3))
  then have "NCONF_get_string conf' (Some s) n = NCONF_get_string conf (Some s) n"
    by (metis option.exhaust)
  then show ?thesis by (simp add: conf_lookup_def)
qed

definition after_line :: "bytes \<Rightarrow> config_line \<Rightarrow> bytes" where
  "after_line cur l = (case l of In_section s \<Rightarrow> s | Assign _ _ \<Rightarrow> cur)"

lemma assignments_Cons: "assignments cur (l # ls) = assignments cur [l] @ assignments (after_line cur l) ls"
  by (cases l) (simp_all add: after_line_def)

lemma process_plain_line:
  assumes al: "\<forall>n. malloc_ok al n" and inv: "in_section conf sec sv" and small: "next_ptr conf + 1 < 2 ^ 30" "strlen sec < 2 ^ 32"
    and l: "line_ok l" "length (line_text l) < 2 ^ 32"
  shows "\<exists>m' sec' sv' conf'. process_line al stale conf sec sv (line_text l @ 0 # r) = (m', Inr (sec', sv'), conf') \<and>
    in_section conf' sec' sv' \<and> next_ptr conf' \<le> next_ptr conf + 1 \<and> cstr sec' = after_line (cstr sec) l \<and>
    (\<forall>s n. conf_lookup conf' s n =
       (case map_of (assignments (cstr sec) [l]) (cstr s, cstr n) of Some v \<Rightarrow> Some v | None \<Rightarrow> conf_lookup conf s n))"
proof (cases l)
  case (In_section name)
  then have name: "\<forall>c \<in> set name. IS_ALPHA_NUMERIC_PUNCT c" "length name < 2 ^ 32"
    using l by simp_all
  obtain m' sec' sv' conf' where p: "process_line al stale conf sec sv (0x5b # name @ 0x5d # 0 # r) = (m', Inr (sec', sv'), conf')"
    "cstr sec' = name" "section_or_new al conf sec' = (Some sv', conf')" "next_ptr conf' \<le> next_ptr conf + 1"
    using process_section [OF al name] by blast
  have "next_ptr conf' < SIZE_MOD" using p(4) small(1) by (simp add: SIZE_MOD_def)
  with inv section_or_new_ok [OF _ p(3), of "[]"] have n: "conf_ok [] conf" "conf_ok [] conf'" "conf_values conf' = conf_values conf"
    "in_section conf' sec' sv'"
    by (auto simp: in_section_def)
  with p conf_lookup_same [OF n(1-3)] In_section show ?thesis
    by (simp add: after_line_def)
next
  case (Assign n v)
  then have n: "\<forall>c \<in> set n. IS_ALPHA_NUMERIC_PUNCT c" "0 \<notin> set v" "length n < 2 ^ 32" "length (quoted v) < 2 ^ 32"
    using l by simp_all
  define m where "m = n @ 0x3d # quoted v @ 0 # r"
  have "deref m = 0x3d \<or> IS_ALPHA_NUMERIC_PUNCT (deref m)"
    using n(1) by (cases n) (simp_all add: m_def)
  then have d: "\<not> IS_EOF (deref m)" "deref m \<noteq> 0x5b"
    using signs alnum_plain sign_classes by auto
  have "eat_ws m = m"
    using hd_plain [OF n(1), of "0x3d" "quoted v @ 0 # r"] by (intro eat_ws_id) (simp add: m_def sign_classes)
  moreover have "clear_comments m = m"
    unfolding m_def by (rule clear_assign [OF n(1,2)])
  moreover obtain val where val: "str_copy al (quoted v @ 0 # r) = Some val" "cstr val = v"
    using str_copy_quoted [OF al n(2,4), of r] by blast
  obtain err conf' where st: "store_value al stale conf sec sv None (n @ 0 # quoted v @ 0 # r) (quoted v @ 0 # r) = (err, conf')"
    by (rule prod.exhaust)
  have pname: "cstr (n @ 0 # quoted v @ 0 # r) = n" "strlen (n @ 0 # quoted v @ 0 # r) < 2 ^ 32"
    using strlen_append [OF plain_no_nul [OF n(1)]] n(3) plain_no_nul [OF n(1)] by (auto simp: cstr_def takeWhile_append)
  note total = store_value_total [OF al inv small pname(2) val(1) st]
  ultimately have run: "process_line al stale conf sec sv m = (n @ 0 # quoted v @ 0 # r, Inr (sec, sv), conf')"
    using d value_line_assign [OF n(1,2), of al stale conf sec sv r] st by (simp add: process_line_def m_def [symmetric] Let_def)
  have "next_ptr conf' < SIZE_MOD" using total small(1) by (simp add: SIZE_MOD_def)
  with inv store_value_ok [OF _ _ _ st] total val pname have n': "in_section conf' sec sv"
    "\<forall>s m. NCONF_get_string conf' (Some s) m = (if cstr sec = cstr s \<and> n = cstr m then Some val else NCONF_get_string conf (Some s) m)"
    by (auto simp: in_section_def)
  then have "conf_lookup conf' s m = (case map_of (assignments (cstr sec) [l]) (cstr s, cstr m) of Some v \<Rightarrow> Some v | None \<Rightarrow> conf_lookup conf s m)" for s m
    using val(2) Assign by (simp add: conf_lookup_def)
  with run n'(1) total Assign show ?thesis
    by (simp add: m_def after_line_def)
qed

section \<open>Reading the format\<close>

lemma line_text_end:
  assumes "line_ok l"
  obtains u c where "line_text l = u @ [c]" "c = 0x22 \<or> c = 0x5d" "0 \<notin> set (line_text l)" "0x0a \<notin> set (line_text l)"
proof (cases l)
  case (In_section s)
  with assms show ?thesis
    using plain_no_nul [of s] plain_no_newline [of s] by (intro that [of "0x5b # s" "0x5d"]) auto
next
  case (Assign n v)
  have "0x0a \<notin> set (quoted v)" if "0x0a \<notin> set v"
    using that by (induction v) (auto simp: quoted_def quote_char_def)
  with Assign assms quoted_no_nul(1) [of v] show ?thesis
    using plain_no_nul [of n] plain_no_newline [of n] by (intro that [of "n @ 0x3d # 0x22 # concat (map quote_char v)" "0x22"]) (auto simp: quoted_def)
qed

lemma next_plain_line:
  assumes "line_ok l" "length (print_line l) \<le> CONFBUFSIZE - 2"
  shows "next_line (print_line l @ rest) = print_line l"
proof -
  obtain u c where l: "0x0a \<notin> set (line_text l)" by (rule line_text_end [OF assms(1)])
  define k where "k = min (CONFBUFSIZE - 2) (length (print_line l @ rest))"
  have k: "length (print_line l) \<le> k" using assms(2) by (simp add: k_def)
  have "take k (print_line l @ rest) = line_text l @ 0x0a # take (k - length (print_line l)) rest"
    using k by (simp add: print_line_def take_Cons')
  then have line: "takeWhile (\<lambda>c. c \<noteq> 0x0a) (take k (print_line l @ rest)) = line_text l" "length (line_text l) < length (take k (print_line l @ rest))"
    using l by (simp_all add: takeWhile_append2 [of _ _ "0x0a # _"] takeWhile_tail, auto)
  have "line_length k (print_line l @ rest) = length (print_line l)"
    unfolding line_length_def Let_def line(1) using line(2) by (simp add: print_line_def)
  then show ?thesis
    unfolding next_line_def k_def [symmetric] by simp
qed

lemma strip_eol_line: "p ! Suc i = 0x0a \<Longrightarrow> p ! i \<noteq> 0x0d \<Longrightarrow> p ! i \<noteq> 0x0a \<Longrightarrow> strip_eol p (Suc (Suc i)) = Suc i"
  by simp

lemma after_read_line:
  assumes l: "line_ok l" "length (print_line l) \<le> CONFBUFSIZE - 2" and room: "CONFBUFSIZE \<le> length (block buff)"
    and buff: "buf_mem_ok buff" and ls: "ld_bufnum ls = 0"
  shows "\<exists>ls' r. after_read buff ls (print_line l) = ls' \<and> \<not> ld_again ls' \<and> ld_conf ls' = ld_conf ls \<and> ld_section ls' = ld_section ls \<and>
    ld_sv ls' = ld_sv ls \<and> buf_mem_ok (ld_buff ls') \<and> block (ld_buff ls') = line_text l @ 0 # r"
proof -
  obtain u c where t: "line_text l = u @ [c]" "c = 0x22 \<or> c = 0x5d" "0 \<notin> set (line_text l)"
    by (rule line_text_end [OF l(1)])
  define d where "d = stored (block buff) 0 (print_line l)"
  have len: "length (print_line l) < CONFBUFSIZE - 1"
    using l(2) by (simp add: CONFBUFSIZE_def)
  note st = stored [OF _ len, of 0 "block buff", folded d_def]
  have dlen: "length d = length (block buff)" and dtake: "take (length (print_line l) + 1) d = print_line l @ [0]"
    using st room by simp_all
  have "d = (print_line l @ [0]) @ drop (length (print_line l) + 1) d"
    unfolding dtake [symmetric] by simp
  then obtain r where d: "d = u @ c # 0x0a # 0 # r"
    by (auto simp: print_line_def t(1))
  have ii: "length (cstr (print_line l @ [0])) = Suc (Suc (length u))"
    using t(3) strlen_append [of "print_line l" "[]"] by (simp add: strlen_def print_line_def t(1))
  have "strip_eol d (Suc (Suc (length u))) = Suc (length u)"
    by (rule strip_eol_line) (use t(2) in \<open>auto simp: d nth_append\<close>)
  then have e: "after_read buff ls (print_line l) = ls\<lparr>ld_buff := buff\<lparr>buf_data := Some (u @ c # 0 # 0 # r)\<rparr>, ld_bufnum := Suc (length u),
      ld_again := False, ld_eline := ld_eline ls + 1\<rparr>"
    using t(2) by (auto simp: after_read_def end_of_read_def d_def [symmetric] ii ls d esc_iff list_update_append nth_append Let_def)
  have "block buff \<noteq> []" using room by (auto simp: CONFBUFSIZE_def)
  with dlen buff d have "buf_mem_ok (buff\<lparr>buf_data := Some (u @ c # 0 # 0 # r)\<rparr>)"
    by (auto simp: buf_mem_ok_def block_def split: option.splits)
  then show ?thesis
    by (simp add: e block_def t(1))
qed

lemma grow_total:
  assumes al: "\<forall>n. malloc_ok al n" and ok: "buf_mem_ok buf" and len: "0 < len" "len < 2 ^ 60"
  shows "\<exists>buf'. BUF_MEM_grow al buf len = (len, buf') \<and> buf_mem_ok buf' \<and> len \<le> length (block buf')"
proof -
  have "fst (BUF_MEM_reserve al buf len)"
  proof (cases "len \<le> buf_max buf")
    case False
    have s: "size_add len 3 = len + 3" "size_mul ((len + 3) div 3) 4 = (len + 3) div 3 * 4"
      using len by (simp_all add: size_add_def size_mul_def SIZE_MOD_def)
    moreover have "(len + 3) div 3 * 4 + 8 < SIZE_MOD"
      using len by (simp add: SIZE_MOD_def)
    then obtain p where "OPENSSL_malloc al ((len + 3) div 3 * 4) = Some p"
      using malloc_total [OF al] by blast
    ultimately show ?thesis
      by (auto simp: BUF_MEM_reserve_def OPENSSL_realloc_def Let_def split: option.splits)
  qed (simp add: BUF_MEM_reserve_def)
  then obtain buf' where g: "BUF_MEM_grow al buf len = (len, buf')"
    by (cases "BUF_MEM_reserve al buf len") (auto simp: BUF_MEM_grow_def Let_def)
  have "len < SIZE_MOD" using len by (simp add: SIZE_MOD_def)
  note ok' = BUF_MEM_grow_ok [OF ok g _ this]
  with len(1) length_buf_contents [OF ok] have "buf_mem_ok buf'" "len \<le> length (buf_contents buf')" by auto
  with g show ?thesis
    by (auto simp: buf_contents_def block_def split: option.splits)
qed

section \<open>Loading the format\<close>

text \<open>Between two lines.\<close>

definition between_lines :: "load_state \<Rightarrow> mem_bio \<Rightarrow> bytes \<Rightarrow> bool" where
  "between_lines ls bio c \<longleftrightarrow> ld_ok ls \<and> buf_mem_ok (ld_buff ls) \<and> ld_bufnum ls = 0 \<and> \<not> ld_again ls \<and> strlen (ld_section ls) < 2 ^ 32 \<and>
     mem_ok bio \<and> mem_contents bio = c"

definition short_line :: "config_line \<Rightarrow> bool" where
  "short_line l \<longleftrightarrow> line_ok l \<and> length (print_line l) \<le> CONFBUFSIZE - 2"

lemma load_step_line:
  assumes al: "\<forall>n. malloc_ok al n" and ls: "between_lines ls bio (print_line l @ rest)" and l: "short_line l"
    and small: "next_ptr (ld_conf ls) + 1 < 2 ^ 30"
  shows "\<exists>ls' bio'. load_step (Some mem_gets) al stale (bio, e) ls = Some (Inr ls', bio', e) \<and> between_lines ls' bio' rest \<and>
    next_ptr (ld_conf ls') \<le> next_ptr (ld_conf ls) + 1 \<and> cstr (ld_section ls') = after_line (cstr (ld_section ls)) l \<and>
    (\<forall>s n. conf_lookup (ld_conf ls') s n =
       (case map_of (assignments (cstr (ld_section ls)) [l]) (cstr s, cstr n) of Some v \<Rightarrow> Some v | None \<Rightarrow> conf_lookup (ld_conf ls) s n))"
proof -
  note ls' = ls [unfolded between_lines_def]
  have l': "line_ok l" "length (print_line l) \<le> CONFBUFSIZE - 2"
    using l by (simp_all add: short_line_def)
  obtain buff where g: "BUF_MEM_grow al (ld_buff ls) CONFBUFSIZE = (CONFBUFSIZE, buff)" "buf_mem_ok buff" "CONFBUFSIZE \<le> length (block buff)"
    using grow_total [OF al, of "ld_buff ls" CONFBUFSIZE] ls' by (auto simp: CONFBUFSIZE_def)
  have next_l: "next_line (mem_contents bio) = print_line l"
    using next_plain_line [OF l'] ls' by simp
  have room: "ld_bufnum ls + CONFBUFSIZE \<le> length (block buff)" and mem: "mem_ok bio"
    using g(3) ls' by simp_all
  obtain bio' where bio': "mem_ok bio'" "mem_contents bio' = drop (length (next_line (mem_contents bio))) (mem_contents bio)"
    "read_line (Some mem_gets) (bio, e) buff ls =
       Some (if cstr (next_line (mem_contents bio) @ [0]) = [] \<and> \<not> ld_again ls then None
         else Some (after_read buff ls (next_line (mem_contents bio))), bio', e)"
    by (rule read_line_mem [OF mem room])
  have "cstr (print_line l @ [0]) \<noteq> []"
  proof -
    obtain u c where "line_text l = u @ [c]" "c = 0x22 \<or> c = 0x5d" "0 \<notin> set (line_text l)"
      by (rule line_text_end [OF l'(1)])
    then show ?thesis by (cases u) (auto simp: print_line_def cstr_def)
  qed
  with bio'(3) have read: "read_line (Some mem_gets) (bio, e) buff ls = Some (Some (after_read buff ls (print_line l)), bio', e)"
    by (simp add: next_l)
  obtain ls1 r where ls1: "after_read buff ls (print_line l) = ls1" "\<not> ld_again ls1" "ld_conf ls1 = ld_conf ls" "ld_section ls1 = ld_section ls"
    "ld_sv ls1 = ld_sv ls" "buf_mem_ok (ld_buff ls1)" "block (ld_buff ls1) = line_text l @ 0 # r"
    using after_read_line [OF l' g(3,2)] ls' by blast
  have short: "length (line_text l) < 2 ^ 32"
    using l'(2) by (simp add: print_line_def CONFBUFSIZE_def)
  have "in_section (ld_conf ls) (ld_section ls) (ld_sv ls)" "strlen (ld_section ls) < 2 ^ 32" using ls' by blast+
  from process_plain_line [OF al this(1) small this(2) l'(1) short, of stale r] obtain m' sec sv conf' where
    p: "process_line al stale (ld_conf ls) (ld_section ls) (ld_sv ls) (line_text l @ 0 # r) = (m', Inr (sec, sv), conf')"
      "in_section conf' sec sv" "next_ptr conf' \<le> next_ptr (ld_conf ls) + 1" "cstr sec = after_line (cstr (ld_section ls)) l"
      "\<forall>s n. conf_lookup conf' s n = (case map_of (assignments (cstr (ld_section ls)) [l]) (cstr s, cstr n) of
         Some v \<Rightarrow> Some v | None \<Rightarrow> conf_lookup (ld_conf ls) s n)"
    by blast
  define ls2 where "ls2 = ls1\<lparr>ld_conf := conf', ld_section := sec, ld_sv := sv, ld_buff := (ld_buff ls1)\<lparr>buf_data := Some m'\<rparr>, ld_bufnum := 0\<rparr>"
  have "load_step (Some mem_gets) al stale (bio, e) ls = Some (Inr ls2, bio', e)"
    using g(1) ls' read ls1 p(1) by (simp add: load_step_def ls2_def CONFBUFSIZE_def)
  moreover have "length m' = length (block (ld_buff ls1))"
    using process_line_length [OF p(1)] ls1(7) by simp
  then have "buf_mem_ok (ld_buff ls2)"
    using ls1(6,7) by (auto simp: ls2_def buf_mem_ok_def block_def split: option.splits)
  moreover have "strlen sec < 2 ^ 32"
    using p(4) ls' short by (auto simp: strlen_def after_line_def split: config_line.splits)
  then have "between_lines ls2 bio' rest"
    using p(2) \<open>buf_mem_ok (ld_buff ls2)\<close> ls1(2) bio'(1,2) ls' next_l by (simp add: between_lines_def ls2_def)
  ultimately show ?thesis
    using p(3-5) by (simp add: ls2_def)
qed

lemma load_step_end:
  assumes al: "\<forall>n. malloc_ok al n" and ls: "between_lines ls bio []"
  shows "\<exists>bio'. load_step (Some mem_gets) al stale (bio, e) ls = Some (Inl (None, ls), bio', e)"
proof -
  note ls' = ls [unfolded between_lines_def]
  obtain buff where g: "BUF_MEM_grow al (ld_buff ls) CONFBUFSIZE = (CONFBUFSIZE, buff)" "CONFBUFSIZE \<le> length (block buff)"
    using grow_total [OF al, of "ld_buff ls" CONFBUFSIZE] ls' by (auto simp: CONFBUFSIZE_def)
  have room: "ld_bufnum ls + CONFBUFSIZE \<le> length (block buff)" and mem: "mem_ok bio"
    using g(2) ls' by simp_all
  have end_of_text: "cstr (next_line (mem_contents bio) @ [0]) = [] \<and> \<not> ld_again ls"
    using ls' next_line(2) [of "[]"] by (simp add: cstr_def)
  obtain bio' where "read_line (Some mem_gets) (bio, e) buff ls =
       Some (if cstr (next_line (mem_contents bio) @ [0]) = [] \<and> \<not> ld_again ls then None
         else Some (after_read buff ls (next_line (mem_contents bio))), bio', e)"
    by (rule read_line_mem [OF mem room])
  then have "read_line (Some mem_gets) (bio, e) buff ls = Some (None, bio', e)"
    using end_of_text by simp
  with g(1) ls' show ?thesis
    by (simp add: load_step_def CONFBUFSIZE_def)
qed

lemma load_loop_text:
  assumes al: "\<forall>n. malloc_ok al n"
  shows "between_lines ls bio (concat (map print_line cs)) \<Longrightarrow> \<forall>l \<in> set cs. short_line l \<Longrightarrow>
    next_ptr (ld_conf ls) + length cs + 1 < 2 ^ 30 \<Longrightarrow>
    \<exists>ls' bio'. load_loop (Some mem_gets) al stale (bio, e) ls = Some ((None, ls'), bio', e) \<and> conf_ok [] (ld_conf ls') \<and>
      next_ptr (ld_conf ls') \<le> next_ptr (ld_conf ls) + length cs \<and>
      (\<forall>s n. conf_lookup (ld_conf ls') s n =
         (case map_of (rev (assignments (cstr (ld_section ls)) cs)) (cstr s, cstr n) of
            Some v \<Rightarrow> Some v | None \<Rightarrow> conf_lookup (ld_conf ls) s n))"
proof (induction cs arbitrary: ls bio)
  case Nil
  then obtain bio' where "load_step (Some mem_gets) al stale (bio, e) ls = Some (Inl (None, ls), bio', e)"
    using load_step_end [OF al, of ls bio stale e] by auto
  with Nil show ?case
    by (simp add: load_loop.simps [of _ _ _ "(bio, e)"] between_lines_def in_section_def)
next
  case (Cons l cs)
  have "between_lines ls bio (print_line l @ concat (map print_line cs))" "short_line l" "next_ptr (ld_conf ls) + 1 < 2 ^ 30"
    using Cons.prems by simp_all
  from load_step_line [OF al this, of stale e] obtain ls1 bio1 where
    s: "load_step (Some mem_gets) al stale (bio, e) ls = Some (Inr ls1, bio1, e)" "between_lines ls1 bio1 (concat (map print_line cs))"
      "next_ptr (ld_conf ls1) \<le> next_ptr (ld_conf ls) + 1" "cstr (ld_section ls1) = after_line (cstr (ld_section ls)) l"
      "\<forall>s n. conf_lookup (ld_conf ls1) s n = (case map_of (assignments (cstr (ld_section ls)) [l]) (cstr s, cstr n) of
         Some v \<Rightarrow> Some v | None \<Rightarrow> conf_lookup (ld_conf ls) s n)"
    by blast
  have "\<forall>l \<in> set cs. short_line l" "next_ptr (ld_conf ls1) + length cs + 1 < 2 ^ 30"
    using Cons.prems s(3) by simp_all
  from Cons.IH [OF s(2) this] obtain ls' bio' where
    r: "load_loop (Some mem_gets) al stale (bio1, e) ls1 = Some ((None, ls'), bio', e)" "conf_ok [] (ld_conf ls')"
      "next_ptr (ld_conf ls') \<le> next_ptr (ld_conf ls1) + length cs"
      "\<forall>s n. conf_lookup (ld_conf ls') s n = (case map_of (rev (assignments (cstr (ld_section ls1)) cs)) (cstr s, cstr n) of
         Some v \<Rightarrow> Some v | None \<Rightarrow> conf_lookup (ld_conf ls1) s n)"
    by blast
  have "load_loop (Some mem_gets) al stale (bio, e) ls = Some ((None, ls'), bio', e)"
    using s(1) r(1) by (simp add: load_loop.simps [of _ _ _ "(bio, e)"])
  moreover have "conf_lookup (ld_conf ls') s n = (case map_of (rev (assignments (cstr (ld_section ls)) (l # cs))) (cstr s, cstr n) of
      Some v \<Rightarrow> Some v | None \<Rightarrow> conf_lookup (ld_conf ls) s n)" for s n
  proof -
    have "rev (assignments (cstr (ld_section ls)) [l]) = assignments (cstr (ld_section ls)) [l]"
      by (cases l) simp_all
    then show ?thesis
      unfolding assignments_Cons [of _ l cs] s(4) [symmetric]
      using r(4) s(5) by (simp add: map_add_def split: option.splits)
  qed
  ultimately show ?case
    using r(2,3) s(3) by auto
qed

text \<open>The configuration that the lines describe; the last assignment to a name counts.\<close>

definition described :: "config_line list \<Rightarrow> bytes \<Rightarrow> bytes \<Rightarrow> bytes option" where
  "described cs s n = map_of (rev (assignments (cstr kDefaultSectionName) cs)) (s, n)"

lemma load_text:
  assumes al: "\<forall>n. malloc_ok al n" and new: "NCONF_new al None = Some conf"
    and bio: "mem_ok bio" "mem_contents bio = concat (map print_line cs)" and cs: "\<forall>l \<in> set cs. short_line l" "length cs < 2 ^ 29"
  shows "\<exists>conf' bio'. NCONF_load_bio (Some mem_gets) al stale conf (bio, e) = Some ((None, None, conf'), bio', e) \<and>
    conf_ok [] conf' \<and> next_ptr conf' \<le> length cs + 1 \<and> (\<forall>s n. conf_lookup conf' s n = described cs (cstr s) (cstr n))"
proof -
  note c = NCONF_new_ok [OF new]
  obtain p where "OPENSSL_malloc al buf_struct_size = Some p"
    using malloc_total [OF al, of buf_struct_size] by (auto simp: buf_struct_size_def SIZE_MOD_def)
  then obtain buff where buff: "BUF_MEM_new al = Some buff"
    by (auto simp: BUF_MEM_new_def OPENSSL_zalloc_def)
  have len: "strlen kDefaultSectionName < 2 ^ 32"
    by (simp add: kDefaultSectionName_def)
  then obtain sec where sec: "OPENSSL_strdup al (Some kDefaultSectionName) = Some sec"
    using strdup_total [OF al] by blast
  have csec: "cstr sec = cstr kDefaultSectionName" "strlen sec < 2 ^ 32"
    using cstr_strdup [OF sec] len by (simp_all add: strlen_def)
  obtain sv conf1 where new1: "NCONF_new_section al conf sec = (Some sv, conf1)" "next_ptr conf1 = next_ptr conf + 1"
    using new_section_total [OF al csec(2), of conf] by blast
  have "next_ptr conf1 < SIZE_MOD" using new1(2) c(3) by (simp add: SIZE_MOD_def)
  note n1 = new_section_ok [OF c(1) new1(1) this]
  define ls where "ls = \<lparr>ld_conf = conf1, ld_section = sec, ld_sv = sv, ld_buff = buff, ld_bufnum = 0, ld_again = False, ld_eline = 0\<rparr>"
  have "between_lines ls bio (concat (map print_line cs))"
    using n1 new_buffer_ok [OF buff] bio csec(2) by (simp add: between_lines_def ls_def in_section_def)
  then obtain ls' bio' where l: "load_loop (Some mem_gets) al stale (bio, e) ls = Some ((None, ls'), bio', e)" "conf_ok [] (ld_conf ls')"
    "next_ptr (ld_conf ls') \<le> next_ptr (ld_conf ls) + length cs"
    "\<forall>s n. conf_lookup (ld_conf ls') s n = (case map_of (rev (assignments (cstr (ld_section ls)) cs)) (cstr s, cstr n) of
       Some v \<Rightarrow> Some v | None \<Rightarrow> conf_lookup (ld_conf ls) s n)"
    using load_loop_text [OF al _ cs(1), of ls bio stale e] cs(2) new1(2) c(3) by (auto simp: ls_def)
  have "NCONF_load_bio (Some mem_gets) al stale conf (bio, e) = Some ((None, None, ld_conf ls'), bio', e)"
    using l(1) by (simp add: NCONF_load_bio_def buff sec new1(1) ls_def [symmetric])
  moreover have "conf_lookup conf1 s n = None" for s n
  proof -
    have "stored_values conf1 = {}" using n1 c(2) by simp
    then have "NCONF_get_string conf1 (Some s) n \<noteq> Some x" for x
      using get_string_Some [of "[]" conf1 s n x] n1 by simp
    then show ?thesis by (cases "NCONF_get_string conf1 (Some s) n") (auto simp: conf_lookup_def)
  qed
  then have "\<forall>s n. conf_lookup (ld_conf ls') s n = described cs (cstr s) (cstr n)"
    using l(4) by (simp add: ls_def described_def csec(1) split: option.splits)
  ultimately show ?thesis
    using l(2,3) new1(2) c(3) by (auto simp: ls_def)
qed

section \<open>Properties\<close>


definition config_lines :: "config_line list" where
  "config_lines = [Assign [0x61] [0x62], In_section [0x73], Assign [0x61] [0x22, 0x23]]"

definition config_bio :: mem_bio where
  "config_bio = \<lparr>bio_init = True, bio_shutdown = 1, bio_flags = BIO_FLAGS_MEM_RDONLY, retry_reason = 0, bio_num = 0,
     bio_ptr = \<lparr>mem_b = \<lparr>buf_length = 18, buf_data = Some (concat (map print_line config_lines)), buf_max = 18\<rparr>, mem_off = 0\<rparr>,
     num_read = 0, num_write = 0\<rparr>"

lemma config_text: "concat (map print_line config_lines) =
    [0x61, 0x3d, 0x22, 0x62, 0x22, 0x0a, 0x5b, 0x73, 0x5d, 0x0a, 0x61, 0x3d, 0x22, 0x5c, 0x22, 0x23, 0x22, 0x0a]"
  by (simp add: config_lines_def print_line_def quoted_def quote_char_def)

lemma config_bio: "mem_ok config_bio" "mem_contents config_bio = concat (map print_line config_lines)"
  by (simp_all add: config_bio_def config_text mem_ok_def mem_contents_def mem_data_def mem_rdonly_def BIO_FLAGS_MEM_RDONLY_def SIZE_MOD_def)

lemma config_lines_short: "\<forall>l \<in> set config_lines. short_line l"
  by (simp add: config_lines_def short_line_def print_line_def quoted_def quote_char_def alnum CONFBUFSIZE_def)

lemma plenty_ok: "\<forall>n. malloc_ok plenty n"
  by (simp add: plenty_def)

lemma plenty_new: obtains conf where "NCONF_new plenty (None :: unit option) = Some conf"
proof -
  obtain p q r where "OPENSSL_malloc plenty conf_struct_size = Some p" "OPENSSL_malloc plenty lhash_struct_size = Some q"
    "OPENSSL_malloc plenty (kMinNumBuckets * item_pointer_size) = Some r"
    using malloc_total [OF plenty_ok, of conf_struct_size] malloc_total [OF plenty_ok, of lhash_struct_size]
      malloc_total [OF plenty_ok, of "kMinNumBuckets * item_pointer_size"]
    by (auto simp: conf_struct_size_def lhash_struct_size_def kMinNumBuckets_def item_pointer_size_def SIZE_MOD_def)
  moreover have "\<not> (SIZE_MOD - 1) div item_pointer_size < kMinNumBuckets"
    by (simp add: SIZE_MOD_def item_pointer_size_def kMinNumBuckets_def)
  ultimately show ?thesis
    by (intro that) (simp add: NCONF_new_def OPENSSL_lh_new_def OPENSSL_zalloc_def OPENSSL_calloc_def)
qed


lemma config_run:
  obtains conf conf' bio' where "NCONF_new plenty (None :: unit option) = Some conf"
    "NCONF_load_bio (Some mem_gets) plenty (\<lambda>_. None) conf (config_bio, ()) = Some ((None, None, conf'), bio', ())"
    "conf_ok [] conf" "stored_values conf = {}" "next_ptr conf' < SIZE_MOD"
    "conf_lookup conf' kDefaultSectionName [0x61, 0] = Some [0x62]"
proof -
  obtain conf where new: "NCONF_new plenty (None :: unit option) = Some conf" by (rule plenty_new)
  then obtain conf' bio' where run: "NCONF_load_bio (Some mem_gets) plenty (\<lambda>_. None) conf (config_bio, ()) = Some ((None, None, conf'), bio', ())"
    "next_ptr conf' \<le> length config_lines + 1" "conf_lookup conf' kDefaultSectionName [0x61, 0] = described config_lines (cstr kDefaultSectionName) (cstr [0x61, 0])"
    using load_text [OF plenty_ok new config_bio config_lines_short, of "\<lambda>_. None" "()"] by (auto simp: config_lines_def)
  have "next_ptr conf' < SIZE_MOD"
    using run(2) by (simp add: config_lines_def SIZE_MOD_def)
  moreover have "described config_lines (cstr kDefaultSectionName) (cstr [0x61, 0]) = Some [0x62]"
    by (simp add: described_def config_lines_def kDefaultSectionName_def cstr_def)
  ultimately show ?thesis
    using that [OF new run(1)] NCONF_new_ok [OF new] run(3) by simp
qed

text \<open>
  C10: loading a configuration from a memory \<open>BIO\<close> returns, whatever the text, the memory and the tables:
  with NULs, without a last newline, with backslashes that keep a line going at the end of the text. The
  text is at most \<open>INT_MAX\<close> bytes long, so that the length of a line fits its variable.
\<close>

theorem load_terminates:
  assumes "mem_ok bio" "int (length (mem_contents bio)) \<le> INT_MAX"
  shows "\<exists>r bio'. NCONF_load_bio (Some mem_gets) al stale conf (bio, e) = Some (r, bio', e)"
  by (rule load_bio_total [OF assms])

theorem load_terminates_witness:
  "\<exists>conf r bio'. NCONF_new plenty (None :: unit option) = Some conf \<and>
     NCONF_load_bio (Some mem_gets) plenty (\<lambda>_. None) conf (config_bio, ()) = Some (r, bio', ())"
proof -
  obtain conf where "NCONF_new plenty (None :: unit option) = Some conf" by (rule plenty_new)
  moreover have "int (length (mem_contents config_bio)) \<le> INT_MAX"
    by (simp add: config_bio(2) config_text INT_MAX_def)
  ultimately show ?thesis
    using load_terminates [OF config_bio(1), where al = plenty and conf = conf and e = "()"] by blast
qed





end
