(* ===== verification/Bio_Asn1.thy ===== *)
theory Bio_Asn1
  imports Bio_Mem Cbs_Asn1
begin

text \<open>
  \<open>BIO_read_asn1\<close> over a memory \<open>BIO\<close> against the reader of byte strings: they accept the same elements.
\<close>

lemma BIO_read_mem_num:
  "BIO_read (Some mem_read) (bio, e) buf n = Some ((r, d), bio', e') \<Longrightarrow> bio_num bio' = bio_num bio \<and> e' = e"
  by (auto simp: BIO_read_def mem_read_def Let_def BIO_set_retry_read_def BIO_clear_retry_flags_def split: if_splits)

text \<open>A read of \<open>n\<close> bytes that are there, and one of more bytes than there are.\<close>

lemma read_full_mem:
  assumes ok: "mem_ok bio" and n: "n \<le> length (mem_contents bio)" "int n \<le> INT_MAX"
  obtains bio' where "bio_read_full (Some mem_read) (bio, e) out pos n =
      Some ((True, False, buf_write out pos (take n (mem_contents bio))), bio', e)"
    "mem_ok bio'" "mem_contents bio' = drop n (mem_contents bio)" "bio_num bio' = bio_num bio"
proof (cases "n = 0")
  case True
  with that ok show ?thesis
    by (simp add: bio_read_full_def read_full_loop.simps buf_write_def)
next
  case False
  then have pos: "0 < int n" "mem_contents bio \<noteq> []"
    using n by auto
  obtain bio' where r: "BIO_read (Some mem_read) (bio, e) True (int n) =
      Some ((int (min (nat (int n)) (length (mem_contents bio))), take (nat (int n)) (mem_contents bio)), bio', e)"
    "mem_ok bio'" "mem_contents bio' = drop (nat (int n)) (mem_contents bio)"
    by (rule BIO_read_mem [OF ok pos, of e True])
  note r BIO_read_mem_num [OF r(1)]
  moreover have "read_full_loop (Some mem_read) st out p 0 b = Some ((True, False, out), st)" for st :: "mem_bio \<times> 'a" and out p b
    by (simp add: read_full_loop.simps)
  ultimately show ?thesis
    using that False n unfolding bio_read_full_def
    by (subst (asm) read_full_loop.simps) (simp add: size_sub_def)
qed


lemma read_full_mem_short:
  assumes ok: "mem_ok bio" "bio_num bio \<le> 0" and n: "length (mem_contents bio) < n" "int n \<le> INT_MAX"
  obtains eof out' bio' where "bio_read_full (Some mem_read) (bio, e) out pos n = Some ((False, eof, out'), bio', e)"
proof -
  have at_end: "\<exists>eof out' bio'. read_full_loop (Some mem_read) (bio, e) out pos n b = Some ((False, eof, out'), bio', e)"
    if "mem_ok bio" "bio_num bio \<le> 0" "mem_contents bio = []" "0 < n" "int n \<le> INT_MAX" for bio out pos n b
  proof -
    note prems = that
    have "0 < int n" using that(4) by simp
    then obtain bio' where r: "BIO_read (Some mem_read) (bio, e) True (int n) = Some ((bio_num bio, []), bio', e)"
      using BIO_read_mem_end [OF prems(1) _ prems(3,2), of "int n" e True] by blast
    have "read_full_loop (Some mem_read) (bio, e) out pos n b = Some ((False, b \<and> bio_num bio = 0, buf_write out pos []), bio', e)"
      using r prems(2,4,5) by (subst read_full_loop.simps) (simp only: if_True if_False Option.bind.simps prod.case neq0_conv not_gr_zero less_irrefl_nat if_not_P if_P)
    then show ?thesis by blast
  qed
  show ?thesis
  proof (cases "mem_contents bio = []")
    case True
    then obtain eof out' bio' where "bio_read_full (Some mem_read) (bio, e) out pos n = Some ((False, eof, out'), bio', e)"
      using at_end [OF ok True, of n out pos True] n unfolding bio_read_full_def by auto
    then show ?thesis by (rule that)
  next
    case False
    have pos: "0 < int n" using n by simp
    obtain bio' where r: "BIO_read (Some mem_read) (bio, e) True (int n) =
        Some ((int (min (nat (int n)) (length (mem_contents bio))), take (nat (int n)) (mem_contents bio)), bio', e)"
      "mem_ok bio'" "mem_contents bio' = drop (nat (int n)) (mem_contents bio)"
      by (rule BIO_read_mem [OF ok(1) pos False, of e True])
    let ?c = "mem_contents bio"
    have "min n (length ?c) = length ?c" using n by simp
    then have "bio_read_full (Some mem_read) (bio, e) out pos n =
        read_full_loop (Some mem_read) (bio', e) (buf_write out pos ?c) (pos + length ?c) (n - length ?c) False"
      using r(1) n False unfolding bio_read_full_def
      by (subst read_full_loop.simps) (simp add: size_sub_def)
    moreover have "bio_num bio' \<le> 0"
      using BIO_read_mem_num [OF r(1)] ok(2) by simp
    ultimately show ?thesis
      using at_end [OF r(2), of "n - length ?c" "buf_write out pos ?c" "pos + length ?c" False] r(3) n
      by (auto intro: that)
  qed
qed

lemma len32_loop_eq: "length bs \<le> 4 \<Longrightarrow> unat (len32_loop 0 bs) = be_val bs"
proof (induction bs rule: rev_induct)
  case Nil
  then show ?case by simp
next
  case (snoc b bs)
  have snoc_eq: "len32_loop v (bs @ [b]) = push_bit 8 (len32_loop v bs) OR ucast b" for v
    by (induction bs arbitrary: v) simp_all
  let ?v = "len32_loop 0 bs"
  have v: "unat ?v = be_val bs" and len: "length bs \<le> 3"
    using snoc by simp_all
  have "be_val bs < 256 ^ 3"
    using be_val_less [of bs] power_increasing [OF len, of "256 :: nat"] by simp
  then have "unat (push_bit 8 ?v) = be_val bs * 256"
    by (simp add: push_bit_eq_mult unat_word_ariths v)
  moreover have "push_bit 8 ?v AND ucast b = 0"
    by (rule bit_word_eqI) (auto simp: bit_simps dest: bit_imp_le_length)
  then have "push_bit 8 ?v OR ucast b = push_bit 8 ?v + ucast b"
    using word_plus_and_or [of "push_bit 8 ?v" "ucast b"] by (simp only: add_0_left)
  ultimately show ?case
    using \<open>be_val bs < 256 ^ 3\<close> unat_byte_less [of b]
    by (simp add: snoc_eq unat_word_ariths unat_ucast_up del: unat_byte_less)
qed

section \<open>The two readers\<close>

definition ample :: "allocator \<Rightarrow> bool" where
  "ample al \<longleftrightarrow> (\<forall>n. malloc_ok al n)"

lemma read_asn1_body_mem:
  assumes ok: "mem_ok bio" "bio_num bio \<le> 0" and al: "ample al"
    and len: "len + header_len \<le> max_len" "len + header_len < SIZE_MOD - 8" "int len \<le> INT_MAX"
    and h: "length header = 6" "header_len \<le> 6"
  shows "if len \<le> length (mem_contents bio)
    then \<exists>bio'. read_asn1_body (Some mem_read) al max_len len header_len header (bio, e) =
        Some (Inr (take header_len header @ take len (mem_contents bio), len + header_len), bio', e) \<and>
        mem_ok bio' \<and> mem_contents bio' = drop len (mem_contents bio)
    else \<exists>bio'. read_asn1_body (Some mem_read) al max_len len header_len header (bio, e) = Some (Inl ASN1_R_NOT_ENOUGH_DATA, bio', e)"
proof -
  have add: "size_add len header_len = len + header_len" "size_sub (len + header_len) header_len = len"
    using len(2) by (simp_all add: size_add_def size_sub_def SIZE_MOD_def)
  have fits: "\<not> (len + header_len < len \<or> len + header_len > max_len \<or> int len > INT_MAX)"
    using len by simp
  define blk where "blk = map (junk al) [0..<len + header_len]"
  have blk: "OPENSSL_malloc al (len + header_len) = Some blk" "length blk = len + header_len"
    using len(2) al by (auto simp: OPENSSL_malloc_def ample_def blk_def OPENSSL_MALLOC_PREFIX_def size_add_def SIZE_MOD_def)
  let ?out = "buf_write blk 0 (take header_len header)"
  have eq: "read_asn1_body (Some mem_read) al max_len len header_len header (bio, e) =
      Option.bind (bio_read_full (Some mem_read) (bio, e) ?out header_len len)
        (\<lambda>((ok, _, out), st). Some (if ok then Inr (out, len + header_len) else Inl ASN1_R_NOT_ENOUGH_DATA, st))"
    unfolding read_asn1_body_def add if_not_P [OF fits] Let_def add blk(1) by simp
  show ?thesis
  proof (cases "len \<le> length (mem_contents bio)")
    case True
    obtain bio' where "bio_read_full (Some mem_read) (bio, e) ?out header_len len =
        Some ((True, False, buf_write ?out header_len (take len (mem_contents bio))), bio', e)"
      "mem_ok bio'" "mem_contents bio' = drop len (mem_contents bio)" "bio_num bio' = bio_num bio"
      by (rule read_full_mem [OF ok(1) True len(3)])
    moreover have "buf_write ?out header_len (take len (mem_contents bio)) = take header_len header @ take len (mem_contents bio)"
      using blk(2) h True by (simp add: buf_write_def)
    ultimately show ?thesis
      using True unfolding eq by simp
  next
    case False
    then have "length (mem_contents bio) < len" by simp
    obtain eof out' bio' where "bio_read_full (Some mem_read) (bio, e) ?out header_len len = Some ((False, eof, out'), bio', e)"
      by (rule read_full_mem_short [OF ok \<open>length (mem_contents bio) < len\<close> len(3)])
    with False show ?thesis
      unfolding eq by simp
  qed
qed

text \<open>The tags that \<open>BIO_read_asn1\<close> takes and that \<open>parse_asn1_tag\<close> accepts.\<close>

definition one_byte_tag :: "byte \<Rightarrow> bool" where
  "one_byte_tag t \<longleftrightarrow> t AND 0x1f \<noteq> 0x1f \<and> t AND 0xdf \<noteq> 0"

lemma parse_one_byte_tag:
  assumes "one_byte_tag t"
  shows "parse_asn1_tag (t # s) = (Some (make_tag t (ucast (t AND 0x1f))), s)"
proof -
  have "valid_tag (make_tag t (ucast (t AND 0x1f)))"
  proof (rule ccontr)
    assume "\<not> ?thesis"
    then have z: "bit (make_tag t (ucast (t AND 0x1f)) AND NOT CBS_ASN1_CONSTRUCTED) n = False" for n
      by (simp add: valid_tag_def)
    have "t AND 0xdf = 0"
    proof (rule bit_word_eqI)
      fix n assume "n < LENGTH(8)"
      then have "n = 0 \<or> n = 1 \<or> n = 2 \<or> n = 3 \<or> n = 4 \<or> n = 5 \<or> n = 6 \<or> n = 7"
        by simp linarith
      with z [of n] z [of "n + 24"] show "bit (t AND 0xdf) n = bit 0 n"
        by (auto simp: make_tag_def CBS_ASN1_CONSTRUCTED_def CBS_ASN1_TAG_SHIFT_def bit_simps)
    qed
    with assms show False by (simp add: one_byte_tag_def)
  qed
  with assms show ?thesis
    by (simp add: parse_asn1_tag_Cons one_byte_tag_def finish_tag_def)
qed


text \<open>What \<open>CBS_get_any_asn1_element\<close> makes of a length and of the bytes behind it.\<close>

lemma get_any_one_byte_tag:
  assumes "one_byte_tag t" "read_der_length q = (Some n, r)" "length q = k + length r"
  shows "CBS_get_any_asn1_element (t # q) =
    get_element (t # q) (make_tag t (ucast (t AND 0x1f))) (n + (k + 1)) (k + 1)"
  using assms(2,3) by (simp add: CBS_get_any_asn1_element_eq parse_one_byte_tag [OF assms(1)] Let_def)

lemma get_any_bad_length:
  assumes "one_byte_tag t" "read_der_length q = (None, r)"
  shows "CBS_get_any_asn1_element (t # q) = (None, t # q)"
  using assms(2) by (simp add: CBS_get_any_asn1_element_eq parse_one_byte_tag [OF assms(1)])

lemma get_element_case:
  "get_element s tag n k = (if length s < n then (None, s) else
     (Some \<lparr>elt_out = take n s, elt_tag = tag, elt_header_len = k, elt_ber_found = False, elt_indefinite = False\<rparr>, drop n s))"
  by (simp add: get_element_def)

definition indefinite_header :: "bytes \<Rightarrow> bool" where
  "indefinite_header s \<longleftrightarrow> 2 \<le> length s \<and> s ! 0 AND 0x20 \<noteq> 0 \<and> s ! 1 = 0x80"

definition same_answer :: "mem_bio \<Rightarrow> 'e \<Rightarrow> asn1_element option \<times> bytes \<Rightarrow> ((asn1_read_error + bytes \<times> nat) \<times> mem_bio \<times> 'e) option \<Rightarrow> bool" where
  "same_answer bio e parsed r \<longleftrightarrow>
     (case parsed of
        (None, _) \<Rightarrow> \<exists>err bio'. r = Some (Inl err, bio', e)
      | (Some elt, rest) \<Rightarrow> \<exists>bio'. r = Some (Inr (elt_out elt, length (elt_out elt)), bio', e) \<and> mem_ok bio' \<and> mem_contents bio' = rest)"

text \<open>The body of an element with the header \<open>hd\<close>, once the reads have got that far.\<close>

lemma read_asn1_body_answer:
  assumes ok: "mem_ok bio'" "bio_num bio' \<le> 0" and al: "ample al"
    and s: "s = h @ mem_contents bio'" and h: "length h = header_len" "header_len \<le> 6" "length header = 6" "take header_len header = h"
    and n: "n \<le> 2 ^ 32"
    and small: "length s \<le> max_len" "int (length s) \<le> INT_MAX"
  shows "same_answer bio e (get_element s tag (n + header_len) header_len)
    (read_asn1_body (Some mem_read) al max_len n header_len header (bio', e))"
proof (cases "n \<le> length (mem_contents bio')")
  case True
  then have fits: "n + header_len \<le> length s"
    using s h(1) by simp
  have bounds: "n + header_len \<le> max_len" "n + header_len < SIZE_MOD - 8" "int n \<le> INT_MAX"
    using fits small by (simp_all add: INT_MAX_def SIZE_MOD_def)
  show ?thesis
    using read_asn1_body_mem [OF ok al bounds h(3,2), of e] True fits s h(1,4)
    by (auto simp: same_answer_def get_element_case)
next
  case False
  then have short: "length s < n + header_len"
    using s h(1) by simp
  have "\<exists>err bio1. read_asn1_body (Some mem_read) al max_len n header_len header (bio', e) = Some (Inl err, bio1, e)"
  proof (cases "n + header_len \<le> max_len \<and> int n \<le> INT_MAX")
    case True
    have "n + header_len < SIZE_MOD - 8"
      using n h(2) by (simp add: SIZE_MOD_def)
    from read_asn1_body_mem [OF ok al _ this _ h(3,2), of max_len e] True False show ?thesis
      by auto
  next
    case big: False
    have "size_add n header_len = n + header_len"
      using n h(2) by (simp add: size_add_def SIZE_MOD_def)
    with big show ?thesis
      by (auto simp: read_asn1_body_def)
  qed
  with short show ?thesis
    by (simp add: same_answer_def get_element_case)
qed


lemma drop_bit_bytes_zero: "drop_bit (k * 8) (v :: u32) = 0 \<longleftrightarrow> unat v < 256 ^ k"
proof -
  have "unat (drop_bit (k * 8) v) = unat v div 256 ^ k"
    unfolding unat_drop_bit_eq by (simp add: drop_bit_eq_div power_mult mult.commute [of _ 8])
  then have "unat (drop_bit (k * 8) v) = 0 \<longleftrightarrow> unat v < 256 ^ k"
    by (simp add: div_eq_0_iff)
  then show ?thesis by (simp add: unat_eq_zero)
qed

lemma low_length_bits:
  assumes "128 \<le> unat (l :: byte)"
  shows "unat (l AND 0x7f) = unat l - 128"
proof -
  have eq: "(0x7f :: byte) = mask 7" by (simp add: mask_eq_exp_minus_1)
  have "unat (l AND 0x7f) = unat l mod 128"
    unfolding eq take_bit_eq_mask [symmetric] unsigned_take_bit_eq by (simp add: take_bit_eq_mod)
  with assms show ?thesis
    using unat_byte_less [of l] by (simp add: mod_if [of "unat l" 128] del: unat_byte_less)
qed

lemma same_answer_fails: "same_answer bio e (None, x) (Some (Inl err, bio', e))"
  by (simp add: same_answer_def)

lemma bad_length_octets:
  assumes "one_byte_tag t" "128 \<le> unat l"
    "unat l - 128 = 0 \<or> 4 < unat l - 128 \<or> length q < unat l - 128 \<or>
     be_val (take (unat l - 128) q) < 128 \<or> be_val (take (unat l - 128) q) < 256 ^ (unat l - 128 - 1)"
  shows "CBS_get_any_asn1_element (t # l # q) = (None, t # l # q)"
  using get_any_bad_length [OF assms(1), of "l # q" "l # q"] assms(2,3) by (simp add: read_der_length_def Let_def)

lemma read_header:
  assumes "mem_ok bio" "mem_contents bio = t # l # q"
  obtains bio1 h where "bio_read_full (Some mem_read) (bio, e) (map (junk al) [0..<6]) 0 2 = Some ((True, False, h), bio1, e)"
    "mem_ok bio1" "mem_contents bio1 = q" "bio_num bio1 = bio_num bio"
    "length h = 6" "h ! 0 = t" "h ! Suc 0 = l" "take 2 h = [t, l]"
proof -
  define h where "h = buf_write (map (junk al) [0..<6]) 0 [t, l]"
  have n: "2 \<le> length (mem_contents bio)" "int 2 \<le> INT_MAX"
    using assms(2) by (simp_all add: INT_MAX_def)
  obtain bio1 where "bio_read_full (Some mem_read) (bio, e) (map (junk al) [0..<6]) 0 2 =
      Some ((True, False, buf_write (map (junk al) [0..<6]) 0 (take 2 (mem_contents bio))), bio1, e)"
    "mem_ok bio1" "mem_contents bio1 = drop 2 (mem_contents bio)" "bio_num bio1 = bio_num bio"
    by (rule read_full_mem [OF assms(1) n])
  moreover have "length h = 6" "h ! 0 = t" "h ! Suc 0 = l" "take 2 h = [t, l]"
    by (simp_all add: h_def buf_write_def numeral_2_eq_2)
  moreover have "take 2 (mem_contents bio) = [t, l]" "drop 2 (mem_contents bio) = q"
    using assms(2) by simp_all
  ultimately show ?thesis
    using that [of h bio1] by (simp add: h_def)
qed

text \<open>The length octets of the long form, when their number is in range.\<close>

lemma long_length_answer:
  assumes ok: "mem_ok bio1" "bio_num bio1 \<le> 0" and al: "ample al" and t: "one_byte_tag t"
    and s: "s = t # l # mem_contents bio1" and h: "length h = 6" "take 2 h = [t, l]"
    and l: "128 \<le> unat l" and k: "k = unat l - 128" "0 < k" "k \<le> 4"
    and small: "length s \<le> max_len" "int (length s) \<le> INT_MAX"
  shows "same_answer bio e (CBS_get_any_asn1_element s)
    (Option.bind (bio_read_full (Some mem_read) (bio1, e) h 2 k) (\<lambda>((ok, _, header), st).
       if \<not> ok then Some (Inl ASN1_R_NOT_ENOUGH_DATA, st)
       else
         let len32 = len32_loop 0 (take k (drop 2 header))
         in if len32 < 128 then Some (Inl ASN1_R_DECODE_ERROR, st)
         else if drop_bit ((k - 1) * 8) len32 = 0 then Some (Inl ASN1_R_DECODE_ERROR, st)
         else read_asn1_body (Some mem_read) al max_len (unat len32) (2 + k) header st))"
    (is "same_answer _ _ _ ?run")
proof -
  let ?q = "mem_contents bio1"
  have four: "int k \<le> INT_MAX" using k(3) by (simp add: INT_MAX_def)
  note bad = bad_length_octets [OF t l, of ?q, folded k(1) s]
  show ?thesis
  proof (cases "length ?q < k")
    case True
    obtain eof out' bio2 where "bio_read_full (Some mem_read) (bio1, e) h 2 k = Some ((False, eof, out'), bio2, e)"
      by (rule read_full_mem_short [OF ok True four])
    with bad True show ?thesis by (simp add: same_answer_def)
  next
    case False
    then have enough: "k \<le> length ?q" by simp
    obtain bio2 where r2: "bio_read_full (Some mem_read) (bio1, e) h 2 k = Some ((True, False, buf_write h 2 (take k ?q)), bio2, e)"
      "mem_ok bio2" "mem_contents bio2 = drop k ?q" "bio_num bio2 = bio_num bio1"
      by (rule read_full_mem [OF ok(1) enough four])
    define h2 where "h2 = buf_write h 2 (take k ?q)"
    have h2: "length h2 = 6" "take (2 + k) h2 = t # l # take k ?q" "take k (drop 2 h2) = take k ?q"
      using h k enough by (simp_all add: h2_def buf_write_def)
    define v where "v = len32_loop 0 (take k ?q)"
    have v: "unat v = be_val (take k ?q)"
      unfolding v_def using k by (intro len32_loop_eq) (simp add: min_def)
    have run: "?run = (if v < 128 \<or> drop_bit ((k - 1) * 8) v = 0 then Some (Inl ASN1_R_DECODE_ERROR, bio2, e)
        else read_asn1_body (Some mem_read) al max_len (unat v) (2 + k) h2 (bio2, e))"
      using r2(1) h2(3) by (simp add: Let_def h2_def [symmetric] v_def)
    show ?thesis
    proof (cases "be_val (take k ?q) < 128 \<or> be_val (take k ?q) < 256 ^ (k - 1)")
      case True
      with bad run v show ?thesis
        by (auto simp: same_answer_def word_less_nat_alt drop_bit_bytes_zero)
    next
      case valid: False
      then have body: "?run = read_asn1_body (Some mem_read) al max_len (unat v) (2 + k) h2 (bio2, e)"
        unfolding run by (simp add: v word_less_nat_alt drop_bit_bytes_zero)
      have "read_der_length (l # ?q) = (Some (unat v), drop k ?q)"
        using l enough valid k by (simp add: read_der_length_def Let_def v)
      then have parsed: "CBS_get_any_asn1_element s = get_element s (make_tag t (ucast (t AND 0x1f))) (unat v + (2 + k)) (2 + k)"
        using get_any_one_byte_tag [OF t, of "l # ?q" "unat v" "drop k ?q" "k + 1"] s enough by (simp add: ac_simps)
      have "s = (t # l # take k ?q) @ mem_contents bio2" "length (t # l # take k ?q) = 2 + k" "bio_num bio2 \<le> 0"
        using s r2(3,4) enough ok(2) by simp_all
      moreover have "unat v \<le> 2 ^ 32"
        by (rule less_imp_le, rule order_less_le_trans [OF unsigned_less]) simp
      ultimately show ?thesis
        unfolding body parsed
        using read_asn1_body_answer [OF r2(2) _ al _ _ _ h2(1,2)] k(3) small by simp
    qed
  qed
qed

lemma read_asn1_answer:
  assumes ok: "mem_ok bio" "bio_num bio \<le> 0" and al: "ample al" and s: "mem_contents bio = t # l # q"
    and tag: "one_byte_tag t" "\<not> indefinite_header (mem_contents bio)"
    and small: "length (mem_contents bio) \<le> max_len" "int (length (mem_contents bio)) \<le> INT_MAX"
  shows "same_answer bio e (CBS_get_any_asn1_element (mem_contents bio)) (BIO_read_asn1 (Some mem_read) al (bio, e) max_len)"
proof -
  let ?s = "mem_contents bio"
  obtain bio1 h where r1: "bio_read_full (Some mem_read) (bio, e) (map (junk al) [0..<6]) 0 2 = Some ((True, False, h), bio1, e)"
    "mem_ok bio1" "mem_contents bio1 = q" "bio_num bio1 = bio_num bio" "length h = 6" "h ! 0 = t" "h ! Suc 0 = l" "take 2 h = [t, l]"
    by (rule read_header [OF ok(1) s])
  have num: "bio_num bio1 \<le> 0" and low: "\<not> t AND 0x1f = 0x1f"
    using r1(4) ok(2) tag(1) by (simp_all add: one_byte_tag_def)
  note run = BIO_read_asn1_def kInitialHeaderLen_def r1 Let_def low
  show ?thesis
  proof (cases "unat l < 128")
    case True
    then have "l AND 0x80 = 0" using byte_top_bit [of l] by simp
    then have "BIO_read_asn1 (Some mem_read) al (bio, e) max_len = read_asn1_body (Some mem_read) al max_len (unat l) 2 h (bio1, e)"
      by (simp add: run)
    moreover have "CBS_get_any_asn1_element ?s = get_element ?s (make_tag t (ucast (t AND 0x1f))) (unat l + 2) 2"
      using get_any_one_byte_tag [OF tag(1), of "l # q" "unat l" q 1] True s by (simp add: read_der_length_def numeral_2_eq_2)
    ultimately show ?thesis
      using read_asn1_body_answer [OF r1(2) num al _ _ _ r1(5,8), where n = "unat l"] s r1(3) small True by simp
  next
    case False
    define k where "k = unat l - 128"
    have b: "\<not> l AND 0x80 = 0" "unat (l AND 0x7f) = k" and l: "128 \<le> unat l"
      using False byte_top_bit [of l] low_length_bits [of l] by (simp_all add: k_def)
    have no_indefinite: "\<not> (t AND 0x20 \<noteq> 0 \<and> k = 0)"
      using tag(2) s False by (auto simp: indefinite_header_def word_unat_eq_iff k_def)
    show ?thesis
    proof (cases "k = 0 \<or> 4 < k")
      case True
      then have "BIO_read_asn1 (Some mem_read) al (bio, e) max_len = Some (Inl ASN1_R_DECODE_ERROR, bio1, e)"
        by (simp add: run b no_indefinite)
      with bad_length_octets [OF tag(1) l, of q] True s show ?thesis by (auto simp: same_answer_def k_def)
    next
      case in_range: False
      with long_length_answer [OF r1(2) num al tag(1) _ r1(5,8) l k_def _ _ small, of bio e] s r1(3) show ?thesis
        unfolding BIO_read_asn1_def kInitialHeaderLen_def by (simp add: run b no_indefinite)
    qed
  qed
qed


definition example_bio :: mem_bio where
  "example_bio = \<lparr>bio_init = True, bio_shutdown = 1, bio_flags = BIO_FLAGS_MEM_RDONLY, retry_reason = 0, bio_num = 0,
     bio_ptr = \<lparr>mem_b = \<lparr>buf_length = 5, buf_data = Some [4, 2, 7, 8, 9], buf_max = 5\<rparr>, mem_off = 0\<rparr>,
     num_read = 0, num_write = 0\<rparr>"

lemma example_bio: "mem_ok example_bio" "mem_contents example_bio = [4, 2, 7, 8, 9]" "bio_num example_bio = 0"
  by (simp_all add: example_bio_def mem_ok_def mem_contents_def mem_data_def mem_rdonly_def BIO_FLAGS_MEM_RDONLY_def SIZE_MOD_def)

lemma example_element:
  "CBS_get_any_asn1_element [4, 2, 7, 8, 9] =
    (Some \<lparr>elt_out = [4, 2, 7, 8], elt_tag = 4, elt_header_len = 2, elt_ber_found = False, elt_indefinite = False\<rparr>, [9])"
  by code_simp


end
