(* ===== verification/Bio_Pair.thy ===== *)
theory Bio_Pair
  imports Bio
begin

text \<open>
  \<open>crypto/bio/pair.c\<close>: two \<open>BIO\<close>s connected to each other. What is written to one goes into its ring
  buffer, from which the other reads. The state of an operation is the \<open>BIO\<close> it is called on and the
  other one; \<open>ring_peer\<close> says whether they are connected. Assertions are not part of the code that runs;
  the invariant below shows that they hold.
\<close>

record bio_bio =
  ring_peer :: bool
  ring_closed :: bool
  ring_len :: nat
  ring_offset :: nat
  ring_size :: nat
  ring_buf :: "bytes option"
  ring_request :: nat

type_synonym pair_bio = "bio_bio bio"

definition pair_null :: bio_bio where
  "pair_null = \<lparr>ring_peer = False, ring_closed = False, ring_len = 0, ring_offset = 0, ring_size = 0,
     ring_buf = None, ring_request = 0\<rparr>"

definition bio_bio_struct_size :: nat where "bio_bio_struct_size = 56"

section \<open>Making and destroying pairs\<close>

definition bio_new :: "allocator \<Rightarrow> pair_bio \<Rightarrow> pair_bio option" where
  "bio_new al bio =
     (case OPENSSL_zalloc al bio_bio_struct_size of None \<Rightarrow> None
      | Some _ \<Rightarrow> Some (bio\<lparr>bio_ptr := pair_null\<lparr>ring_size := 17 * 1024\<rparr>\<rparr>))"

text \<open>What \<open>bio_destroy_pair\<close> does to one of the two.\<close>

definition disconnect :: "pair_bio \<Rightarrow> pair_bio" where
  "disconnect bio = bio\<lparr>bio_init := False,
     bio_ptr := (bio_ptr bio)\<lparr>ring_peer := False, ring_len := 0, ring_offset := 0\<rparr>\<rparr>"

definition bio_destroy_pair :: "pair_bio \<times> pair_bio \<Rightarrow> pair_bio \<times> pair_bio" where
  "bio_destroy_pair st =
     (if \<not> ring_peer (bio_ptr (fst st)) then st else (disconnect (fst st), disconnect (snd st)))"

text \<open>The other \<open>BIO\<close> after \<open>bio_free\<close>.\<close>

definition bio_free :: "pair_bio \<times> pair_bio \<Rightarrow> pair_bio" where
  "bio_free st = snd (if ring_peer (bio_ptr (fst st)) then bio_destroy_pair st else st)"

text \<open>The buffer of one side; \<open>None\<close> if its allocation fails.\<close>

definition make_ring :: "allocator \<Rightarrow> nat \<Rightarrow> bio_bio \<Rightarrow> bio_bio option" where
  "make_ring al writebuf_len b =
     (if ring_buf b \<noteq> None then Some b
      else
        let b = (if writebuf_len \<noteq> 0 then b\<lparr>ring_size := writebuf_len\<rparr> else b)
        in case OPENSSL_malloc al (ring_size b) of None \<Rightarrow> None
        | Some buf \<Rightarrow> Some (b\<lparr>ring_buf := Some buf, ring_len := 0, ring_offset := 0\<rparr>))"

definition connect :: "pair_bio \<Rightarrow> bio_bio \<Rightarrow> pair_bio" where
  "connect bio b = bio\<lparr>bio_ptr := b\<lparr>ring_peer := True, ring_closed := False, ring_request := 0\<rparr>, bio_init := True\<rparr>"

text \<open>\<open>None\<close> for the return value 0, after which the pair is freed by the only caller.\<close>

definition bio_make_pair :: "allocator \<Rightarrow> pair_bio \<Rightarrow> pair_bio \<Rightarrow> nat \<Rightarrow> nat \<Rightarrow> (pair_bio \<times> pair_bio) option" where
  "bio_make_pair al bio1 bio2 writebuf1_len writebuf2_len =
     (if ring_peer (bio_ptr bio1) \<or> ring_peer (bio_ptr bio2) then None
      else case make_ring al writebuf1_len (bio_ptr bio1) of None \<Rightarrow> None
      | Some b1 \<Rightarrow> (case make_ring al writebuf2_len (bio_ptr bio2) of None \<Rightarrow> None
      | Some b2 \<Rightarrow> Some (connect bio1 b1, connect bio2 b2)))"

definition BIO_new_bio_pair :: "allocator \<Rightarrow> nat \<Rightarrow> nat \<Rightarrow> (pair_bio \<times> pair_bio) option" where
  "BIO_new_bio_pair al writebuf1_len writebuf2_len =
     (case (BIO_new al pair_null (bio_new al), BIO_new al pair_null (bio_new al)) of
        (Some bio1, Some bio2) \<Rightarrow> bio_make_pair al bio1 bio2 writebuf1_len writebuf2_len
      | _ \<Rightarrow> None)"

section \<open>Reading\<close>

text \<open>An \<open>int\<close> converted to \<open>size_t\<close>.\<close>

definition size_of_int :: "int \<Rightarrow> nat" where
  "size_of_int n = nat (n mod int SIZE_MOD)"

text \<open>One round of the loop of \<open>bio_read\<close>: the length of the chunk, the bytes copied and the buffer.\<close>

definition read_chunk :: "bio_bio \<Rightarrow> nat \<Rightarrow> nat \<times> bytes \<times> bio_bio" where
  "read_chunk b rest =
     (let chunk = (if size_add (ring_offset b) rest \<le> ring_size b then rest else size_sub (ring_size b) (ring_offset b));
          d = take chunk (drop (ring_offset b) (case ring_buf b of None \<Rightarrow> [] | Some buf \<Rightarrow> buf));
          b = b\<lparr>ring_len := size_sub (ring_len b) chunk\<rparr>;
          offset = (if ring_len b \<noteq> 0
                    then (let offset = size_add (ring_offset b) chunk in if offset = ring_size b then 0 else offset)
                    else 0)
      in (chunk, d, b\<lparr>ring_offset := offset\<rparr>))"

partial_function (option) read_loop :: "bio_bio \<Rightarrow> bytes \<Rightarrow> nat \<Rightarrow> (bytes \<times> bio_bio) option" where
  "read_loop b d rest =
     (case read_chunk b rest of (chunk, copied, b) \<Rightarrow>
      let d = d @ copied; rest = size_sub rest chunk
      in if rest = 0 then Some (d, b) else read_loop b d rest)"

definition bio_read :: "(bio_bio, pair_bio) bio_reader" where
  "bio_read st buf sz =
     (let bio = BIO_clear_retry_flags (fst st); peer = snd st
      in if \<not> bio_init bio then Some ((0, []), bio, peer)
      else
        let peer_b = (bio_ptr peer)\<lparr>ring_request := 0\<rparr>;
            n = size_of_int sz
        in if \<not> buf \<or> n = 0 then Some ((0, []), bio, peer\<lparr>bio_ptr := peer_b\<rparr>)
        else if ring_len peer_b = 0
        then
          if ring_closed peer_b then Some ((0, []), bio, peer\<lparr>bio_ptr := peer_b\<rparr>)
          else Some ((- 1, []), BIO_set_retry_read bio,
                 peer\<lparr>bio_ptr := peer_b\<lparr>ring_request := (if n \<le> ring_size peer_b then n else ring_size peer_b)\<rparr>\<rparr>)
        else
          let n = (if ring_len peer_b < n then ring_len peer_b else n)
          in map_option (\<lambda>(d, peer_b). ((int n, d), bio, peer\<lparr>bio_ptr := peer_b\<rparr>)) (read_loop peer_b [] n))"

section \<open>Writing\<close>

text \<open>One round of the loop of \<open>bio_write\<close>: the length of the chunk and the buffer.\<close>

definition write_chunk :: "bio_bio \<Rightarrow> bytes \<Rightarrow> nat \<Rightarrow> nat \<times> bio_bio" where
  "write_chunk b buf rest =
     (let write_offset = size_add (ring_offset b) (ring_len b);
          write_offset = (if write_offset \<ge> ring_size b then write_offset - ring_size b else write_offset);
          chunk = (if size_add write_offset rest \<le> ring_size b then rest else size_sub (ring_size b) write_offset)
      in (chunk, b\<lparr>ring_buf := map_option (\<lambda>d. buf_write d write_offset (take chunk buf)) (ring_buf b),
            ring_len := size_add (ring_len b) chunk\<rparr>))"

partial_function (option) write_loop :: "bio_bio \<Rightarrow> bytes \<Rightarrow> nat \<Rightarrow> bio_bio option" where
  "write_loop b buf rest =
     (case write_chunk b buf rest of (chunk, b) \<Rightarrow>
      let rest = size_sub rest chunk
      in if rest = 0 then Some b else write_loop b (drop chunk buf) rest)"

definition bio_write :: "(bio_bio, pair_bio) bio_writer" where
  "bio_write st inp num =
     (let bio = BIO_clear_retry_flags (fst st); n = size_of_int num
      in case inp of None \<Rightarrow> Some (0, bio, snd st)
      | Some buf \<Rightarrow>
          if \<not> bio_init bio \<or> n = 0 then Some (0, bio, snd st)
          else
            let b = (bio_ptr bio)\<lparr>ring_request := 0\<rparr>; bio = bio\<lparr>bio_ptr := b\<rparr>
            in if ring_closed b then Some (- 1, bio, snd st)
            else if ring_len b = ring_size b then Some (- 1, BIO_set_retry_write bio, snd st)
            else
              let n = (if n > size_sub (ring_size b) (ring_len b) then size_sub (ring_size b) (ring_len b) else n)
              in map_option (\<lambda>b. (int n, bio\<lparr>bio_ptr := b\<rparr>, snd st)) (write_loop b buf n))"

section \<open>Control\<close>

definition BIO_C_GET_WRITE_BUF_SIZE :: int where "BIO_C_GET_WRITE_BUF_SIZE = 137"
definition BIO_C_GET_WRITE_GUARANTEE :: int where "BIO_C_GET_WRITE_GUARANTEE = 140"
definition BIO_C_GET_READ_REQUEST :: int where "BIO_C_GET_READ_REQUEST = 141"
definition BIO_C_SHUTDOWN_WR :: int where "BIO_C_SHUTDOWN_WR = 142"
definition BIO_C_RESET_READ_REQUEST :: int where "BIO_C_RESET_READ_REQUEST = 147"

text \<open>The pointer of \<open>BIO_CTRL_EOF\<close> is another pair \<open>BIO\<close>.\<close>

definition bio_ctrl :: "(bio_bio, pair_bio, pair_bio) bio_control" where
  "bio_ctrl st cmd num ptr =
     (let bio = fst st; b = bio_ptr bio
      in if cmd = BIO_C_GET_WRITE_BUF_SIZE then (int (ring_size b), st)
      else if cmd = BIO_C_GET_WRITE_GUARANTEE
      then (if \<not> ring_peer b \<or> ring_closed b then 0 else int (size_sub (ring_size b) (ring_len b)), st)
      else if cmd = BIO_C_GET_READ_REQUEST then (int (ring_request b), st)
      else if cmd = BIO_C_RESET_READ_REQUEST then (1, bio\<lparr>bio_ptr := b\<lparr>ring_request := 0\<rparr>\<rparr>, snd st)
      else if cmd = BIO_C_SHUTDOWN_WR then (1, bio\<lparr>bio_ptr := b\<lparr>ring_closed := True\<rparr>\<rparr>, snd st)
      else if cmd = BIO_CTRL_GET_CLOSE then (bio_shutdown bio, st)
      else if cmd = BIO_CTRL_SET_CLOSE then (1, bio\<lparr>bio_shutdown := num\<rparr>, snd st)
      else if cmd = BIO_CTRL_PENDING then (if ring_peer b then int (ring_len (bio_ptr (snd st))) else 0, st)
      else if cmd = BIO_CTRL_WPENDING then (if ring_buf b \<noteq> None then int (ring_len b) else 0, st)
      else if cmd = BIO_CTRL_FLUSH then (1, st)
      else if cmd = BIO_CTRL_EOF
      then (case ptr of Some other \<Rightarrow> of_bool (ring_len (bio_ptr other) = 0 \<and> ring_closed (bio_ptr other)) | None \<Rightarrow> 1, st)
      else (0, st))"

definition BIO_ctrl_get_read_request :: "pair_bio \<times> pair_bio \<Rightarrow> nat" where
  "BIO_ctrl_get_read_request st = size_of_int (fst (BIO_ctrl (Some bio_ctrl) st BIO_C_GET_READ_REQUEST 0 None))"

definition BIO_ctrl_get_write_guarantee :: "pair_bio \<times> pair_bio \<Rightarrow> nat" where
  "BIO_ctrl_get_write_guarantee st = size_of_int (fst (BIO_ctrl (Some bio_ctrl) st BIO_C_GET_WRITE_GUARANTEE 0 None))"

definition BIO_shutdown_wr :: "pair_bio \<times> pair_bio \<Rightarrow> int \<times> pair_bio \<times> pair_bio" where
  "BIO_shutdown_wr st = BIO_ctrl (Some bio_ctrl) st BIO_C_SHUTDOWN_WR 0 None"

section \<open>The ring buffer as a queue\<close>

definition ring_ok :: "bio_bio \<Rightarrow> bool" where
  "ring_ok b \<longleftrightarrow>
     (case ring_buf b of None \<Rightarrow> False | Some buf \<Rightarrow> length buf = ring_size b) \<and>
     ring_len b \<le> ring_size b \<and> ring_offset b < ring_size b \<and> (ring_len b = 0 \<longrightarrow> ring_offset b = 0) \<and>
     2 * ring_size b < SIZE_MOD"

definition ring_contents :: "bio_bio \<Rightarrow> bytes" where
  "ring_contents b =
     (case ring_buf b of None \<Rightarrow> []
      | Some buf \<Rightarrow> take (ring_len b) (drop (ring_offset b) buf @ take (ring_offset b) buf))"

text \<open>What the loops leave alone.\<close>

definition ring_frame :: "bio_bio \<Rightarrow> bio_bio \<Rightarrow> bool" where
  "ring_frame b b' \<longleftrightarrow> ring_peer b' = ring_peer b \<and> ring_closed b' = ring_closed b \<and> ring_size b' = ring_size b \<and>
     ring_request b' = ring_request b"

lemma length_ring_contents: "ring_ok b \<Longrightarrow> length (ring_contents b) = ring_len b"
  by (auto simp: ring_ok_def ring_contents_def split: option.splits)

lemma size_exact: "a + b < SIZE_MOD \<Longrightarrow> size_add a b = a + b" "b \<le> a \<Longrightarrow> size_sub a b = a - b"
  by (simp_all add: size_add_def size_sub_def)

lemma take_append_exact: "length xs = n \<Longrightarrow> take (n + m) (xs @ ys) = xs @ take m ys"
  by simp

lemma read_chunk_ok:
  assumes ok: "ring_ok b" and rest: "0 < rest" "rest \<le> ring_len b"
  obtains chunk d b' where "read_chunk b rest = (chunk, d, b')" "0 < chunk" "chunk \<le> rest"
    "d = take chunk (ring_contents b)" "ring_ok b'" "ring_contents b' = drop chunk (ring_contents b)" "ring_frame b b'"
proof -
  obtain buf where buf: "ring_buf b = Some buf" "length buf = ring_size b"
    and b: "ring_len b \<le> ring_size b" "ring_offset b < ring_size b" "2 * ring_size b < SIZE_MOD"
    using ok by (auto simp: ring_ok_def split: option.splits)
  define chunk where "chunk = (if ring_offset b + rest \<le> ring_size b then rest else ring_size b - ring_offset b)"
  have chunk: "0 < chunk" "chunk \<le> rest" "chunk \<le> ring_len b" "ring_offset b + chunk \<le> ring_size b"
    "chunk \<le> ring_size b - ring_offset b"
    using rest b by (auto simp: chunk_def)
  define offset where "offset = (if ring_len b - chunk = 0 \<or> ring_offset b + chunk = ring_size b then 0 else ring_offset b + chunk)"
  define b' where "b' = b\<lparr>ring_len := ring_len b - chunk, ring_offset := offset\<rparr>"
  have c: "(if size_add (ring_offset b) rest \<le> ring_size b then rest else size_sub (ring_size b) (ring_offset b)) = chunk"
    using rest b by (simp add: chunk_def size_exact)
  have "size_sub (ring_len b) chunk = ring_len b - chunk" "size_add (ring_offset b) chunk = ring_offset b + chunk"
    using chunk b by (simp_all add: size_exact)
  then have "read_chunk b rest = (chunk, take chunk (drop (ring_offset b) buf), b')"
    unfolding read_chunk_def Let_def c by (simp add: offset_def b'_def buf)
  moreover have "take chunk (drop (ring_offset b) buf) = take chunk (ring_contents b)"
    using chunk buf by (simp add: ring_contents_def min_def)
  moreover have "ring_ok b'"
    using b buf chunk by (auto simp: ring_ok_def b'_def offset_def)
  moreover have "ring_contents b' = drop chunk (ring_contents b)"
  proof -
    have "drop chunk (ring_contents b) = take (ring_len b - chunk) (drop (ring_offset b + chunk) buf @ take (ring_offset b) buf)"
      using buf chunk by (simp add: ring_contents_def drop_take add.commute)
    also have "\<dots> = ring_contents b'"
    proof (cases "ring_offset b + chunk = ring_size b")
      case True
      then have "ring_len b - chunk \<le> ring_offset b" using b by simp
      with True buf show ?thesis
        by (simp add: ring_contents_def b'_def offset_def min_def)
    next
      case False
      have "ring_len b - chunk - (ring_size b - (ring_offset b + chunk)) \<le> ring_offset b"
        using b chunk by simp
      with False buf show ?thesis
        by (simp add: ring_contents_def b'_def offset_def min_def)
    qed
    finally show ?thesis by simp
  qed
  moreover have "ring_frame b b'"
    by (simp add: ring_frame_def b'_def)
  ultimately show ?thesis
    using chunk that by blast
qed

lemma write_chunk_ok:
  assumes ok: "ring_ok b" and rest: "0 < rest" "rest \<le> ring_size b - ring_len b" "rest \<le> length d"
  obtains chunk b' where "write_chunk b d rest = (chunk, b')" "0 < chunk" "chunk \<le> rest"
    "ring_ok b'" "ring_contents b' = ring_contents b @ take chunk d" "ring_len b' = ring_len b + chunk" "ring_frame b b'"
proof -
  obtain buf where buf: "ring_buf b = Some buf" "length buf = ring_size b"
    and b: "ring_len b \<le> ring_size b" "ring_offset b < ring_size b" "2 * ring_size b < SIZE_MOD"
    using ok by (auto simp: ring_ok_def split: option.splits)
  define at where "at = (if ring_offset b + ring_len b \<ge> ring_size b then ring_offset b + ring_len b - ring_size b else ring_offset b + ring_len b)"
  define chunk where "chunk = (if at + rest \<le> ring_size b then rest else ring_size b - at)"
  have chunk: "0 < chunk" "chunk \<le> rest" "at + chunk \<le> ring_size b" "at + rest < SIZE_MOD" "at \<le> ring_size b"
    using rest b by (auto simp: chunk_def at_def)
  define b' where "b' = b\<lparr>ring_buf := Some (buf_write buf at (take chunk d)), ring_len := ring_len b + chunk\<rparr>"
  have sum: "size_add (ring_offset b) (ring_len b) = ring_offset b + ring_len b"
    using b by (intro size_exact) simp
  have c: "(if size_add at rest \<le> ring_size b then rest else size_sub (ring_size b) at) = chunk"
    using chunk by (simp add: chunk_def size_exact)
  have "size_add (ring_len b) chunk = ring_len b + chunk"
    using rest b chunk by (intro size_exact) simp
  then have "write_chunk b d rest = (chunk, b')"
    unfolding write_chunk_def Let_def sum at_def [symmetric] c by (simp add: b'_def buf)
  moreover have "ring_ok b'"
    using b buf chunk rest ok by (auto simp: ring_ok_def b'_def)
  moreover have "ring_contents b' = ring_contents b @ take chunk d"
  proof (cases "ring_offset b + ring_len b < ring_size b")
    case True
    then have "ring_len b < ring_size b - ring_offset b" by arith
    with True show ?thesis
      using b buf chunk rest by (simp add: ring_contents_def b'_def at_def buf_write_def min_def drop_take)
  next
    case False
    then have at: "at = ring_offset b + ring_len b - ring_size b" "ring_len b = (ring_size b - ring_offset b) + at"
      "at + rest \<le> ring_offset b"
      using b rest by (simp_all add: at_def)
    then have "chunk = rest" using b by (simp add: chunk_def)
    let ?buf = "take at buf @ take rest d @ drop (at + rest) buf"
    have "ring_contents b = drop (ring_offset b) buf @ take at buf"
      using buf at(2,3) by (simp add: ring_contents_def min_def)
    moreover have "drop (ring_offset b) ?buf = drop (ring_offset b) buf" "take (at + rest) (take (ring_offset b) ?buf) = take at buf @ take rest d"
      using buf at(3) b rest(3) by (simp_all add: min_def)
    moreover have "ring_len b + rest = (ring_size b - ring_offset b) + (at + rest)"
      using at(2) by simp
    moreover have "buf_write buf at (take chunk d) = ?buf"
      using rest(3) \<open>chunk = rest\<close> by (simp add: buf_write_def min_def)
    moreover have "ring_contents b' = take (ring_len b + chunk) (drop (ring_offset b) (buf_write buf at (take chunk d)) @
        take (ring_offset b) (buf_write buf at (take chunk d)))"
      by (simp add: ring_contents_def b'_def)
    ultimately show ?thesis
      using take_append_exact [of "drop (ring_offset b) buf" "ring_size b - ring_offset b" "at + rest" "take (ring_offset b) ?buf"]
        buf \<open>chunk = rest\<close> by (simp only: length_drop append_assoc)
  qed
  ultimately show ?thesis
    using chunk that by (simp add: b'_def ring_frame_def)
qed

lemma read_loop_ok:
  assumes "ring_ok b" "0 < rest" "rest \<le> ring_len b"
  shows "\<exists>b'. read_loop b d rest = Some (d @ take rest (ring_contents b), b') \<and> ring_ok b' \<and>
    ring_contents b' = drop rest (ring_contents b) \<and> ring_frame b b'"
  using assms
proof (induction rest arbitrary: b d rule: less_induct)
  case (less rest)
  obtain chunk e b1 where c: "read_chunk b rest = (chunk, e, b1)" "0 < chunk" "chunk \<le> rest"
    "e = take chunk (ring_contents b)" "ring_ok b1" "ring_contents b1 = drop chunk (ring_contents b)" "ring_frame b b1"
    by (rule read_chunk_ok [OF less.prems])
  have step: "read_loop b d rest = (if rest - chunk = 0 then Some (d @ e, b1) else read_loop b1 (d @ e) (rest - chunk))"
    using c(3) by (subst read_loop.simps) (simp add: c(1) size_exact Let_def)
  show ?case
  proof (cases "rest = chunk")
    case True
    with step c show ?thesis by simp
  next
    case False
    have "rest - chunk \<le> ring_len b1"
      using less.prems(3) c(5,6) length_ring_contents [OF less.prems(1)] length_ring_contents [OF c(5)] by simp
    then obtain b' where b': "read_loop b1 (d @ e) (rest - chunk) = Some ((d @ e) @ take (rest - chunk) (ring_contents b1), b')"
      "ring_ok b'" "ring_contents b' = drop (rest - chunk) (ring_contents b1)" "ring_frame b1 b'"
      using less.IH [OF _ c(5), of "rest - chunk" "d @ e"] False c(2,3) by auto
    have "take chunk (ring_contents b) @ take (rest - chunk) (drop chunk (ring_contents b)) = take rest (ring_contents b)"
      using take_add [of chunk "rest - chunk" "ring_contents b"] c(3) by simp
    with b' step False c show ?thesis
      by (auto simp: ring_frame_def)
  qed
qed

lemma write_loop_ok:
  assumes "ring_ok b" "0 < rest" "rest \<le> ring_size b - ring_len b" "rest \<le> length d"
  shows "\<exists>b'. write_loop b d rest = Some b' \<and> ring_ok b' \<and>
    ring_contents b' = ring_contents b @ take rest d \<and> ring_frame b b'"
  using assms
proof (induction rest arbitrary: b d rule: less_induct)
  case (less rest)
  obtain chunk b1 where c: "write_chunk b d rest = (chunk, b1)" "0 < chunk" "chunk \<le> rest"
    "ring_ok b1" "ring_contents b1 = ring_contents b @ take chunk d" "ring_len b1 = ring_len b + chunk" "ring_frame b b1"
    by (rule write_chunk_ok [OF less.prems])
  have step: "write_loop b d rest = (if rest - chunk = 0 then Some b1 else write_loop b1 (drop chunk d) (rest - chunk))"
    using c(3) by (subst write_loop.simps) (simp add: c(1) size_exact Let_def)
  show ?case
  proof (cases "rest = chunk")
    case True
    with step c show ?thesis by simp
  next
    case False
    have "rest - chunk \<le> ring_size b1 - ring_len b1" "rest - chunk \<le> length (drop chunk d)"
      using less.prems c by (simp_all add: ring_frame_def)
    then obtain b' where b': "write_loop b1 (drop chunk d) (rest - chunk) = Some b'" "ring_ok b'"
      "ring_contents b' = ring_contents b1 @ take (rest - chunk) (drop chunk d)" "ring_frame b1 b'"
      using less.IH [OF _ c(4), of "rest - chunk" "drop chunk d"] False c(2,3) by auto
    have "take chunk d @ take (rest - chunk) (drop chunk d) = take rest d"
      using take_add [of chunk "rest - chunk" d] c(3) by simp
    with b' step False c show ?thesis
      by (auto simp: ring_frame_def)
  qed
qed

section \<open>The pair\<close>

text \<open>A connected pair; the contents of a side are what the other side has yet to read.\<close>

definition side_ok :: "pair_bio \<Rightarrow> bool" where
  "side_ok bio \<longleftrightarrow> bio_init bio \<and> ring_peer (bio_ptr bio) \<and> ring_ok (bio_ptr bio)"

definition side_contents :: "pair_bio \<Rightarrow> bytes" where
  "side_contents bio = ring_contents (bio_ptr bio)"

definition side_size :: "pair_bio \<Rightarrow> nat" where
  "side_size bio = ring_size (bio_ptr bio)"

definition side_closed :: "pair_bio \<Rightarrow> bool" where
  "side_closed bio = ring_closed (bio_ptr bio)"

lemma side_flags [simp]:
  "bio_ptr (BIO_clear_retry_flags bio) = bio_ptr bio" "bio_ptr (BIO_set_retry_read bio) = bio_ptr bio"
  "bio_ptr (BIO_set_retry_write bio) = bio_ptr bio"
  "bio_init (BIO_clear_retry_flags bio) = bio_init bio" "bio_init (BIO_set_retry_read bio) = bio_init bio"
  "bio_init (BIO_set_retry_write bio) = bio_init bio"
  by (simp_all add: BIO_clear_retry_flags_def BIO_set_retry_read_def BIO_set_retry_write_def)

lemma ring_request_simps [simp]:
  "ring_ok (b\<lparr>ring_request := n\<rparr>) = ring_ok b" "ring_contents (b\<lparr>ring_request := n\<rparr>) = ring_contents b"
  "ring_ok (b\<lparr>ring_closed := c\<rparr>) = ring_ok b" "ring_contents (b\<lparr>ring_closed := c\<rparr>) = ring_contents b"
  by (simp_all add: ring_ok_def ring_contents_def split: option.split)

lemma size_of_int: "0 \<le> n \<Longrightarrow> n \<le> INT_MAX \<Longrightarrow> size_of_int n = nat n"
  by (simp add: size_of_int_def SIZE_MOD_def INT_MAX_def)


text \<open>A side after an operation that may have changed its contents.\<close>

definition same_side :: "pair_bio \<Rightarrow> pair_bio \<Rightarrow> bool" where
  "same_side bio bio' \<longleftrightarrow> side_ok bio' \<and> side_size bio' = side_size bio \<and> side_closed bio' = side_closed bio"

lemmas side_defs = side_ok_def side_contents_def side_size_def side_closed_def same_side_def ring_frame_def

lemma side_num [simp]:
  "side_ok (bio\<lparr>num_read := n\<rparr>) = side_ok bio" "side_contents (bio\<lparr>num_read := n\<rparr>) = side_contents bio"
  "same_side b (bio\<lparr>num_read := n\<rparr>) = same_side b bio"
  "side_ok (bio\<lparr>num_write := n\<rparr>) = side_ok bio" "side_contents (bio\<lparr>num_write := n\<rparr>) = side_contents bio"
  "same_side b (bio\<lparr>num_write := n\<rparr>) = same_side b bio"
  by (simp_all add: side_defs)

lemma bio_read_ok:
  assumes ok: "side_ok me" "side_ok peer" and n: "0 < n" "n \<le> INT_MAX"
  shows "\<exists>r d me' peer'. bio_read (me, peer) True n = Some ((r, d), me', peer') \<and>
    same_side me me' \<and> same_side peer peer' \<and> side_contents me' = side_contents me \<and>
    side_contents peer = d @ side_contents peer' \<and>
    r = (if side_contents peer = [] then if side_closed peer then 0 else - 1 else int (min (nat n) (length (side_contents peer)))) \<and>
    d = take (nat n) (side_contents peer)"
proof -
  define c where "c = BIO_clear_retry_flags me"
  define b where "b = (bio_ptr peer)\<lparr>ring_request := 0\<rparr>"
  have n': "size_of_int n = nat n" "nat n \<noteq> 0" using n by (simp_all add: size_of_int)
  have me: "bio_init c" "side_ok me" "same_side me c" "side_contents c = side_contents me"
    using ok(1) by (simp_all add: c_def side_defs)
  have b: "ring_ok b" "ring_contents b = side_contents peer" "ring_closed b = side_closed peer"
    using ok(2) by (simp_all add: b_def side_defs)
  have len: "ring_len b = length (side_contents peer)"
    using length_ring_contents [OF b(1)] b(2) by simp
  note run = bio_read_def Let_def fst_conv snd_conv c_def [symmetric] b_def [symmetric] n'
  show ?thesis
  proof (cases "side_contents peer = []")
    case True
    have peer: "same_side peer (peer\<lparr>bio_ptr := b\<lparr>ring_request := m\<rparr>\<rparr>)" "side_contents (peer\<lparr>bio_ptr := b\<lparr>ring_request := m\<rparr>\<rparr>) = []"
      "same_side peer (peer\<lparr>bio_ptr := b\<rparr>)" "side_contents (peer\<lparr>bio_ptr := b\<rparr>) = []" for m
      using ok(2) b True by (simp_all add: side_defs b_def)
    have retry: "same_side me (BIO_set_retry_read c)" "side_contents (BIO_set_retry_read c) = side_contents me"
      using me by (simp_all add: side_defs)
    show ?thesis
      using n True len me b(3) peer retry by (auto simp: run)
  next
    case False
    define k where "k = min (nat n) (length (side_contents peer))"
    have k: "0 < k" "k \<le> ring_len b" "(if ring_len b < nat n then ring_len b else nat n) = k"
      using n' False len by (auto simp: k_def)
    obtain b' where b': "read_loop b [] k = Some ([] @ take k (ring_contents b), b')" "ring_ok b'"
      "ring_contents b' = drop k (ring_contents b)" "ring_frame b b'"
      using read_loop_ok [OF b(1) k(1,2)] by blast
    have peer: "same_side peer (peer\<lparr>bio_ptr := b'\<rparr>)" "side_contents (peer\<lparr>bio_ptr := b'\<rparr>) = drop k (side_contents peer)"
      using ok(2) b b' by (simp_all add: side_defs b_def)
    have "bio_read (me, peer) True n = Some ((int k, take k (side_contents peer)), c, peer\<lparr>bio_ptr := b'\<rparr>)"
      using n' me(1) False b' b(2) len k by (simp add: run)
    moreover have "take k (side_contents peer) = take (nat n) (side_contents peer)"
      "drop k (side_contents peer) = drop (nat n) (side_contents peer)"
      by (simp_all add: k_def min_def)
    ultimately show ?thesis
      using me peer False k_def by auto
  qed
qed

lemma bio_write_ok:
  assumes ok: "side_ok me" and n: "0 < n" "n \<le> INT_MAX" "nat n \<le> length d"
  shows "\<exists>r me'. bio_write (me, peer) (Some d) n = Some (r, me', peer) \<and>
    same_side me me' \<and> side_contents me' = side_contents me @ take (nat r) d \<and>
    r = (if side_closed me \<or> length (side_contents me) = side_size me then - 1
         else int (min (nat n) (side_size me - length (side_contents me))))"
proof -
  define b where "b = (bio_ptr me)\<lparr>ring_request := 0\<rparr>"
  define c where "c = (BIO_clear_retry_flags me)\<lparr>bio_ptr := b\<rparr>"
  have n': "size_of_int n = nat n" "nat n \<noteq> 0" using n by (simp_all add: size_of_int)
  have b: "ring_ok b" "ring_contents b = side_contents me" "ring_closed b = side_closed me" "ring_size b = side_size me"
    using ok by (simp_all add: b_def side_defs)
  have len: "ring_len b = length (side_contents me)" "ring_len b \<le> ring_size b"
    using length_ring_contents [OF b(1)] b(1,2) by (auto simp: ring_ok_def)
  have me: "bio_init (BIO_clear_retry_flags me)" "same_side me c" "side_contents c = side_contents me"
    "same_side me (BIO_set_retry_write c)" "side_contents (BIO_set_retry_write c) = side_contents me"
    using ok b by (simp_all add: c_def side_defs b_def)
  note run = bio_write_def Let_def fst_conv snd_conv option.case n' side_flags(1) b_def [symmetric] c_def [symmetric]
  show ?thesis
  proof (cases "side_closed me \<or> length (side_contents me) = side_size me")
    case True
    with n' me b len show ?thesis by (auto simp: run)
  next
    case False
    define k where "k = min (nat n) (ring_size b - ring_len b)"
    have k: "0 < k" "k \<le> ring_size b - ring_len b" "k \<le> length d"
      "(if nat n > size_sub (ring_size b) (ring_len b) then size_sub (ring_size b) (ring_len b) else nat n) = k"
      using n n' False len b(4) by (auto simp: k_def size_exact)
    obtain b' where b': "write_loop b d k = Some b'" "ring_ok b'" "ring_contents b' = ring_contents b @ take k d" "ring_frame b b'"
      using write_loop_ok [OF b(1) k(1,2,3)] by blast
    have "same_side me (c\<lparr>bio_ptr := b'\<rparr>)" "side_contents (c\<lparr>bio_ptr := b'\<rparr>) = side_contents me @ take k d"
      using ok b b' by (simp_all add: side_defs b_def c_def)
    moreover have "bio_write (me, peer) (Some d) n = Some (int k, c\<lparr>bio_ptr := b'\<rparr>, peer)"
      using n' me(1) False b' b len k(4) by (simp add: run)
    ultimately show ?thesis
      using False b(4) len(1) k_def by auto
  qed
qed

section \<open>Runs of a pair\<close>

text \<open>
  What a caller sees of a pair: the two sides, and for each the bytes that its writes have accepted
  (\<open>sent\<close>) and those that its reads have returned (\<open>got\<close>).
\<close>

record pair_run =
  sides :: "pair_bio \<times> pair_bio"
  sent :: "bool \<Rightarrow> bytes"
  got :: "bool \<Rightarrow> bytes"

text \<open>The state as the operations of one side see it.\<close>

definition seen_from :: "bool \<Rightarrow> 'a \<times> 'a \<Rightarrow> 'a \<times> 'a" where
  "seen_from second st = (if second then (snd st, fst st) else st)"

definition side_of :: "bool \<Rightarrow> pair_run \<Rightarrow> pair_bio" where
  "side_of i run = fst (seen_from i (sides run))"

text \<open>Every operation of the interface but freeing, from either side, in any order.\<close>

inductive pair_step :: "pair_run \<Rightarrow> pair_run \<Rightarrow> bool" where
  pair_read: "BIO_read (Some bio_read) (seen_from i (sides run)) True n = Some ((r, d), st) \<Longrightarrow> n \<le> INT_MAX \<Longrightarrow>
    pair_step run (run\<lparr>sides := seen_from i st, got := (got run)(i := got run i @ d)\<rparr>)"
| pair_write: "BIO_write (Some bio_write) (seen_from i (sides run)) (Some d) n = Some (r, st) \<Longrightarrow> n \<le> INT_MAX \<Longrightarrow> nat n \<le> length d \<Longrightarrow>
    pair_step run (run\<lparr>sides := seen_from i st, sent := (sent run)(i := sent run i @ take (nat r) d)\<rparr>)"
| pair_control: "BIO_ctrl (Some bio_ctrl) (seen_from i (sides run)) cmd n ptr = (r, st) \<Longrightarrow>
    pair_step run (run\<lparr>sides := seen_from i st\<rparr>)"

inductive_cases pair_stepE: "pair_step run run'"

text \<open>Reachable from a pair that \<open>BIO_new_bio_pair\<close> has just made.\<close>

inductive pair_reachable :: "allocator \<Rightarrow> pair_run \<Rightarrow> bool" for al where
  start: "BIO_new_bio_pair al n1 n2 = Some st \<Longrightarrow>
    pair_reachable al \<lparr>sides = st, sent = (\<lambda>_. []), got = (\<lambda>_. [])\<rparr>"
| step: "pair_reachable al run \<Longrightarrow> pair_step run run' \<Longrightarrow> pair_reachable al run'"

definition run_ok :: "pair_run \<Rightarrow> bool" where
  "run_ok run \<longleftrightarrow> (\<forall>i. side_ok (side_of i run) \<and> sent run i = got run (\<not> i) @ side_contents (side_of i run))"

text \<open>Memory is never handed out in blocks of half the address space.\<close>

definition bounded_blocks :: "allocator \<Rightarrow> bool" where
  "bounded_blocks al \<longleftrightarrow> (\<forall>n. malloc_ok al n \<longrightarrow> 2 * n < SIZE_MOD)"

lemma seen_from_twice [simp]: "seen_from i (seen_from i st) = st"
  by (simp add: seen_from_def)

lemma side_of_seen:
  "side_of i (run\<lparr>sides := seen_from i st\<rparr>) = fst st" "side_of (\<not> i) (run\<lparr>sides := seen_from i st\<rparr>) = snd st"
  "snd (seen_from i (sides run)) = side_of (\<not> i) run" "fst (seen_from i (sides run)) = side_of i run"
  by (simp_all add: side_of_def seen_from_def)

lemma side_of_update [simp]: "side_of j (run\<lparr>sent := s\<rparr>) = side_of j run" "side_of j (run\<lparr>got := s\<rparr>) = side_of j run"
  by (simp_all add: side_of_def)

lemma run_okI:
  assumes "side_ok (side_of i run)" "sent run i = got run (\<not> i) @ side_contents (side_of i run)"
    "side_ok (side_of (\<not> i) run)" "sent run (\<not> i) = got run i @ side_contents (side_of (\<not> i) run)"
  shows "run_ok run"
  unfolding run_ok_def
proof
  fix j show "side_ok (side_of j run) \<and> sent run j = got run (\<not> j) @ side_contents (side_of j run)"
    using assms by (cases "j = i") auto
qed

lemma run_okD:
  assumes "run_ok run"
  shows "side_ok (side_of i run)" "sent run i = got run (\<not> i) @ side_contents (side_of i run)"
  using assms by (auto simp: run_ok_def)

lemma make_ring_ok:
  assumes "make_ring al n b = Some b'" "bounded_blocks al" "ring_buf b = None" "0 < ring_size b"
  shows "ring_ok b' \<and> ring_contents b' = []"
proof -
  obtain buf sz where "OPENSSL_malloc al sz = Some buf" "0 < sz"
    "b' = b\<lparr>ring_size := sz, ring_buf := Some buf, ring_len := 0, ring_offset := 0\<rparr>"
    using assms by (cases "n = 0") (auto simp: make_ring_def Let_def split: option.splits)
  moreover from this(1) assms(2) have "2 * (sz + 8) < SIZE_MOD" "length buf = sz"
    by (auto simp: OPENSSL_malloc_def bounded_blocks_def OPENSSL_MALLOC_PREFIX_def split: if_splits)
  ultimately show ?thesis
    by (simp add: ring_ok_def ring_contents_def)
qed

lemma connect_ok: "ring_ok b \<Longrightarrow> side_ok (connect bio b)" "side_contents (connect bio b) = ring_contents b"
  by (auto simp: connect_def side_ok_def side_contents_def ring_ok_def ring_contents_def split: option.splits)

lemma new_pair_ok:
  assumes "BIO_new_bio_pair al n1 n2 = Some st" "bounded_blocks al"
  shows "run_ok \<lparr>sides = st, sent = (\<lambda>_. []), got = (\<lambda>_. [])\<rparr>"
proof -
  let ?b = "pair_null\<lparr>ring_size := 17 * 1024\<rparr>"
  let ?bio = "\<lparr>bio_init = False, bio_shutdown = 1, bio_flags = 0, retry_reason = 0, bio_num = 0, bio_ptr = ?b,
    num_read = 0, num_write = 0\<rparr>"
  obtain b1 b2 where st: "make_ring al n1 ?b = Some b1" "make_ring al n2 ?b = Some b2" "st = (connect ?bio b1, connect ?bio b2)"
    using assms(1)
    by (auto simp: BIO_new_bio_pair_def BIO_new_def bio_new_def bio_make_pair_def split: option.splits if_splits)
  have "ring_ok b1 \<and> ring_contents b1 = []" "ring_ok b2 \<and> ring_contents b2 = []"
    using make_ring_ok [OF st(1) assms(2)] make_ring_ok [OF st(2) assms(2)] by (simp_all add: pair_null_def)
  then show ?thesis
    by (intro run_okI [of False]) (simp_all add: st(3) side_of_def seen_from_def connect_ok)
qed


lemma BIO_read_pair:
  assumes ok: "side_ok me" "side_ok peer" and n: "n \<le> INT_MAX"
    and r: "BIO_read (Some bio_read) (me, peer) True n = Some ((r, d), me', peer')"
  shows "side_ok me' \<and> side_ok peer' \<and> side_contents me' = side_contents me \<and> side_contents peer = d @ side_contents peer'"
proof (cases "0 < n")
  case True
  obtain r1 d1 me1 peer1 where b: "bio_read (me, peer) True n = Some ((r1, d1), me1, peer1)" "same_side me me1" "same_side peer peer1"
    "side_contents me1 = side_contents me" "side_contents peer = d1 @ side_contents peer1"
    using bio_read_ok [OF ok True n] by blast
  then have "side_ok me1" "side_ok peer1" "bio_init me"
    using ok(1) by (simp_all add: same_side_def side_ok_def)
  with b r True show ?thesis
    by (auto simp: BIO_read_def)
next
  case False
  with r ok show ?thesis
    by (auto simp: BIO_read_def side_ok_def)
qed

lemma BIO_write_pair:
  assumes ok: "side_ok me" and n: "n \<le> INT_MAX" "nat n \<le> length d"
    and w: "BIO_write (Some bio_write) (me, peer) (Some d) n = Some (r, me', peer')"
  shows "side_ok me' \<and> peer' = peer \<and> side_contents me' = side_contents me @ take (nat r) d"
proof (cases "0 < n")
  case True
  obtain r1 me1 where b: "bio_write (me, peer) (Some d) n = Some (r1, me1, peer)" "same_side me me1"
    "side_contents me1 = side_contents me @ take (nat r1) d"
    using bio_write_ok [OF ok True n] by blast
  then have "side_ok me1" "bio_init me"
    using ok by (simp_all add: same_side_def side_ok_def)
  with b w True show ?thesis
    by (auto simp: BIO_write_def)
next
  case False
  with w ok show ?thesis
    by (auto simp: BIO_write_def side_ok_def)
qed

lemma BIO_ctrl_pair:
  assumes "side_ok me" "BIO_ctrl (Some bio_ctrl) (me, peer) cmd n ptr = (r, me', peer')"
  shows "side_ok me' \<and> peer' = peer \<and> side_contents me' = side_contents me"
proof -
  have "me' \<in> {me, me\<lparr>bio_ptr := (bio_ptr me)\<lparr>ring_request := 0\<rparr>\<rparr>, me\<lparr>bio_ptr := (bio_ptr me)\<lparr>ring_closed := True\<rparr>\<rparr>,
      me\<lparr>bio_shutdown := n\<rparr>} \<and> peer' = peer"
    using assms(2) by (auto simp: BIO_ctrl_def bio_ctrl_def Let_def split: if_split_asm)
  with assms(1) show ?thesis
    by (auto simp: side_defs)
qed

lemma pair_step_ok:
  assumes "pair_step run run'" "run_ok run"
  shows "run_ok run'"
  using assms
proof cases
  case (pair_read i n r d st)
  obtain me' peer' where st: "st = (me', peer')" by (rule prod.exhaust)
  have "side_ok me' \<and> side_ok peer' \<and> side_contents me' = side_contents (side_of i run) \<and>
      side_contents (side_of (\<not> i) run) = d @ side_contents peer'"
    using BIO_read_pair [OF run_okD(1) [OF assms(2), of i] run_okD(1) [OF assms(2), of "\<not> i"] pair_read(3)] pair_read(2)
    unfolding st by (metis prod.collapse side_of_seen(3,4))
  with run_okD(2) [OF assms(2), of i] run_okD(2) [OF assms(2), of "\<not> i"] show ?thesis
    unfolding pair_read(1) st by (intro run_okI [of i]) (simp_all add: side_of_seen)
next
  case (pair_write i d n r st)
  obtain me' peer' where st: "st = (me', peer')" by (rule prod.exhaust)
  have "side_ok me' \<and> peer' = side_of (\<not> i) run \<and> side_contents me' = side_contents (side_of i run) @ take (nat r) d"
    using BIO_write_pair [OF run_okD(1) [OF assms(2), of i] pair_write(3,4)] pair_write(2)
    unfolding st by (metis prod.collapse side_of_seen(3,4))
  with run_okD [OF assms(2), of i] run_okD [OF assms(2), of "\<not> i"] show ?thesis
    unfolding pair_write(1) st by (intro run_okI [of i]) (simp_all add: side_of_seen)
next
  case (pair_control i cmd n ptr r st)
  obtain me' peer' where st: "st = (me', peer')" by (rule prod.exhaust)
  have "side_ok me' \<and> peer' = side_of (\<not> i) run \<and> side_contents me' = side_contents (side_of i run)"
    using BIO_ctrl_pair [OF run_okD(1) [OF assms(2), of i]] pair_control(2)
    unfolding st by (metis prod.collapse side_of_seen(3,4))
  with run_okD [OF assms(2), of i] run_okD [OF assms(2), of "\<not> i"] show ?thesis
    unfolding pair_control(1) st by (intro run_okI [of i]) (simp_all add: side_of_seen)
qed

section \<open>Properties\<close>

lemma pair_reachable_ok:
  assumes "pair_reachable al run" "bounded_blocks al"
  shows "run_ok run"
  using assms(1)
proof induction
  case (start n1 n2 st)
  then show ?case using assms(2) by (rule new_pair_ok)
next
  case (step run run')
  then show ?case by (simp add: pair_step_ok)
qed

text \<open>
  C3: whatever the two ends of a pair do, and in whatever order, what one end has sent is what the other has
  received followed by what is waiting in the ring buffer: nothing is lost, repeated or reordered; and no
  more waits than the buffer holds.
\<close>

theorem pair_delivers_in_order:
  assumes "bounded_blocks al" "pair_reachable al run"
  shows "sent run i = got run (\<not> i) @ side_contents (side_of i run) \<and>
    length (side_contents (side_of i run)) \<le> side_size (side_of i run)"
proof
  have ok: "run_ok run" using assms(2,1) by (rule pair_reachable_ok)
  then show "sent run i = got run (\<not> i) @ side_contents (side_of i run)"
    by (rule run_okD)
  have "ring_ok (bio_ptr (side_of i run))"
    using run_okD(1) [OF ok] by (simp add: side_ok_def)
  then show "length (side_contents (side_of i run)) \<le> side_size (side_of i run)"
    using length_ring_contents by (simp add: side_contents_def side_size_def ring_ok_def)
qed

definition small_memory :: allocator where
  "small_memory = \<lparr>malloc_ok = (\<lambda>n. n < 2 ^ 20), junk = (\<lambda>_. 7)\<rparr>"

definition new_pair :: "pair_bio \<times> pair_bio" where
  "new_pair = the (BIO_new_bio_pair small_memory 3 2)"

lemma new_pair: "BIO_new_bio_pair small_memory 3 2 = Some new_pair"
  by (simp add: new_pair_def BIO_new_bio_pair_def BIO_new_def bio_new_def OPENSSL_zalloc_def OPENSSL_malloc_def small_memory_def
      bio_struct_size_def bio_bio_struct_size_def OPENSSL_MALLOC_PREFIX_def size_add_def SIZE_MOD_def bio_make_pair_def
      pair_null_def make_ring_def Let_def)

lemma new_pair_open: "BIO_new_bio_pair al n1 n2 = Some st \<Longrightarrow> \<not> side_closed (fst st)"
  by (auto simp: BIO_new_bio_pair_def bio_make_pair_def connect_def side_closed_def split: option.splits if_splits)

lemma small_memory: "bounded_blocks small_memory"
  by (simp add: bounded_blocks_def small_memory_def SIZE_MOD_def)

theorem pair_delivers_in_order_witness:
  "\<exists>w st. BIO_write (Some bio_write) new_pair (Some [1, 2, 3, 4]) 4 = Some (w, st) \<and>
    take (nat w) [1, 2, 3, 4] = side_contents (fst st) \<and> length (side_contents (fst st)) \<le> side_size (fst st)"
proof -
  let ?run = "\<lparr>sides = new_pair, sent = (\<lambda>_. []), got = (\<lambda>_. [])\<rparr>"
  have start: "pair_reachable small_memory ?run"
    using new_pair by (rule pair_reachable.start)
  then have ok: "side_ok (fst new_pair)"
    using run_okD(1) [OF pair_reachable_ok [OF start small_memory], of False] by (simp add: side_of_def seen_from_def)
  obtain w me' where "bio_write (fst new_pair, snd new_pair) (Some [1, 2, 3, 4]) 4 = Some (w, me', snd new_pair)"
    using bio_write_ok [OF ok, of 4 "[1, 2, 3, 4]" "snd new_pair"] by (auto simp: INT_MAX_def)
  then obtain st where w: "BIO_write (Some bio_write) new_pair (Some [1, 2, 3, 4]) 4 = Some (w, st)"
    using ok by (auto simp: BIO_write_def side_ok_def)
  have "pair_step ?run (?run\<lparr>sides := seen_from False st, sent := (sent ?run)(False := sent ?run False @ take (nat w) [1, 2, 3, 4])\<rparr>)"
    by (rule pair_step.pair_write [where n = 4]) (simp_all add: seen_from_def INT_MAX_def w)
  from pair_delivers_in_order [OF small_memory pair_reachable.step [OF start this], of False] w show ?thesis
    by (auto simp: side_of_def seen_from_def)
qed

text \<open>One round: one end writes what it still has to send, the other reads \<open>chunk\<close> bytes.\<close>

fun pump :: "nat \<Rightarrow> int \<Rightarrow> bytes \<Rightarrow> pair_bio \<times> pair_bio \<Rightarrow> (bytes \<times> bytes \<times> pair_bio \<times> pair_bio) option" where
  "pump 0 chunk d st = Some ([], d, st)"
| "pump (Suc k) chunk d st =
     Option.bind (BIO_write (Some bio_write) st (Some d) (min (int (length d)) INT_MAX)) (\<lambda>(w, me, peer).
     Option.bind (BIO_read (Some bio_read) (peer, me) True chunk) (\<lambda>((r, e), peer, me).
     map_option (\<lambda>(es, d, st). (e @ es, d, st)) (pump k chunk (drop (nat w) d) (me, peer))))"

lemma write_progress:
  assumes ok: "side_ok me" "\<not> side_closed me"
  shows "\<exists>w me'. BIO_write (Some bio_write) (me, peer) (Some d) (min (int (length d)) INT_MAX) = Some (w, me', peer) \<and>
    side_ok me' \<and> \<not> side_closed me' \<and> side_contents me' = side_contents me @ take (nat w) d \<and>
    (side_contents me @ d \<noteq> [] \<longrightarrow> side_contents me' \<noteq> [])"
proof (cases "d = []")
  case True
  with ok show ?thesis by (auto simp: BIO_write_def side_ok_def)
next
  case False
  let ?n = "min (int (length d)) INT_MAX"
  have n: "0 < ?n" "?n \<le> INT_MAX" "nat ?n \<le> length d"
    using False by (auto simp: INT_MAX_def)
  obtain w me' where w: "bio_write (me, peer) (Some d) ?n = Some (w, me', peer)" "same_side me me'"
    "side_contents me' = side_contents me @ take (nat w) d"
    "w = (if side_closed me \<or> length (side_contents me) = side_size me then - 1
          else int (min (nat ?n) (side_size me - length (side_contents me))))"
    using bio_write_ok [OF ok(1) n, of peer] by blast
  have "0 < side_size me"
    using ok(1) by (auto simp: side_ok_def ring_ok_def side_size_def)
  moreover have "length (side_contents me) \<le> side_size me"
    using ok(1) length_ring_contents [of "bio_ptr me"] by (simp add: side_ok_def side_contents_def side_size_def ring_ok_def)
  ultimately have "side_contents me' \<noteq> []"
    using w(3,4) ok(2) n(1) False by (auto split: if_splits)
  moreover have me': "side_ok me'" "\<not> side_closed me'" "bio_init me"
    using w(2) ok by (simp_all add: same_side_def side_ok_def)
  define me2 where "me2 = (if w > 0 then me'\<lparr>num_write := size_add (num_write me') (nat w)\<rparr> else me')"
  have "BIO_write (Some bio_write) (me, peer) (Some d) ?n = Some (w, me2, peer)"
  proof -
    have "\<not> ?n \<le> 0" using n(1) by linarith
    then show ?thesis
      using w(1) me'(3) by (simp add: BIO_write_def me2_def)
  qed
  moreover have "side_ok me2" "\<not> side_closed me2" "side_contents me2 = side_contents me'"
    using me' by (simp_all add: me2_def side_closed_def)
  ultimately show ?thesis
    using w(3) by metis
qed

lemma read_progress:
  assumes "side_ok me" "side_ok peer" "0 < n" "n \<le> INT_MAX"
  shows "\<exists>r me' peer'. BIO_read (Some bio_read) (me, peer) True n = Some ((r, take (nat n) (side_contents peer)), me', peer') \<and>
    side_ok me' \<and> side_ok peer' \<and> side_closed peer' = side_closed peer \<and> side_contents peer' = drop (nat n) (side_contents peer)"
proof -
  obtain r d me' peer' where r: "bio_read (me, peer) True n = Some ((r, d), me', peer')" "same_side me me'" "same_side peer peer'"
    "side_contents peer = d @ side_contents peer'" "d = take (nat n) (side_contents peer)"
    using bio_read_ok [OF assms] by blast
  have "side_contents peer' = drop (nat n) (side_contents peer)"
    using r(4,5) by (metis append_take_drop_id same_append_eq)
  moreover define me2 where "me2 = (if r > 0 then me'\<lparr>num_read := size_add (num_read me') (nat r)\<rparr> else me')"
  moreover have "BIO_read (Some bio_read) (me, peer) True n = Some ((r, d), me2, peer')"
    using r(1) assms(1,3) by (simp add: BIO_read_def me2_def side_ok_def)
  moreover have "side_ok me2" "side_ok peer'" "side_closed peer' = side_closed peer"
    using r(2,3) by (simp_all add: me2_def same_side_def)
  ultimately show ?thesis
    using r(5) by blast
qed

lemma pump_delivers:
  assumes "side_ok me" "side_ok peer" "\<not> side_closed me" "0 < chunk" "chunk \<le> INT_MAX"
    "length (side_contents me @ d) \<le> k"
  shows "\<exists>st. pump k chunk d (me, peer) = Some (side_contents me @ d, [], st)"
  using assms
proof (induction k arbitrary: me peer d)
  case 0
  then show ?case by simp
next
  case (Suc k)
  obtain w me1 where w: "BIO_write (Some bio_write) (me, peer) (Some d) (min (int (length d)) INT_MAX) = Some (w, me1, peer)"
    "side_ok me1" "\<not> side_closed me1" "side_contents me1 = side_contents me @ take (nat w) d"
    "side_contents me @ d \<noteq> [] \<longrightarrow> side_contents me1 \<noteq> []"
    using write_progress [OF Suc.prems(1,3)] by blast
  obtain r peer2 me2 where r: "BIO_read (Some bio_read) (peer, me1) True chunk =
      Some ((r, take (nat chunk) (side_contents me1)), peer2, me2)"
    "side_ok peer2" "side_ok me2" "side_closed me2 = side_closed me1" "side_contents me2 = drop (nat chunk) (side_contents me1)"
    using read_progress [OF Suc.prems(2) w(2) Suc.prems(4,5)] by blast
  have all: "side_contents me1 @ drop (nat w) d = side_contents me @ d"
    by (simp add: w(4))
  have "length (side_contents me2 @ drop (nat w) d) \<le> k"
  proof (cases "side_contents me @ d = []")
    case False
    then have "0 < length (side_contents me1)" using w(5) by simp
    then have "length (side_contents me2) < length (side_contents me1)"
      using r(5) Suc.prems(4) by simp
    moreover have "length (side_contents me1 @ drop (nat w) d) \<le> Suc k"
      unfolding all by (rule Suc.prems)
    ultimately show ?thesis by simp
  next
    case True
    then show ?thesis using r(5) w(4) by simp
  qed
  then obtain st where "pump k chunk (drop (nat w) d) (me2, peer2) = Some (side_contents me2 @ drop (nat w) d, [], st)"
    using Suc.IH [OF r(3,2) _ Suc.prems(4,5)] r(4) w(3) by blast
  moreover have "take (nat chunk) (side_contents me1) @ side_contents me2 @ drop (nat w) d = side_contents me @ d"
    unfolding r(5) append_assoc [symmetric] append_take_drop_id by (rule all)
  ultimately show ?case
    using w(1) r(1) by auto
qed

text \<open>
  C6: in every reachable state in which an end has not shut down its writing, if that end keeps writing what
  it has left to send and the other keeps reading, any positive number of bytes at a time, then every call
  returns and after as many rounds as there are bytes everything has arrived, in order.
\<close>

theorem pair_delivers_everything:
  assumes "bounded_blocks al" "pair_reachable al run" "\<not> side_closed (side_of i run)"
    "0 < chunk" "chunk \<le> INT_MAX" "length (side_contents (side_of i run) @ d) \<le> k"
  shows "\<exists>st. pump k chunk d (seen_from i (sides run)) = Some (side_contents (side_of i run) @ d, [], st)"
proof -
  have ok: "run_ok run" using assms(2,1) by (rule pair_reachable_ok)
  have "seen_from i (sides run) = (side_of i run, side_of (\<not> i) run)"
    by (metis prod.collapse side_of_seen(3,4))
  then show ?thesis
    using pump_delivers [OF run_okD(1) [OF ok, of i] run_okD(1) [OF ok, of "\<not> i"] assms(3-6)] by simp
qed

theorem pair_delivers_everything_witness:
  "\<exists>st. pump 5 2 [1, 2, 3, 4, 5] new_pair = Some ([1, 2, 3, 4, 5], [], st)"
proof -
  let ?run = "\<lparr>sides = new_pair, sent = (\<lambda>_. []), got = (\<lambda>_. [])\<rparr>"
  have start: "pair_reachable small_memory ?run"
    using new_pair by (rule pair_reachable.start)
  have "side_contents (side_of False ?run) = []"
    using pair_reachable_ok [OF start small_memory] run_okD(2) [of ?run False] by simp
  moreover have "\<not> side_closed (fst new_pair)"
    using new_pair by (rule new_pair_open)
  ultimately show ?thesis
    using pair_delivers_everything [OF small_memory start, of False 2 "[1, 2, 3, 4, 5]" 5]
    by (simp add: side_of_def seen_from_def INT_MAX_def)
qed

end
