(* ===== verification/Spec2Isabelle.thy ===== *)
theory Spec2Isabelle
  imports Constant_Time Mem Cbs_Asn1 Cbb_Correct Oid Set_Of Posix_Time_Correct Cbs_Time Unicode Ber Base64 Stack Conf_Roundtrip
    Bio_Asn1 Bio_Pair
begin

text \<open>
  A verification library for the C code of this repository: the byte-level layers of the BoringSSL that the
  iOS client is built with, under \<^verbatim>\<open>src/ios/job_qa/Pods/BoringSSL-GRPC/src\<close>. All paths below are
  relative to that directory. Certificates, keys, configuration and the TLS handshake are read, written,
  stored and moved by the functions modelled here; an error in one of them is an error in everything above.

  \<^bold>\<open>The parts and how they call each other\<close>

  \<^item> \<open>Prelude\<close>: machine types, arithmetic on \<open>size_t\<close> with its wrap-around (\<open>size_add\<close>, \<open>size_mul\<close>,
    \<open>size_sub\<close>), the sequencing \<open>chk\<close> of fallible operations on a state, big-endian numbers, and the locales
    that state what a reader of bytes promises (it consumes a prefix, it is canonical for an encoding).
  \<^item> \<open>Constant_Time\<close> (\<^verbatim>\<open>crypto/internal.h\<close>): the branch-free comparisons, each proved equal to the
    comparison it stands for; used by the base64 tables and by \<open>CRYPTO_memcmp\<close>.
  \<^item> \<open>Mem\<close> (\<^verbatim>\<open>crypto/mem.c\<close>): allocation with its overflow checks, hashing, string helpers.
  \<^item> \<open>Cbs\<close>, \<open>Cbs_Asn1\<close>, \<open>Cbs_Time\<close> (\<^verbatim>\<open>crypto/bytestring/cbs.c\<close>): the reader. A \<open>CBS\<close> is the list of the
    bytes of its span; a reader returns its result, if any, and the span afterwards.
  \<^item> \<open>Cbb\<close>, \<open>Cbb_Correct\<close>, \<open>Oid\<close>, \<open>Set_Of\<close> (\<^verbatim>\<open>crypto/bytestring/cbb.c\<close>): the builder. A \<open>cbb\<close> is the base
    buffer with the chain of its open children; a handle is the depth in that chain. \<open>CBB_flush\<close> writes
    pending length prefixes from the innermost child out.
  \<^item> \<open>Ber\<close> (\<^verbatim>\<open>crypto/bytestring/ber.c\<close>, \<^verbatim>\<open>asn1_compat.c\<close>): conversion of BER to DER, from the reader to the
    builder. \<open>Unicode\<close> (\<^verbatim>\<open>unicode.c\<close>): the text encodings over both.
  \<^item> \<open>Posix_Time\<close>, \<open>Posix_Time_Correct\<close> (\<^verbatim>\<open>crypto/asn1/posix_time.c\<close>): dates and seconds; the parser of
    \<open>Cbs_Time\<close> ends in \<open>OPENSSL_gmtime_adj\<close>.
  \<^item> \<open>Base64\<close> (\<^verbatim>\<open>crypto/base64/base64.c\<close>): the block and streaming coders.
  \<^item> \<open>Comparison\<close>, \<open>Stack\<close>, \<open>LHash\<close> (\<^verbatim>\<open>crypto/stack/stack.c\<close>, \<^verbatim>\<open>crypto/lhash/lhash.c\<close>): the containers, over
    the comparison and hash functions of their clients. The locale \<open>comparison\<close> says what a comparison
    function has to promise, \<open>hash_functions\<close> what a hash function has to; \<open>Set_Of\<close> interprets the first
    with the order of SET OF elements, \<open>Conf\<close> both with the keys of the configuration tables.
  \<^item> \<open>Buf\<close> (\<^verbatim>\<open>crypto/buf/buf.c\<close>): growing buffers, used by \<open>Conf_Text\<close>, \<open>Conf_Load\<close> and \<open>Bio_Mem\<close>.
  \<^item> \<open>Conf\<close>, \<open>Conf_Text\<close> (\<^verbatim>\<open>crypto/conf/conf.c\<close>, \<^verbatim>\<open>conf_def.h\<close>): the keys of the tables of a
    configuration and the functions that take its lines apart.
  \<^item> \<open>Conf_Load\<close>, \<open>Conf_Load_Correct\<close>, \<open>Conf_Roundtrip\<close> (\<^verbatim>\<open>crypto/conf/conf.c\<close>): the two hash tables of a
    configuration, the loop over the lines of a \<open>BIO\<close> that fills them, the lookups and the release. It
    composes \<open>LHash\<close>, \<open>Stack\<close>, \<open>Buf\<close>, \<open>Bio_Mem\<close> and \<open>Conf_Text\<close>. An object of a table is the pair of its
    address and its contents; the field \<open>freed\<close> of a configuration logs the addresses given to
    \<open>OPENSSL_free\<close>.
  \<^item> \<open>Bio\<close>, \<open>Bio_Mem\<close>, \<open>Bio_Pair\<close>, \<open>Bio_Asn1\<close> (\<^verbatim>\<open>crypto/bio/bio.c\<close>, \<^verbatim>\<open>bio_mem.c\<close>, \<^verbatim>\<open>pair.c\<close>): the common
    layer of input and output, buffers as \<open>BIO\<close>s, two \<open>BIO\<close>s connected by ring buffers, and the agreement
    of the reader over a \<open>BIO\<close> with the reader over a span.

  \<^bold>\<open>How code becomes definitions\<close>

  The target is a 64-bit Apple platform: LP64, little-endian, \<open>size_t\<close> of 64 bits.
  \<^item> Definitions have the names of the C functions and follow their branches, early returns included. A loop
    is a recursive definition of its own, named after its function; a loop whose end depends on an invariant
    of its input, or on the objects it calls, is a partial function into \<open>option\<close>, where \<open>None\<close> is a call
    that does not return, and its return is proved.
  \<^item> \<open>uint8_t\<close> to \<open>uint64_t\<close> are words. A \<open>size_t\<close> is a natural number; a sum that the code lets wrap is
    written with \<open>size_add\<close>. An \<open>int\<close> is an integer where its overflow would be undefined behaviour or is
    excluded by a check of the code, and C division is \<open>sdiv\<close>, \<open>smod\<close>.
  \<^item> A function that returns 0 or \<open>NULL\<close> for a failure has a result in \<open>option\<close>; what a failed call leaves in
    its out parameters is not part of the result, what it leaves in the object is.
  \<^item> Memory is the list of the bytes of a block. \<open>malloc\<close> is a parameter, the record \<open>allocator\<close>: which
    requests succeed, and what fresh memory holds. Objects given to a function do not overlap unless the code
    says so. Freeing has no value, except in the deep copy of a stack and in the tables of a
    configuration, where it is the point.
  \<^item> A \<open>char\<close> pointer into a string is the string from the pointer on. A pointer into a chain of the hash table
    is the number of the bucket and the position in its chain.
  \<^item> Callbacks are parameters; those that act on the caller's objects thread the caller's state. \<open>qsort\<close> is a
    parameter with the contract of the C standard (\<open>qsort_contract\<close>), shown to be satisfiable by
    insertion sort; \<open>snprintf\<close> with a decimal conversion is \<open>decimal_enc\<close>.

  \<^bold>\<open>What the lemmas show\<close>

  For the reader and the builder: exactness (a reader accepts exactly the encodings of an explicit encoder),
  round trips, the error bit, and the refinement of the flush of nested children by a builder of plain byte
  lists. For \<open>Ber\<close>: the inductive predicate \<open>der\<close> holds of every result. For the calendar: the closed
  formulas count days as the calendar does, and invert each other. For base64: cuts do not matter. For the
  containers: representation invariants, refinement of lists and of maps, sorting by permutation and order,
  leak-freedom of the deep copy. For configuration text: writes stay in bounds, escaping is undone, a list is
  split at its separators. For configuration files: loading ends on every text; the ordered list of a section
  and the lookup table agree; every object made is freed exactly once; a text printed from sections, names
  and values is loaded back. For \<open>BIO\<close>s: a memory \<open>BIO\<close> is a queue, a pair is two queues in every state reachable
  by any interleaving of the operations of its ends, and every message gets through. Each group rests on the
  lemmas of its theory; the properties are those with a claim number.

  \<^bold>\<open>Bounds and fuel\<close>

  Only \<open>read_all\<close> of the \<open>Prelude\<close> has fuel, the length of its input, of which every step consumes at least one
  byte (\<open>read_all_fuel\<close>). The BER recursion carries the code's own limit of 128 levels. The loop of
  \<open>NCONF_load_bio\<close> is a partial function; it ends because a step either takes text from the \<open>BIO\<close> or, at its
  end, shortens the line that is being continued. Its counters are exact integers: a line of more than \<open>INT_MAX\<close>
  bytes, whose length overflows in the code, is outside the model.

  \<^bold>\<open>Not modelled\<close>

  Formatted printing; files as such (\<open>NCONF_load\<close> takes the \<open>BIO\<close> of the file, or its absence, as a
  parameter); reference counts and locks; the cryptographic primitives, whose portable C code is chosen or replaced at run time;
  X.509, PEM, EVP and TLS above these layers; the other vendored libraries, the Swift client and the Python
  server, which are other languages.
\<close>

end
